(* ===== verification/Prelude.thy ===== *)
theory Prelude
  imports Main "HOL-Library.Word" "HOL-Library.Monad_Syntax"
begin

text \<open>
  Shared vocabulary of the development.  It fixes the machine types of the kernel's C code
  (an LP64 target: \<open>size_t\<close>, \<open>uintptr_t\<close> and pointers are 64 bits wide), the
  convention for undefined behaviour (a fallible C operation is a function into
  \<open>option\<close>; \<open>None\<close> is an access the C program may not make, or a loop that does
  not end), and the generic facts on arrays, option values and words that the components
  share.
\<close>

unbundle bit_operations_syntax

named_theorems kdefs \<open>definitions of the model that a proof unfolds\<close>
named_theorems karith \<open>transfer of word arithmetic to the natural numbers\<close>

subsection \<open>Machine types\<close>

type_synonym u8 = "8 word"
type_synonym u16 = "16 word"
type_synonym u32 = "32 word"
type_synonym u64 = "64 word"
type_synonym size_t = "64 word"

text \<open>A pointer is the address of the object it designates; \<open>NULL\<close> is 0.\<close>

type_synonym ptr = "64 word"

abbreviation (input) NULL :: ptr where
  "NULL \<equiv> 0"

abbreviation (input) UINT64_MAX :: u64 where
  "UINT64_MAX \<equiv> - 1"

text \<open>The number of CPUs the kernel is built for (\<open>settings.h\<close>).\<close>

definition MAX_CPU_NUM :: nat where "MAX_CPU_NUM = 128"

text \<open>The size of a page and rounding down to a multiple of a power of two (\<open>klibc.h\<close>).\<close>

definition PAGE_SIZE :: u64 where "PAGE_SIZE = 4096"

definition PADDING_DOWN :: "u64 \<Rightarrow> u64 \<Rightarrow> u64" where
  "PADDING_DOWN sz to = sz AND NOT (to - 1)"

subsection \<open>Checked array accesses\<close>

text \<open>
  \<open>array_get\<close> and \<open>array_set\<close> are \<open>a[i]\<close> and \<open>a[i] = v\<close> on a C array; an
  index past the end is undefined behaviour and yields \<open>None\<close>.
\<close>

definition array_get :: "'a list \<Rightarrow> nat \<Rightarrow> 'a option" where
  "array_get xs i = (if i < length xs then Some (xs ! i) else None)"

definition array_set :: "'a list \<Rightarrow> nat \<Rightarrow> 'a \<Rightarrow> 'a list option" where
  "array_set xs i v = (if i < length xs then Some (xs[i := v]) else None)"

lemma array_get_in [simp]: "i < length xs \<Longrightarrow> array_get xs i = Some (xs ! i)"
  by (simp add: array_get_def)

lemma array_get_out [simp]: "length xs \<le> i \<Longrightarrow> array_get xs i = None"
  by (simp add: array_get_def)

lemma array_get_eq_Some: "array_get xs i = Some x \<longleftrightarrow> i < length xs \<and> x = xs ! i"
  by (auto simp: array_get_def)

lemma array_set_in [simp]: "i < length xs \<Longrightarrow> array_set xs i v = Some (xs[i := v])"
  by (simp add: array_set_def)

lemma array_set_eq_Some:
  "array_set xs i v = Some ys \<longleftrightarrow> i < length xs \<and> ys = xs[i := v]"
  by (auto simp: array_set_def)

subsection \<open>Words as natural numbers\<close>

lemma unat_add_no_wrap:
  fixes a b :: "'a::len word"
  assumes "unat a + unat b < 2 ^ LENGTH('a)"
  shows "unat (a + b) = unat a + unat b"
  using assms by (simp add: unat_word_ariths)

lemma unat_add_wrap:
  fixes a b :: "'a::len word"
  assumes "2 ^ LENGTH('a) \<le> unat a + unat b"
  shows "unat (a + b) = unat a + unat b - 2 ^ LENGTH('a)"
proof -
  have "unat a + unat b - 2 ^ LENGTH('a) < 2 ^ LENGTH('a)"
    using unsigned_less [of a, where ?'a = nat] unsigned_less [of b, where ?'a = nat]
    by linarith
  with assms have "(unat a + unat b) mod 2 ^ LENGTH('a) = unat a + unat b - 2 ^ LENGTH('a)"
    by (simp add: le_mod_geq)
  then show ?thesis by (simp add: unat_word_ariths)
qed

lemma unat_add_u32: "unat a + unat b < 4294967296 \<Longrightarrow> unat (a + b :: u32) = unat a + unat b"
  by (rule unat_add_no_wrap) simp

lemma unat_add_u64:
  "unat a + unat b < 18446744073709551616 \<Longrightarrow> unat (a + b :: u64) = unat a + unat b"
  by (rule unat_add_no_wrap) simp

lemma unat_inc_u32: "unat a < 4294967295 \<Longrightarrow> unat (a + 1 :: u32) = unat a + 1"
  using unat_add_u32 [of a 1] by (simp only: unat_1)

lemma unat_inc_u64: "unat a < 18446744073709551615 \<Longrightarrow> unat (a + 1 :: u64) = unat a + 1"
  using unat_add_u64 [of a 1] by (simp only: unat_1)

lemma unat_sub_le:
  fixes a b :: "'a::len word"
  assumes "b \<le> a"
  shows "unat (a - b) = unat a - unat b"
  using assms by (rule unat_sub)

lemma unat32_lt: "unat (x :: u32) < 4294967296"
  using unsigned_less [of x, where ?'a = nat] by simp

lemma unat64_lt: "unat (x :: u64) < 18446744073709551616"
  using unsigned_less [of x, where ?'a = nat] by simp

lemma unat8_lt: "unat (x :: u8) < 256"
  using unsigned_less [of x, where ?'a = nat] by simp

lemma unat16_lt: "unat (x :: u16) < 65536"
  using unsigned_less [of x, where ?'a = nat] by simp

lemmas unat_bounds = unat8_lt unat16_lt unat32_lt unat64_lt

lemma unat_UINT64_MAX: "unat (- 1 :: u64) = 18446744073709551615"
  by (simp add: unsigned_minus_1_eq_mask mask_eq_exp_minus_1)

lemma unat_of_nat64: "n < 18446744073709551616 \<Longrightarrow> unat (of_nat n :: u64) = n"
  by (simp add: unsigned_of_nat take_bit_nat_eq_self)

lemma unat_pow2: "i < 64 \<Longrightarrow> unat (2 ^ i :: u64) = 2 ^ i"
  using unat_of_nat64 [of "2 ^ i"] power_strict_increasing [of i 64 "2::nat"] by simp

lemma word_le_iff_unat: "(a :: 'a::len word) \<le> b \<longleftrightarrow> unat a \<le> unat b"
  by (rule word_le_nat_alt)

lemma word_less_iff_unat: "(a :: 'a::len word) < b \<longleftrightarrow> unat a < unat b"
  by (rule word_less_nat_alt)

lemma unat_mod_mask:
  fixes x :: "'a::len word"
  shows "unat (x AND mask n) = unat x mod 2 ^ n"
  by (simp only: take_bit_eq_mask [symmetric] unsigned_take_bit_eq) (simp only: take_bit_eq_mod)

subsection \<open>Linked structures\<close>

text \<open>
  \<open>path f x xs y\<close>: following the link function \<open>f\<close> from \<open>x\<close> visits exactly \<open>xs\<close> and arrives at \<open>y\<close>.
  \<open>f\<close> is a field of the objects of a heap, \<open>None\<close> where no object is.
\<close>

primrec path :: "('a \<Rightarrow> 'a option) \<Rightarrow> 'a \<Rightarrow> 'a list \<Rightarrow> 'a \<Rightarrow> bool" where
  "path f x [] y = (x = y)"
| "path f x (a # as) y = (x = a \<and> (\<exists>z. f a = Some z \<and> path f z as y))"

lemma path_append [simp]: "path f x (xs @ ys) y = (\<exists>z. path f x xs z \<and> path f z ys y)"
  by (induction xs arbitrary: x) auto

lemma path_cong:
  "(\<And>a. a \<in> set xs \<Longrightarrow> f a = g a) \<Longrightarrow> path f x xs y = path g x xs y"
  by (induction xs arbitrary: x) auto

lemma path_upd [simp]: "a \<notin> set xs \<Longrightarrow> path (f(a := v)) x xs y = path f x xs y"
  by (rule path_cong) auto

lemma path_defined: "path f x xs y \<Longrightarrow> a \<in> set xs \<Longrightarrow> f a \<noteq> None"
  by (induction xs arbitrary: x) auto

lemma path_start:
  "path f x xs y \<Longrightarrow> (xs = [] \<and> x = y) \<or> (xs \<noteq> [] \<and> x = hd xs)"
  by (cases xs) auto

lemma path_end_unique:
  "path f x xs y \<Longrightarrow> path f x ys y \<Longrightarrow> f y = None \<Longrightarrow> xs = ys"
proof (induction xs arbitrary: x ys)
  case Nil
  then show ?case by (cases ys) auto
next
  case (Cons a xs)
  then show ?case by (cases ys) auto
qed

lemma path_distinct:
  assumes "path f x xs y" "f y = None"
  shows "distinct xs"
  using assms(1)
proof (induction xs arbitrary: x)
  case (Cons a xs)
  then obtain z where z: "x = a" "f a = Some z" "path f z xs y" by auto
  have "a \<notin> set xs"
  proof
    assume "a \<in> set xs"
    then obtain us vs where xs: "xs = us @ a # vs" by (meson split_list)
    then have "path f a (a # vs) y" using z(3) by auto
    moreover have "path f a (a # xs) y" using z by simp
    ultimately have "a # vs = a # xs" using path_end_unique assms(2) by metis
    then show False using xs by simp
  qed
  then show ?case using Cons.IH z(3) by simp
qed simp

lemma path_end_not_in: "path f x xs y \<Longrightarrow> f y = None \<Longrightarrow> y \<notin> set xs"
  using path_defined by fastforce

lemma length_ptrs:
  assumes "distinct (xs :: ptr list)" "0 \<notin> set xs"
  shows "length xs < 2 ^ 64"
proof -
  have "set xs \<subset> UNIV" using assms(2) by blast
  then have "card (set xs) < CARD(64 word)" by (intro psubset_card_mono) auto
  then show ?thesis using assms(1) by (simp add: distinct_card card_word)
qed

end
