(* ===== verification/Bpf.thy ===== *)
theory Bpf
  imports Prelude
begin

text \<open>
  The socket filter of \<open>bpf/socket_filter.c\<close> and \<open>bpf/socket_filter.h\<close>: the
  validator \<open>bpf_validate\<close> that a filter passes before it is attached to a socket, and the
  interpreter \<open>bpf_run\<close> that runs it on every packet.  Words keep their C widths, so the
  32-bit wrap-around of offsets and jump targets is part of the model.  An action C leaves
  undefined (a read outside the packet, a shift by 32 or more) is the value \<open>Fault\<close>.
\<close>

subsection \<open>Instruction encoding\<close>

record sock_filter =
  sf_code :: u16
  sf_jt :: u8
  sf_jf :: u8
  sf_k :: u32

abbreviation (input) BPF_LD :: u16 where "BPF_LD \<equiv> 0"
abbreviation (input) BPF_LDX :: u16 where "BPF_LDX \<equiv> 1"
abbreviation (input) BPF_ST :: u16 where "BPF_ST \<equiv> 2"
abbreviation (input) BPF_STX :: u16 where "BPF_STX \<equiv> 3"
abbreviation (input) BPF_ALU :: u16 where "BPF_ALU \<equiv> 4"
abbreviation (input) BPF_JMP :: u16 where "BPF_JMP \<equiv> 5"
abbreviation (input) BPF_RET :: u16 where "BPF_RET \<equiv> 6"
abbreviation (input) BPF_MISC :: u16 where "BPF_MISC \<equiv> 7"

abbreviation (input) BPF_W :: u16 where "BPF_W \<equiv> 0"
abbreviation (input) BPF_H :: u16 where "BPF_H \<equiv> 0x08"
abbreviation (input) BPF_B :: u16 where "BPF_B \<equiv> 0x10"

abbreviation (input) BPF_IMM :: u16 where "BPF_IMM \<equiv> 0"
abbreviation (input) BPF_ABS :: u16 where "BPF_ABS \<equiv> 0x20"
abbreviation (input) BPF_IND :: u16 where "BPF_IND \<equiv> 0x40"
abbreviation (input) BPF_MEM :: u16 where "BPF_MEM \<equiv> 0x60"
abbreviation (input) BPF_LEN :: u16 where "BPF_LEN \<equiv> 0x80"
abbreviation (input) BPF_MSH :: u16 where "BPF_MSH \<equiv> 0xa0"

abbreviation (input) BPF_ADD :: u16 where "BPF_ADD \<equiv> 0"
abbreviation (input) BPF_SUB :: u16 where "BPF_SUB \<equiv> 0x10"
abbreviation (input) BPF_MUL :: u16 where "BPF_MUL \<equiv> 0x20"
abbreviation (input) BPF_DIV :: u16 where "BPF_DIV \<equiv> 0x30"
abbreviation (input) BPF_OR :: u16 where "BPF_OR \<equiv> 0x40"
abbreviation (input) BPF_AND :: u16 where "BPF_AND \<equiv> 0x50"
abbreviation (input) BPF_LSH :: u16 where "BPF_LSH \<equiv> 0x60"
abbreviation (input) BPF_RSH :: u16 where "BPF_RSH \<equiv> 0x70"
abbreviation (input) BPF_NEG :: u16 where "BPF_NEG \<equiv> 0x80"
abbreviation (input) BPF_MOD :: u16 where "BPF_MOD \<equiv> 0x90"
abbreviation (input) BPF_XOR :: u16 where "BPF_XOR \<equiv> 0xa0"

abbreviation (input) BPF_JA :: u16 where "BPF_JA \<equiv> 0"
abbreviation (input) BPF_JEQ :: u16 where "BPF_JEQ \<equiv> 0x10"
abbreviation (input) BPF_JGT :: u16 where "BPF_JGT \<equiv> 0x20"
abbreviation (input) BPF_JGE :: u16 where "BPF_JGE \<equiv> 0x30"
abbreviation (input) BPF_JSET :: u16 where "BPF_JSET \<equiv> 0x40"

abbreviation (input) BPF_K :: u16 where "BPF_K \<equiv> 0"
abbreviation (input) BPF_A :: u16 where "BPF_A \<equiv> 0x10"
abbreviation (input) BPF_TAX :: u16 where "BPF_TAX \<equiv> 0"
abbreviation (input) BPF_TXA :: u16 where "BPF_TXA \<equiv> 0x80"

definition BPF_CLASS :: "u16 \<Rightarrow> u16" where "BPF_CLASS code = code AND 0x07"
definition BPF_SIZE :: "u16 \<Rightarrow> u16" where "BPF_SIZE code = code AND 0x18"
definition BPF_MODE :: "u16 \<Rightarrow> u16" where "BPF_MODE code = code AND 0xe0"
definition BPF_OP :: "u16 \<Rightarrow> u16" where "BPF_OP code = code AND 0xf0"
definition BPF_SRC :: "u16 \<Rightarrow> u16" where "BPF_SRC code = code AND 0x08"
definition BPF_RVAL :: "u16 \<Rightarrow> u16" where "BPF_RVAL code = code AND 0x18"
definition BPF_MISCOP :: "u16 \<Rightarrow> u16" where "BPF_MISCOP code = code AND 0xf8"

lemmas bpf_fields = BPF_CLASS_def BPF_SIZE_def BPF_MODE_def BPF_OP_def BPF_SRC_def
  BPF_RVAL_def BPF_MISCOP_def

subsection \<open>Packet reads\<close>

text \<open>
  A load through a casted pointer reads little-endian bytes (every target of the kernel is
  little-endian); a byte outside the packet buffer is not there to be read.
\<close>

definition load_u32 :: "u8 list \<Rightarrow> nat \<Rightarrow> u32 option" where
  "load_u32 data i = do {
     b0 \<leftarrow> array_get data i;
     b1 \<leftarrow> array_get data (i + 1);
     b2 \<leftarrow> array_get data (i + 2);
     b3 \<leftarrow> array_get data (i + 3);
     Some (ucast b0 OR push_bit 8 (ucast b1) OR push_bit 16 (ucast b2) OR push_bit 24 (ucast b3))
   }"

definition load_u16 :: "u8 list \<Rightarrow> nat \<Rightarrow> u16 option" where
  "load_u16 data i = do {
     b0 \<leftarrow> array_get data i;
     b1 \<leftarrow> array_get data (i + 1);
     Some (ucast b0 OR push_bit 8 (ucast b1))
   }"

definition htonl :: "u32 \<Rightarrow> u32" where
  "htonl l = push_bit 24 (l AND 0xFF) OR push_bit 8 (l AND 0xFF00)
     OR drop_bit 8 (l AND 0xFF0000) OR drop_bit 24 (l AND 0xFF000000)"

definition htons :: "u16 \<Rightarrow> u16" where
  "htons s = push_bit 8 (s AND 0xFF) OR drop_bit 8 (s AND 0xFF00)"

definition bpf_read_word :: "u8 list \<Rightarrow> u32 \<Rightarrow> u32 \<Rightarrow> u32 option" where
  "bpf_read_word data len offset =
     (if offset + 4 > len then Some 0
      else map_option htonl (load_u32 data (unat offset)))"

definition bpf_read_half :: "u8 list \<Rightarrow> u32 \<Rightarrow> u32 \<Rightarrow> u16 option" where
  "bpf_read_half data len offset =
     (if offset + 2 > len then Some 0
      else map_option htons (load_u16 data (unat offset)))"

definition bpf_read_byte :: "u8 list \<Rightarrow> u32 \<Rightarrow> u32 \<Rightarrow> u8 option" where
  "bpf_read_byte data len offset =
     (if offset \<ge> len then Some 0 else array_get data (unat offset))"

subsection \<open>The validator\<close>

text \<open>
  One iteration of the loop of \<open>bpf_validate\<close>.  In the \<open>BPF_JA\<close> case the addition and
  the comparison are 32-bit unsigned (\<open>insn->k\<close> is a \<open>uint32_t\<close>); in the
  conditional case \<open>jt\<close> and \<open>jf\<close> are promoted to \<open>int\<close>.
\<close>

definition bpf_validate_insn :: "sock_filter \<Rightarrow> int \<Rightarrow> int \<Rightarrow> bool" where
  "bpf_validate_insn insn i len =
     (let code = sf_code insn; cls = BPF_CLASS code in
      if cls = BPF_LD \<or> cls = BPF_LDX then \<not> (BPF_MODE code = BPF_MEM \<and> sf_k insn \<ge> 16)
      else if cls = BPF_ST \<or> cls = BPF_STX then \<not> sf_k insn \<ge> 16
      else if cls = BPF_JMP then
        (if BPF_OP code = BPF_JA then \<not> word_of_int (i + 1) + sf_k insn \<ge> word_of_int len
         else \<not> (i + 1 + uint (sf_jt insn) \<ge> len \<or> i + 1 + uint (sf_jf insn) \<ge> len))
      else if cls = BPF_RET then True
      else if cls = BPF_ALU \<or> cls = BPF_MISC then True
      else False)"

function bpf_validate_loop :: "sock_filter list \<Rightarrow> int \<Rightarrow> int \<Rightarrow> bool option" where
  "bpf_validate_loop prog i len =
     (if i < len then
        do { insn \<leftarrow> array_get prog (nat i);
             if bpf_validate_insn insn i len then bpf_validate_loop prog (i + 1) len
             else Some False }
      else Some True)"
  by pat_completeness auto
termination
  by (relation "measure (\<lambda>(prog, i, len). nat (len - i))") auto

declare bpf_validate_loop.simps [simp del]

definition bpf_validate :: "sock_filter list \<Rightarrow> int \<Rightarrow> int option" where
  "bpf_validate prog len =
     (if len < 1 then Some (- 1)
      else do {
        ok \<leftarrow> bpf_validate_loop prog 0 len;
        if \<not> ok then Some (- 1)
        else do {
          insn \<leftarrow> array_get prog (nat (len - 1));
          if BPF_CLASS (sf_code insn) \<noteq> BPF_RET then Some (- 1) else Some 0 } })"

subsection \<open>The interpreter\<close>

record bpf_vm =
  vm_A :: u32
  vm_X :: u32
  vm_M :: "u32 list"
  vm_pc :: u32
  vm_data :: "u8 list"
  vm_len :: u32

datatype bpf_fault = OutOfBoundsRead | OversizedShift | OutOfBoundsFetch

datatype bpf_result = Next bpf_vm | Return u32 | Fault bpf_fault

text \<open>The accumulator (or index register) becomes the value of a packet read.\<close>

definition set_A :: "bpf_vm \<Rightarrow> u32 option \<Rightarrow> bpf_result" where
  "set_A vm r = (case r of None \<Rightarrow> Fault OutOfBoundsRead
                 | Some v \<Rightarrow> Next (vm\<lparr>vm_A := v, vm_pc := vm_pc vm + 1\<rparr>))"

definition bpf_load :: "u8 list \<Rightarrow> u32 \<Rightarrow> u16 \<Rightarrow> u32 \<Rightarrow> bpf_vm \<Rightarrow> bpf_result" where
  "bpf_load data datalen sz offset vm =
     (if sz = BPF_W then set_A vm (bpf_read_word data datalen offset)
      else if sz = BPF_H then set_A vm (map_option ucast (bpf_read_half data datalen offset))
      else if sz = BPF_B then set_A vm (map_option ucast (bpf_read_byte data datalen offset))
      else Next (vm\<lparr>vm_pc := vm_pc vm + 1\<rparr>))"

definition bpf_ld :: "u8 list \<Rightarrow> u32 \<Rightarrow> sock_filter \<Rightarrow> bpf_vm \<Rightarrow> bpf_result" where
  "bpf_ld data datalen insn vm =
     (let code = sf_code insn; kk = sf_k insn in
      if BPF_MODE code = BPF_IMM then set_A vm (Some kk)
      else if BPF_MODE code = BPF_ABS then bpf_load data datalen (BPF_SIZE code) kk vm
      else if BPF_MODE code = BPF_IND then bpf_load data datalen (BPF_SIZE code) (vm_X vm + kk) vm
      else if BPF_MODE code = BPF_MEM then set_A vm (Some (vm_M vm ! unat (kk AND 0xf)))
      else if BPF_MODE code = BPF_LEN then set_A vm (Some datalen)
      else Next (vm\<lparr>vm_pc := vm_pc vm + 1\<rparr>))"

definition bpf_ldx :: "u8 list \<Rightarrow> u32 \<Rightarrow> sock_filter \<Rightarrow> bpf_vm \<Rightarrow> bpf_result" where
  "bpf_ldx data datalen insn vm =
     (let code = sf_code insn; kk = sf_k insn;
          setX = (\<lambda>v. Next (vm\<lparr>vm_X := v, vm_pc := vm_pc vm + 1\<rparr>)) in
      if BPF_MODE code = BPF_IMM then setX kk
      else if BPF_MODE code = BPF_MEM then setX (vm_M vm ! unat (kk AND 0xf))
      else if BPF_MODE code = BPF_LEN then setX datalen
      else if BPF_MODE code = BPF_MSH then
        (case bpf_read_byte data datalen kk of
           None \<Rightarrow> Fault OutOfBoundsRead
         | Some b \<Rightarrow> setX (ucast (b AND 0x0f) * 4))
      else Next (vm\<lparr>vm_pc := vm_pc vm + 1\<rparr>))"

definition bpf_alu_op :: "u16 \<Rightarrow> u32 \<Rightarrow> u32 \<Rightarrow> u32 option" where
  "bpf_alu_op opc a src =
     (if opc = BPF_ADD then Some (a + src)
      else if opc = BPF_SUB then Some (a - src)
      else if opc = BPF_MUL then Some (a * src)
      else if opc = BPF_DIV then Some (if src \<noteq> 0 then a div src else 0)
      else if opc = BPF_MOD then Some (if src \<noteq> 0 then a mod src else 0)
      else if opc = BPF_AND then Some (a AND src)
      else if opc = BPF_OR then Some (a OR src)
      else if opc = BPF_XOR then Some (a XOR src)
      else if opc = BPF_LSH then (if src < 32 then Some (push_bit (unat src) a) else None)
      else if opc = BPF_RSH then (if src < 32 then Some (drop_bit (unat src) a) else None)
      else if opc = BPF_NEG then Some (- a)
      else Some a)"

definition bpf_alu :: "sock_filter \<Rightarrow> bpf_vm \<Rightarrow> bpf_result" where
  "bpf_alu insn vm =
     (let src = (if BPF_SRC (sf_code insn) = BPF_K then sf_k insn else vm_X vm) in
      case bpf_alu_op (BPF_OP (sf_code insn)) (vm_A vm) src of
        None \<Rightarrow> Fault OversizedShift
      | Some v \<Rightarrow> Next (vm\<lparr>vm_A := v, vm_pc := vm_pc vm + 1\<rparr>))"

definition bpf_cond :: "u16 \<Rightarrow> u32 \<Rightarrow> u32 \<Rightarrow> bool" where
  "bpf_cond opc a src =
     (if opc = BPF_JEQ then a = src
      else if opc = BPF_JGT then a > src
      else if opc = BPF_JGE then a \<ge> src
      else if opc = BPF_JSET then a AND src \<noteq> 0
      else False)"

definition bpf_jmp :: "sock_filter \<Rightarrow> bpf_vm \<Rightarrow> bpf_result" where
  "bpf_jmp insn vm =
     (let code = sf_code insn;
          src = (if BPF_SRC code = BPF_K then sf_k insn else vm_X vm) in
      if BPF_OP code = BPF_JA then Next (vm\<lparr>vm_pc := vm_pc vm + (sf_k insn + 1)\<rparr>)
      else let cond = bpf_cond (BPF_OP code) (vm_A vm) src in
        Next (vm\<lparr>vm_pc := vm_pc vm + 1 + ucast (if cond then sf_jt insn else sf_jf insn)\<rparr>))"

definition bpf_misc :: "sock_filter \<Rightarrow> bpf_vm \<Rightarrow> bpf_result" where
  "bpf_misc insn vm =
     (let vm' = vm\<lparr>vm_pc := vm_pc vm + 1\<rparr> in
      if BPF_MISCOP (sf_code insn) = BPF_TAX then Next (vm'\<lparr>vm_X := vm_A vm\<rparr>)
      else if BPF_MISCOP (sf_code insn) = BPF_TXA then Next (vm'\<lparr>vm_A := vm_X vm\<rparr>)
      else Next vm')"

text \<open>One iteration of the loop of \<open>bpf_run\<close>: the outer \<open>switch\<close> on the class.\<close>

definition bpf_step :: "u8 list \<Rightarrow> u32 \<Rightarrow> sock_filter \<Rightarrow> bpf_vm \<Rightarrow> bpf_result" where
  "bpf_step data datalen insn vm =
     (let cls = BPF_CLASS (sf_code insn); kk = sf_k insn in
      if cls = BPF_LD then bpf_ld data datalen insn vm
      else if cls = BPF_LDX then bpf_ldx data datalen insn vm
      else if cls = BPF_ST then
        Next (vm\<lparr>vm_M := (vm_M vm)[unat (kk AND 0xf) := vm_A vm], vm_pc := vm_pc vm + 1\<rparr>)
      else if cls = BPF_STX then
        Next (vm\<lparr>vm_M := (vm_M vm)[unat (kk AND 0xf) := vm_X vm], vm_pc := vm_pc vm + 1\<rparr>)
      else if cls = BPF_ALU then bpf_alu insn vm
      else if cls = BPF_JMP then bpf_jmp insn vm
      else if cls = BPF_RET then
        Return (if BPF_RVAL (sf_code insn) = BPF_A then vm_A vm else kk)
      else if cls = BPF_MISC then bpf_misc insn vm
      else Return 0)"

text \<open>
  The loop of \<open>bpf_run\<close> with its instruction budget.  \<open>FellOff\<close> and \<open>Exhausted\<close>
  are the two ways the loop condition fails; the C function returns 0 for both.
\<close>

datatype bpf_exit = Returned u32 | FellOff | Exhausted | Undefined bpf_fault

fun bpf_loop ::
  "sock_filter list \<Rightarrow> int \<Rightarrow> u8 list \<Rightarrow> u32 \<Rightarrow> nat \<Rightarrow> bpf_vm \<Rightarrow> bpf_exit" where
  "bpf_loop prog proglen data datalen budget vm =
     (if \<not> vm_pc vm < word_of_int proglen then FellOff
      else if budget = 0 then Exhausted
      else case array_get prog (unat (vm_pc vm)) of
             None \<Rightarrow> Undefined OutOfBoundsFetch
           | Some insn \<Rightarrow>
              (case bpf_step data datalen insn vm of
                 Next vm' \<Rightarrow> bpf_loop prog proglen data datalen (budget - 1) vm'
               | Return v \<Rightarrow> Returned v
               | Fault f \<Rightarrow> Undefined f))"

declare bpf_loop.simps [simp del]

definition bpf_vm_init :: "u8 list \<Rightarrow> u32 \<Rightarrow> bpf_vm" where
  "bpf_vm_init data datalen =
     \<lparr>vm_A = 0, vm_X = 0, vm_M = replicate 16 0, vm_pc = 0, vm_data = data, vm_len = datalen\<rparr>"

abbreviation (input) max_insns :: nat where "max_insns \<equiv> 1000000"

definition bpf_run :: "sock_filter list \<Rightarrow> int \<Rightarrow> u8 list \<Rightarrow> u32 \<Rightarrow> bpf_fault + u32" where
  "bpf_run prog proglen data datalen =
     (case bpf_loop prog proglen data datalen max_insns (bpf_vm_init data datalen) of
        Returned v \<Rightarrow> Inr v
      | FellOff \<Rightarrow> Inr 0
      | Exhausted \<Rightarrow> Inr 0
      | Undefined f \<Rightarrow> Inl f)"

subsection \<open>What the validator guarantees\<close>

lemma bpf_validate_loop_sound:
  assumes "bpf_validate_loop prog i len = Some True" and "0 \<le> i" and "i \<le> j" and "j < len"
  shows "nat j < length prog \<and> bpf_validate_insn (prog ! nat j) j len"
  using assms
proof (induction prog i len rule: bpf_validate_loop.induct)
  case (1 prog i len)
  from "1.prems"(3,4) have "i < len" by simp
  with "1.prems"(1) obtain insn where g: "array_get prog (nat i) = Some insn"
    and v: "bpf_validate_insn insn i len" and l: "bpf_validate_loop prog (i + 1) len = Some True"
    by (subst (asm) bpf_validate_loop.simps) (auto split: if_splits simp: bind_eq_Some_conv)
  show ?case
  proof (cases "j = i")
    case True
    with g v show ?thesis by (simp add: array_get_eq_Some)
  next
    case False
    with "1.prems" have "i + 1 \<le> j" "0 \<le> i + 1" by simp_all
    with "1.IH" [OF \<open>i < len\<close> g v l] "1.prems"(4) show ?thesis by simp
  qed
qed

lemma bpf_validateD:
  assumes "bpf_validate prog len = Some 0"
  shows "1 \<le> len" and "nat len \<le> length prog"
    and "\<And>j. j < nat len \<Longrightarrow> bpf_validate_insn (prog ! j) (int j) len"
    and "BPF_CLASS (sf_code (prog ! (nat len - 1))) = BPF_RET"
proof -
  show len: "1 \<le> len"
    using assms by (auto simp: bpf_validate_def split: if_splits)
  with assms have l: "bpf_validate_loop prog 0 len = Some True"
    by (auto simp: bpf_validate_def bind_eq_Some_conv split: if_splits)
  with assms len have last: "array_get prog (nat (len - 1)) \<noteq> None"
    and ret: "BPF_CLASS (sf_code (prog ! (nat (len - 1)))) = BPF_RET"
    by (auto simp: bpf_validate_def bind_eq_Some_conv array_get_eq_Some split: if_splits)
  from last len show "nat len \<le> length prog"
    by (auto simp: array_get_def split: if_splits)
  have "nat (len - 1) = nat len - 1" by simp
  with ret show "BPF_CLASS (sf_code (prog ! (nat len - 1))) = BPF_RET" by simp
  fix j assume "j < nat len"
  then show "bpf_validate_insn (prog ! j) (int j) len"
    using bpf_validate_loop_sound [OF l, of "int j"] by simp
qed

lemma bpf_step_pc:
  assumes "bpf_step data datalen insn vm = Next vm'" and "BPF_CLASS (sf_code insn) \<noteq> BPF_JMP"
  shows "vm_pc vm' = vm_pc vm + 1" and "BPF_CLASS (sf_code insn) \<noteq> BPF_RET"
  using assms
  by (auto simp: bpf_step_def bpf_ld_def bpf_ldx_def bpf_alu_def bpf_misc_def bpf_load_def
      set_A_def Let_def split: if_splits option.splits)

lemma bpf_step_jmp:
  assumes "bpf_step data datalen insn vm = Next vm'" and "BPF_CLASS (sf_code insn) = BPF_JMP"
  shows "vm_pc vm' =
    (if BPF_OP (sf_code insn) = BPF_JA then vm_pc vm + (sf_k insn + 1)
     else vm_pc vm + 1 + ucast (if bpf_cond (BPF_OP (sf_code insn)) (vm_A vm)
                (if BPF_SRC (sf_code insn) = BPF_K then sf_k insn else vm_X vm)
              then sf_jt insn else sf_jf insn))"
  using assms by (auto simp: bpf_step_def bpf_jmp_def Let_def split: if_splits)

lemma unat_ucast_u8_u32: "unat (ucast (j :: u8) :: u32) = unat j"
  using unat8_lt [of j] by (simp add: unsigned_ucast_eq take_bit_nat_eq_self)

lemma unat_pc_succ:
  "unat (p :: u32) < n \<Longrightarrow> n \<le> 65535 \<Longrightarrow> unat (p + 1) = unat p + 1"
  by (rule unat_inc_u32) linarith

text \<open>Every step of an accepted program stays inside the program.\<close>

lemma validated_step_inside:
  assumes v: "bpf_validate prog (int (length prog)) = Some 0"
    and len: "length prog \<le> 65535"
    and pc: "unat (vm_pc vm) < length prog"
    and s: "bpf_step data datalen (prog ! unat (vm_pc vm)) vm = Next vm'"
  shows "unat (vm_pc vm') < length prog"
proof (cases "BPF_CLASS (sf_code (prog ! unat (vm_pc vm))) = BPF_JMP")
  case False
  note st = bpf_step_pc [OF s False]
  have "unat (vm_pc vm) \<noteq> length prog - 1"
    using st(2) bpf_validateD(4) [OF v] by auto
  with pc st(1) len show ?thesis
    by (simp add: unat_pc_succ)
next
  case True
  let ?i = "prog ! unat (vm_pc vm)"
  have ok: "bpf_validate_insn ?i (int (unat (vm_pc vm))) (int (length prog))"
    using bpf_validateD(3) [OF v, of "unat (vm_pc vm)"] pc by simp
  have succ: "unat (vm_pc vm + 1) = unat (vm_pc vm) + 1"
    using pc len by (simp add: unat_pc_succ)
  show ?thesis
  proof (cases "BPF_OP (sf_code ?i) = BPF_JA")
    case JA: True
    have wl: "unat (word_of_int (int (length prog)) :: u32) = length prog"
      using len by (simp add: unsigned_of_nat take_bit_nat_eq_self)
    have "(word_of_int (int (unat (vm_pc vm)) + 1) :: u32) = vm_pc vm + 1"
      by (simp add: of_int_add)
    with ok True JA have "vm_pc vm + 1 + sf_k ?i < word_of_int (int (length prog))"
      by (simp add: bpf_validate_insn_def Let_def not_le)
    with wl bpf_step_jmp [OF s True] JA show ?thesis
      by (simp add: word_less_nat_alt ac_simps)
  next
    case cond: False
    with ok True have "int (unat (vm_pc vm) + 1 + unat (sf_jt ?i)) < int (length prog)"
      "int (unat (vm_pc vm) + 1 + unat (sf_jf ?i)) < int (length prog)"
      by (simp_all add: bpf_validate_insn_def Let_def not_le)
    then have t: "unat (vm_pc vm) + 1 + unat (sf_jt ?i) < length prog"
      "unat (vm_pc vm) + 1 + unat (sf_jf ?i) < length prog"
      by (simp_all only: of_nat_less_iff)
    have "unat (vm_pc vm + 1 + ucast j) = unat (vm_pc vm) + 1 + unat j"
      if "unat (vm_pc vm) + 1 + unat j < length prog" for j :: u8
      using that len succ unat_add_u32 [of "vm_pc vm + 1" "ucast j"]
      by (simp add: unat_ucast_u8_u32)
    with t bpf_step_jmp [OF s True] cond show ?thesis by (simp split: if_splits)
  qed
qed

text \<open>The states the interpreter can be in between two iterations of its loop.\<close>

inductive bpf_reach :: "sock_filter list \<Rightarrow> u8 list \<Rightarrow> u32 \<Rightarrow> bpf_vm \<Rightarrow> bool"
  for prog :: "sock_filter list" and data :: "u8 list" and datalen :: u32 where
  reach_init: "bpf_reach prog data datalen (bpf_vm_init data datalen)"
| reach_step: "bpf_reach prog data datalen vm \<Longrightarrow> array_get prog (unat (vm_pc vm)) = Some insn \<Longrightarrow>
     bpf_step data datalen insn vm = Next vm' \<Longrightarrow> bpf_reach prog data datalen vm'"

inductive_cases bpf_reachE: "bpf_reach prog data datalen vm"

text \<open>
  C1.  A filter that \<open>bpf_validate\<close> accepts never leaves its program: in every state the
  interpreter reaches, the program counter indexes an instruction of the filter, so the
  instruction fetch of \<open>bpf_run\<close> is in bounds and the loop never ends by running past the
  last instruction.
\<close>

theorem validated_stays_inside:
  assumes "bpf_validate prog (int (length prog)) = Some 0" and "length prog \<le> 65535"
    and "bpf_reach prog data datalen vm"
  shows "unat (vm_pc vm) < length prog"
  using assms(3)
proof (induction rule: bpf_reach.induct)
  case reach_init
  show ?case using bpf_validateD(1) [OF assms(1)] by (auto simp: bpf_vm_init_def)
next
  case (reach_step vm insn vm')
  then show ?case
    using validated_step_inside [OF assms(1,2)] by (simp add: array_get_eq_Some)
qed

text \<open>A filter that accepts UDP packets: byte 9 of the packet is compared with 17.\<close>

definition udp_filter :: "sock_filter list" where
  "udp_filter =
     [\<lparr>sf_code = 0x30, sf_jt = 0, sf_jf = 0, sf_k = 9\<rparr>,
      \<lparr>sf_code = 0x15, sf_jt = 0, sf_jf = 1, sf_k = 17\<rparr>,
      \<lparr>sf_code = 0x06, sf_jt = 0, sf_jf = 0, sf_k = 65535\<rparr>,
      \<lparr>sf_code = 0x06, sf_jt = 0, sf_jf = 0, sf_k = 0\<rparr>]"

lemma udp_filter_valid: "bpf_validate udp_filter 4 = Some 0"
  by (simp add: bpf_validate_def bpf_validate_loop.simps bpf_validate_insn_def udp_filter_def
      bpf_fields Let_def)

theorem validated_stays_inside_witness:
  "unat (vm_pc ((bpf_vm_init (replicate 20 17) 20)\<lparr>vm_A := 17, vm_pc := 1\<rparr>)) < length udp_filter"
proof -
  have len: "length udp_filter = 4" by (simp add: udp_filter_def)
  have "bpf_reach udp_filter (replicate 20 17) 20
      ((bpf_vm_init (replicate 20 17) 20)\<lparr>vm_A := 17, vm_pc := 1\<rparr>)"
    by (rule reach_step [OF reach_init, where insn = "udp_filter ! 0"])
      (simp_all add: udp_filter_def bpf_vm_init_def bpf_step_def bpf_ld_def bpf_load_def
        bpf_read_byte_def set_A_def bpf_fields Let_def)
  with validated_stays_inside [of udp_filter "replicate 20 17" 20] udp_filter_valid len
  show ?thesis by simp
qed

subsection \<open>Packet reads\<close>

lemma load_u32_None: "load_u32 data i = None \<longleftrightarrow> length data < i + 4"
  by (auto simp: load_u32_def array_get_def)

lemma load_u32_ex: "(\<exists>v. load_u32 data i = Some v) \<longleftrightarrow> i + 4 \<le> length data"
  using load_u32_None [of data i] by auto

lemma load_u16_None: "load_u16 data i = None \<longleftrightarrow> length data < i + 2"
  by (auto simp: load_u16_def array_get_def)

lemma load_u16_ex: "(\<exists>v. load_u16 data i = Some v) \<longleftrightarrow> i + 2 \<le> length data"
  using load_u16_None [of data i] by auto

lemma bpf_read_word_oob:
  assumes "length data = unat len"
  shows "bpf_read_word data len offset = None
    \<longleftrightarrow> 4294967292 \<le> unat offset \<and> unat offset - 4294967292 \<le> unat len"
proof (cases "unat offset + 4 < 4294967296")
  case True
  then have "unat (offset + 4) = unat offset + 4"
    by (subst unat_add_no_wrap) simp_all
  with True assms show ?thesis
    by (auto simp: bpf_read_word_def load_u32_ex load_u32_None word_less_nat_alt)
next
  case False
  then have "unat (offset + 4) = unat offset + 4 - 4294967296"
    by (subst unat_add_wrap) simp_all
  with False assms unat32_lt [of len] show ?thesis
    by (auto simp: bpf_read_word_def load_u32_ex load_u32_None word_less_nat_alt)
qed

text \<open>In a packet, an in-bounds word read is the big-endian value of its four bytes.\<close>

definition be32 :: "u8 \<Rightarrow> u8 \<Rightarrow> u8 \<Rightarrow> u8 \<Rightarrow> u32" where
  "be32 b0 b1 b2 b3 =
     push_bit 24 (ucast b0) OR push_bit 16 (ucast b1) OR push_bit 8 (ucast b2) OR ucast b3"

lemma byte_masks:
  "(0xFF :: u32) = mask 8" "(0xFF00 :: u32) = push_bit 8 (mask 8)"
  "(0xFF0000 :: u32) = push_bit 16 (mask 8)" "(0xFF000000 :: u32) = push_bit 24 (mask 8)"
  by (simp_all add: mask_eq_exp_minus_1 push_bit_eq_mult)

lemma bit_u8_high: "8 \<le> n \<Longrightarrow> \<not> bit (b :: u8) n"
  using bit_imp_le_length [of b n] by auto

lemma htonl_be32:
  "htonl (ucast b0 OR push_bit 8 (ucast b1) OR push_bit 16 (ucast b2) OR push_bit 24 (ucast b3))
   = be32 b0 b1 b2 b3" (is "?l = ?r")
proof (rule bit_word_eqI)
  fix n assume "n < LENGTH(32)"
  then have "n < 32" by simp
  then show "bit ?l n = bit ?r n"
    unfolding htonl_def be32_def byte_masks
    by (cases "n < 8"; cases "n < 16"; cases "n < 24") (auto simp: bit_simps bit_u8_high)
qed

text \<open>
  C3.  \<open>bpf_read_word\<close> on a packet buffer of exactly \<open>len\<close> bytes: an offset whose four
  bytes lie in the packet gives their big-endian value; any other offset gives 0, except for
  the offsets where the 32-bit sum \<open>offset + 4\<close> wraps to at most \<open>len\<close>.  There the
  check passes and the read is outside the packet.
\<close>

theorem bpf_read_word_cases:
  assumes "length data = unat len"
  shows "bpf_read_word data len offset =
    (if unat offset + 4 \<le> unat len
     then Some (be32 (data ! unat offset) (data ! (unat offset + 1))
                  (data ! (unat offset + 2)) (data ! (unat offset + 3)))
     else if 4294967292 \<le> unat offset \<and> unat offset - 4294967292 \<le> unat len then None
     else Some 0)"
proof (cases "unat offset + 4 \<le> unat len")
  case True
  with unat32_lt [of len] have "unat (offset + 4) = unat offset + 4"
    using unat_add_u32 [of offset 4] by simp
  with True assms show ?thesis
    by (simp add: bpf_read_word_def word_less_nat_alt load_u32_def htonl_be32)
next
  case False
  show ?thesis
  proof (cases "bpf_read_word data len offset")
    case None
    with False bpf_read_word_oob [OF assms] show ?thesis by simp
  next
    case (Some v)
    with bpf_read_word_oob [OF assms, of offset]
    have no: "\<not> (4294967292 \<le> unat offset \<and> unat offset - 4294967292 \<le> unat len)" by simp
    from Some have "offset + 4 > len \<or> (\<exists>w. load_u32 data (unat offset) = Some w)"
      by (auto simp: bpf_read_word_def split: if_splits)
    with False assms have "offset + 4 > len" by (simp add: load_u32_ex)
    with False no show ?thesis by (simp add: bpf_read_word_def)
  qed
qed

theorem bpf_read_word_cases_witness:
  "bpf_read_word [1, 2, 3, 4, 5] 5 1 = Some 0x02030405"
  using bpf_read_word_cases [of "[1, 2, 3, 4, 5]" 5 1] by (simp add: be32_def)

subsection \<open>Filters that return\<close>

text \<open>
  A filter is benign when it reads the packet at constant offsets below \<open>2\<^sup>3\<^sup>2 - 4\<close>, shifts
  by constants below 32 and jumps forward.
\<close>

definition bpf_benign_insn :: "sock_filter \<Rightarrow> bool" where
  "bpf_benign_insn insn =
     (let code = sf_code insn in
      (BPF_CLASS code = BPF_LD \<longrightarrow> BPF_MODE code \<noteq> BPF_IND \<and>
         (BPF_MODE code = BPF_ABS \<longrightarrow> sf_k insn < 0xFFFFFFFC)) \<and>
      (BPF_CLASS code = BPF_ALU \<and> (BPF_OP code = BPF_LSH \<or> BPF_OP code = BPF_RSH) \<longrightarrow>
         BPF_SRC code = BPF_K \<and> sf_k insn < 32) \<and>
      (BPF_CLASS code = BPF_JMP \<and> BPF_OP code = BPF_JA \<longrightarrow> sf_k insn < 0x80000000))"

lemma bpf_read_half_ok:
  assumes "length data = unat len" and "unat offset < 4294967292"
  shows "bpf_read_half data len offset \<noteq> None"
proof -
  have "unat (offset + 2) = unat offset + 2"
    using unat_add_u32 [of offset 2] assms(2) by simp
  with assms(1) show ?thesis
    by (simp add: bpf_read_half_def load_u16_ex word_less_nat_alt)
qed

lemma bpf_read_word_ok:
  assumes "length data = unat len" and "unat offset < 4294967292"
  shows "bpf_read_word data len offset \<noteq> None"
  using bpf_read_word_oob [OF assms(1), of offset] assms(2) by simp

lemma bpf_read_byte_ok:
  assumes "length data = unat len"
  shows "bpf_read_byte data len offset \<noteq> None"
  using assms by (simp add: bpf_read_byte_def word_less_nat_alt not_le)

lemma set_A_neq_Fault: "r \<noteq> None \<Longrightarrow> set_A vm r \<noteq> Fault f"
  by (auto simp: set_A_def)

lemma benign_step_no_fault:
  assumes "bpf_benign_insn insn" and "length data = unat datalen"
  shows "bpf_step data datalen insn vm \<noteq> Fault f"
proof -
  have ld: "bpf_ld data datalen insn vm \<noteq> Fault f" if "BPF_CLASS (sf_code insn) = BPF_LD"
    using that assms bpf_read_word_ok [OF assms(2), of "sf_k insn"]
      bpf_read_half_ok [OF assms(2), of "sf_k insn"] bpf_read_byte_ok [OF assms(2), of "sf_k insn"]
    by (auto simp: bpf_ld_def bpf_load_def bpf_benign_insn_def Let_def set_A_neq_Fault
        word_less_nat_alt split: if_splits)
  have ldx: "bpf_ldx data datalen insn vm \<noteq> Fault f"
    using bpf_read_byte_ok [OF assms(2), of "sf_k insn"]
    by (auto simp: bpf_ldx_def Let_def split: option.splits)
  have alu: "bpf_alu insn vm \<noteq> Fault f" if "BPF_CLASS (sf_code insn) = BPF_ALU"
    using that assms(1)
    by (auto simp: bpf_alu_def bpf_alu_op_def bpf_benign_insn_def Let_def)
  show ?thesis
    using ld ldx alu by (auto simp: bpf_step_def bpf_jmp_def bpf_misc_def Let_def)
qed

lemma benign_step_forward:
  assumes "bpf_validate prog (int (length prog)) = Some 0" and "length prog \<le> 65535"
    and "unat (vm_pc vm) < length prog" and "bpf_benign_insn (prog ! unat (vm_pc vm))"
    and s: "bpf_step data datalen (prog ! unat (vm_pc vm)) vm = Next vm'"
  shows "unat (vm_pc vm) < unat (vm_pc vm')"
proof (cases "BPF_CLASS (sf_code (prog ! unat (vm_pc vm))) = BPF_JMP")
  case False
  with assms show ?thesis using bpf_step_pc(1) [OF s False] by (simp add: unat_pc_succ)
next
  case True
  let ?i = "prog ! unat (vm_pc vm)"
  have less: "unat (vm_pc vm) < unat (vm_pc vm + d)" if "0 < unat d" "unat d \<le> 2147483648" for d
    using that assms(2,3) unat_add_u32 [of "vm_pc vm" d] by simp
  show ?thesis
  proof (cases "BPF_OP (sf_code ?i) = BPF_JA")
    case JA: True
    with True assms(4) have "unat (sf_k ?i) < 2147483648"
      by (simp add: bpf_benign_insn_def Let_def word_less_nat_alt)
    then have "unat (sf_k ?i + 1) = unat (sf_k ?i) + 1" by (simp add: unat_inc_u32)
    with less [of "sf_k ?i + 1"] \<open>unat (sf_k ?i) < 2147483648\<close> bpf_step_jmp [OF s True] JA
    show ?thesis by simp
  next
    case cond: False
    have "0 < unat (1 + ucast j :: u32) \<and> unat (1 + ucast j :: u32) \<le> 2147483648" for j :: u8
      using unat_add_u32 [of 1 "ucast j"] unat8_lt [of j] by (simp add: unat_ucast_u8_u32)
    with bpf_step_jmp [OF s True] cond show ?thesis
      by (auto simp: add.assoc intro: less split: if_splits)
  qed
qed

lemma benign_loop_returns:
  assumes v: "bpf_validate prog (int (length prog)) = Some 0" and len: "length prog \<le> 65535"
    and b: "list_all bpf_benign_insn prog" and d: "length data = unat datalen"
    and "unat (vm_pc vm) < length prog" and "length prog - unat (vm_pc vm) \<le> budget"
  shows "\<exists>r. bpf_loop prog (int (length prog)) data datalen budget vm = Returned r"
  using assms(5,6)
proof (induction "length prog - unat (vm_pc vm)" arbitrary: vm budget rule: less_induct)
  case less
  let ?i = "prog ! unat (vm_pc vm)"
  have "unat (word_of_int (int (length prog)) :: u32) = length prog"
    using len by (simp add: unsigned_of_nat take_bit_nat_eq_self)
  then have guard: "vm_pc vm < word_of_int (int (length prog))"
    using less.prems(1) by (simp add: word_less_nat_alt)
  have bi: "bpf_benign_insn ?i" using b less.prems(1) by (simp add: list_all_length)
  have bud: "budget \<noteq> 0" using less.prems by auto
  show ?case
  proof (cases "bpf_step data datalen ?i vm")
    case (Next vm')
    have "unat (vm_pc vm') < length prog"
      using validated_step_inside [OF v len less.prems(1) Next] .
    moreover have "unat (vm_pc vm) < unat (vm_pc vm')"
      using benign_step_forward [OF v len less.prems(1) bi Next] .
    ultimately have "\<exists>r. bpf_loop prog (int (length prog)) data datalen (budget - 1) vm' = Returned r"
      using less.prems by (intro less.hyps) auto
    with guard bud Next less.prems(1) show ?thesis by (simp add: bpf_loop.simps [of _ _ _ _ _ vm])
  next
    case (Return r)
    with guard bud less.prems(1) show ?thesis by (simp add: bpf_loop.simps [of _ _ _ _ _ vm])
  next
    case (Fault f)
    with benign_step_no_fault [OF bi d] show ?thesis by blast
  qed
qed

text \<open>
  C2.  An accepted benign filter of at most 65535 instructions (the range of
  \<open>sock_fprog.len\<close>), run on a packet buffer of exactly \<open>datalen\<close> bytes, returns through
  a \<open>RET\<close> instruction: it reads nothing outside the packet, shifts by no more than 31, never
  runs past its end and never uses up the instruction budget.
\<close>

theorem benign_filter_returns:
  assumes "bpf_validate prog (int (length prog)) = Some 0" and "length prog \<le> 65535"
    and "list_all bpf_benign_insn prog" and "length data = unat datalen"
  shows "\<exists>r. bpf_loop prog (int (length prog)) data datalen max_insns (bpf_vm_init data datalen)
        = Returned r \<and> bpf_run prog (int (length prog)) data datalen = Inr r"
proof -
  have "unat (vm_pc (bpf_vm_init data datalen)) < length prog"
    using bpf_validateD(1) [OF assms(1)] by (auto simp: bpf_vm_init_def)
  moreover have "length prog - unat (vm_pc (bpf_vm_init data datalen)) \<le> max_insns"
    using assms(2) by simp
  ultimately obtain r where
    "bpf_loop prog (int (length prog)) data datalen max_insns (bpf_vm_init data datalen) = Returned r"
    using benign_loop_returns [OF assms] by blast
  then show ?thesis by (simp add: bpf_run_def)
qed

theorem benign_filter_returns_witness:
  "\<exists>r. bpf_run udp_filter 4 (replicate 20 17) 20 = Inr r"
proof -
  have "length udp_filter = 4" by (simp add: udp_filter_def)
  moreover have "list_all bpf_benign_insn udp_filter"
    by (simp add: udp_filter_def bpf_benign_insn_def bpf_fields Let_def)
  ultimately show ?thesis
    using benign_filter_returns [of udp_filter "replicate 20 17" 20] udp_filter_valid by auto
qed

subsection \<open>What the validator lets through\<close>

text \<open>A word load at the last multiple of four.\<close>

definition wrap_filter :: "sock_filter list" where
  "wrap_filter =
     [\<lparr>sf_code = 0x20, sf_jt = 0, sf_jf = 0, sf_k = 0xFFFFFFFC\<rparr>,
      \<lparr>sf_code = 0x16, sf_jt = 0, sf_jf = 0, sf_k = 0\<rparr>]"


text \<open>
  C4.  \<open>bpf_validate\<close> accepts the filter that loads the word at offset \<open>0xFFFFFFFC\<close>; on
  every packet the bounds check of \<open>bpf_read_word\<close> wraps to 0 and the interpreter reads
  four bytes just below 4 GiB past the start of the packet buffer.
\<close>

theorem validated_filter_reads_outside:
  assumes "length data = unat datalen"
  shows "bpf_validate wrap_filter 2 = Some 0 \<and> bpf_run wrap_filter 2 data datalen = Inl OutOfBoundsRead"
proof -
  have "bpf_read_word data datalen 0xFFFFFFFC = None"
    using bpf_read_word_oob [OF assms, of "0xFFFFFFFC"] by simp
  then have "bpf_run wrap_filter 2 data datalen = Inl OutOfBoundsRead"
    by (simp add: bpf_run_def bpf_loop.simps wrap_filter_def bpf_vm_init_def bpf_step_def bpf_ld_def
        bpf_load_def set_A_def bpf_fields Let_def)
  moreover have "bpf_validate wrap_filter 2 = Some 0"
    by (simp add: bpf_validate_def bpf_validate_loop.simps bpf_validate_insn_def wrap_filter_def
        bpf_fields Let_def)
  ultimately show ?thesis by simp
qed

theorem validated_filter_reads_outside_witness:
  "bpf_run wrap_filter 2 [1, 2, 3, 4] 4 = Inl OutOfBoundsRead"
  using validated_filter_reads_outside [of "[1, 2, 3, 4]" 4] by simp

text \<open>A jump to itself, and a return.\<close>

definition spin_filter :: "sock_filter list" where
  "spin_filter =
     [\<lparr>sf_code = 0x05, sf_jt = 0, sf_jf = 0, sf_k = 0xFFFFFFFF\<rparr>,
      \<lparr>sf_code = 0x06, sf_jt = 0, sf_jf = 0, sf_k = 0\<rparr>]"


lemma spin_filter_loop:
  "vm_pc vm = 0 \<Longrightarrow> bpf_loop spin_filter 2 data datalen budget vm = Exhausted"
proof (induction budget arbitrary: vm)
  case 0
  then show ?case by (simp add: bpf_loop.simps)
next
  case (Suc n)
  have "bpf_step data datalen (spin_filter ! 0) vm = Next vm"
    using Suc.prems by (simp add: bpf_step_def bpf_jmp_def spin_filter_def bpf_fields Let_def)
  then show ?case
    using Suc by (subst bpf_loop.simps) (simp add: spin_filter_def)
qed

text \<open>
  C5.  \<open>bpf_validate\<close> accepts a backward jump: for \<open>BPF_JA\<close> with \<open>k = 0xFFFFFFFF\<close> the
  unsigned sum \<open>i + 1 + k\<close> wraps to \<open>i\<close>.  The filter made of that jump to itself and a
  \<open>RET\<close> spins until the budget of one million instructions is used up, and the packet is
  dropped.
\<close>

theorem validated_filter_spins:
  "bpf_validate spin_filter 2 = Some 0 \<and>
   bpf_loop spin_filter 2 data datalen max_insns (bpf_vm_init data datalen) = Exhausted \<and>
   bpf_run spin_filter 2 data datalen = Inr 0"
proof -
  have "bpf_loop spin_filter 2 data datalen max_insns (bpf_vm_init data datalen) = Exhausted"
    by (rule spin_filter_loop) (simp add: bpf_vm_init_def)
  moreover have "bpf_validate spin_filter 2 = Some 0"
    by (simp add: bpf_validate_def bpf_validate_loop.simps bpf_validate_insn_def spin_filter_def
        bpf_fields Let_def)
  ultimately show ?thesis by (simp add: bpf_run_def)
qed

end
