(* ===== verification/Bitmap.thy ===== *)
theory Bitmap
  imports Prelude
begin

text \<open>
  The bitmap of \<open>mm/bitmap.c\<close>, which records the usable physical frames: one bit per
  frame, packed into bytes.  The buffer a \<open>Bitmap\<close> points to is part of its state; a
  buffer that was never set is \<open>None\<close>.  Every operation runs under the bitmap's spin lock
  (or is called with it), so it is one step.  Loop counters of type \<open>size_t\<close> that run up
  to a \<open>size_t\<close> bound are natural numbers: they cannot wrap.

  The state of a bitmap is abstracted to the function \<open>bm_bit\<close> from frame numbers to
  booleans.  The locale \<open>frame_set\<close> states what a client may rely on; it is interpreted on
  the operations of this file.
\<close>

subsection \<open>State and operations\<close>

record Bitmap =
  bm_buffer :: "u8 list option"
  bm_length :: size_t
  bitmap_refcount :: u64

definition bitmap_init :: "Bitmap \<Rightarrow> u8 list option \<Rightarrow> size_t \<Rightarrow> Bitmap" where
  "bitmap_init bitmap buffer sz =
     (case buffer of None \<Rightarrow> bitmap
      | Some buf \<Rightarrow>
         if sz = 0 then bitmap
         else bitmap\<lparr>bm_buffer := Some (replicate (unat sz) 0 @ drop (unat sz) buf),
                     bm_length := sz * 8, bitmap_refcount := 1\<rparr>)"

text \<open>Bit \<open>index % 8\<close> of byte \<open>index / 8\<close>.\<close>

definition byte_bit :: "u8 \<Rightarrow> nat \<Rightarrow> bool" where
  "byte_bit w n = (drop_bit n w AND 1 \<noteq> 0)"

definition bitmap_get :: "Bitmap \<Rightarrow> size_t \<Rightarrow> bool option" where
  "bitmap_get bitmap index =
     (case bm_buffer bitmap of None \<Rightarrow> Some False
      | Some buf \<Rightarrow>
         if index \<ge> bm_length bitmap then Some False
         else do {
           let word_index = index div 8;
           let bit_index = index mod 8;
           w \<leftarrow> array_get buf (unat word_index);
           Some (byte_bit w (unat bit_index)) })"

definition bitmap_set :: "Bitmap \<Rightarrow> size_t \<Rightarrow> bool \<Rightarrow> Bitmap option" where
  "bitmap_set bitmap index value =
     (case bm_buffer bitmap of None \<Rightarrow> Some bitmap
      | Some buf \<Rightarrow>
         if index \<ge> bm_length bitmap then Some bitmap
         else do {
           let word_index = index div 8;
           let bit_index = index mod 8;
           w \<leftarrow> array_get buf (unat word_index);
           buf' \<leftarrow> array_set buf (unat word_index)
             (if value then w OR push_bit (unat bit_index) 1
              else w AND NOT (push_bit (unat bit_index) 1));
           Some (bitmap\<lparr>bm_buffer := Some buf'\<rparr>) })"

text \<open>\<open>for (i = lo; i < hi; i++) bitmap_set(bitmap, i, value)\<close>\<close>

function bitmap_set_loop :: "Bitmap \<Rightarrow> nat \<Rightarrow> nat \<Rightarrow> bool \<Rightarrow> Bitmap option" where
  "bitmap_set_loop bitmap lo hi value =
     (if lo < hi then
        do { bitmap' \<leftarrow> bitmap_set bitmap (of_nat lo) value;
             bitmap_set_loop bitmap' (lo + 1) hi value }
      else Some bitmap)"
  by pat_completeness auto
termination
  by (relation "measure (\<lambda>(bitmap, lo, hi, value). hi - lo)") auto

declare bitmap_set_loop.simps [simp del]

text \<open>\<open>for (i = lo; i < hi; i++) buffer[i] = fill_value\<close>\<close>

function fill_loop :: "u8 list \<Rightarrow> nat \<Rightarrow> nat \<Rightarrow> u8 \<Rightarrow> u8 list option" where
  "fill_loop buf lo hi v =
     (if lo < hi then do { buf' \<leftarrow> array_set buf lo v; fill_loop buf' (lo + 1) hi v }
      else Some buf)"
  by pat_completeness auto
termination
  by (relation "measure (\<lambda>(buf, lo, hi, v). hi - lo)") auto

declare fill_loop.simps [simp del]

definition bitmap_set_range :: "Bitmap \<Rightarrow> size_t \<Rightarrow> size_t \<Rightarrow> bool \<Rightarrow> Bitmap option" where
  "bitmap_set_range bitmap start stop value =
     (case bm_buffer bitmap of None \<Rightarrow> Some bitmap
      | Some _ \<Rightarrow>
         if start \<ge> stop \<or> start \<ge> bm_length bitmap then Some bitmap
         else do {
           let stop = (if stop > bm_length bitmap then bm_length bitmap else stop);
           let start_word = (start + 7) div 8;
           let end_word = stop div 8;
           bitmap \<leftarrow> bitmap_set_loop bitmap (unat start) (unat (min (start_word * 8) stop)) value;
           if start_word > end_word then Some bitmap
           else do {
             buf \<leftarrow> bm_buffer bitmap;
             buf' \<leftarrow> fill_loop buf (unat start_word) (unat end_word) (if value then - 1 else 0);
             bitmap_set_loop (bitmap\<lparr>bm_buffer := Some buf'\<rparr>)
               (unat (max (end_word * 8) start)) (unat stop) value } })"

text \<open>The scan of \<open>bitmap_find_range_from\<close>: \<open>rs\<close>, \<open>rc\<close> are \<open>run_start\<close>, \<open>run_count\<close>.\<close>

function find_loop ::
  "u8 list \<Rightarrow> nat \<Rightarrow> nat \<Rightarrow> bool \<Rightarrow> nat \<Rightarrow> nat \<Rightarrow> nat \<Rightarrow> size_t option" where
  "find_loop buf L n value index rs rc =
     (if index < L then
        do { w \<leftarrow> array_get buf (index div 8);
             if byte_bit w (index mod 8) = value then
               (let rs = (if rc = 0 then index else rs); rc = rc + 1 in
                if rc \<ge> n then Some (of_nat rs) else find_loop buf L n value (index + 1) rs rc)
             else find_loop buf L n value (index + 1) rs 0 }
      else Some (- 1))"
  by pat_completeness auto
termination
  by (relation "measure (\<lambda>(buf, L, n, value, index, rs, rc). L - index)") auto

declare find_loop.simps [simp del]

definition bitmap_find_range_from :: "Bitmap \<Rightarrow> size_t \<Rightarrow> bool \<Rightarrow> size_t \<Rightarrow> size_t option" where
  "bitmap_find_range_from bitmap n value start_from =
     (case bm_buffer bitmap of None \<Rightarrow> Some (- 1)
      | Some buf \<Rightarrow>
         if n = 0 \<or> start_from \<ge> bm_length bitmap then Some (- 1)
         else find_loop buf (unat (bm_length bitmap)) (unat n) value (unat start_from) 0 0)"

definition bitmap_find_range :: "Bitmap \<Rightarrow> size_t \<Rightarrow> bool \<Rightarrow> size_t option" where
  "bitmap_find_range bitmap n value = bitmap_find_range_from bitmap n value 0"

subsection \<open>Well-formedness and abstraction\<close>

definition bitmap_wf :: "Bitmap \<Rightarrow> bool" where
  "bitmap_wf b = (case bm_buffer b of None \<Rightarrow> True
     | Some buf \<Rightarrow> unat (bm_length b) \<le> 8 * length buf \<and> 8 dvd unat (bm_length b))"

definition bm_size :: "Bitmap \<Rightarrow> nat" where
  "bm_size b = (case bm_buffer b of None \<Rightarrow> 0 | Some _ \<Rightarrow> unat (bm_length b))"

definition bm_bit :: "Bitmap \<Rightarrow> nat \<Rightarrow> bool" where
  "bm_bit b i = (case bm_buffer b of None \<Rightarrow> False
     | Some buf \<Rightarrow> i < unat (bm_length b) \<and> bit (buf ! (i div 8)) (i mod 8))"

lemma byte_bit_iff [simp]: "byte_bit w n = bit w n"
  by (simp add: byte_bit_def bit_iff_odd_drop_bit and_one_eq odd_iff_mod_2_eq_one)

lemma unat_div8 [simp]: "unat (i div 8 :: u64) = unat i div 8"
  by (simp add: unat_div)

lemma unat_mod8 [simp]: "unat (i mod 8 :: u64) = unat i mod 8"
  by (simp add: unat_mod)

lemma bit_push_one: "n < 8 \<Longrightarrow> bit (push_bit n (1 :: u8)) m \<longleftrightarrow> m = n"
  by (auto simp: bit_simps)

lemma bm_bit_ge: "bm_size b \<le> i \<Longrightarrow> \<not> bm_bit b i"
  by (auto simp: bm_bit_def bm_size_def split: option.splits)

text \<open>\<open>b'\<close> is \<open>b\<close> up to the contents of its buffer.\<close>

definition bm_same :: "Bitmap \<Rightarrow> Bitmap \<Rightarrow> bool" where
  "bm_same b b' \<longleftrightarrow> bitmap_wf b' \<and> bm_length b' = bm_length b \<and>
     bitmap_refcount b' = bitmap_refcount b \<and> (bm_buffer b' = None \<longleftrightarrow> bm_buffer b = None)"

lemma bm_same_size: "bm_same b b' \<Longrightarrow> bm_size b' = bm_size b"
  by (auto simp: bm_same_def bm_size_def split: option.splits)

lemma bm_same_trans: "bm_same a b \<Longrightarrow> bm_same b c \<Longrightarrow> bm_same a c"
  by (simp add: bm_same_def)

lemma bm_same_refl: "bitmap_wf b \<Longrightarrow> bm_same b b"
  by (simp add: bm_same_def)

lemma bm_same_wf: "bm_same b b' \<Longrightarrow> bitmap_wf b'"
  by (simp add: bm_same_def)

lemma bitmap_get_eq:
  assumes "bitmap_wf b"
  shows "bitmap_get b i = Some (bm_bit b (unat i))"
  using assms
  by (auto simp: bitmap_get_def bitmap_wf_def bm_bit_def word_le_nat_alt Let_def not_le
      split: option.splits)

text \<open>Setting a bit in range changes that bit and nothing else.\<close>

lemma bitmap_set_spec:
  assumes "bitmap_wf b"
  shows "\<exists>b'. bitmap_set b i v = Some b' \<and> bm_same b b' \<and>
    (\<forall>j. bm_bit b' j = (if j = unat i \<and> unat i < bm_size b then v else bm_bit b j))"
proof (cases "bm_buffer b")
  case None
  then show ?thesis using assms by (auto simp: bitmap_set_def bm_size_def bm_same_def)
next
  case (Some buf)
  show ?thesis
  proof (cases "unat i < bm_size b")
    case False
    with Some assms show ?thesis
      by (auto simp: bitmap_set_def bm_size_def bm_same_def word_le_nat_alt)
  next
    case True
    let ?w = "buf ! (unat i div 8)" and ?k = "unat i mod 8"
    let ?v = "if v then ?w OR push_bit ?k 1 else ?w AND NOT (push_bit ?k 1)"
    let ?b = "b\<lparr>bm_buffer := Some (buf[unat i div 8 := ?v])\<rparr>"
    from True Some assms have i: "unat i div 8 < length buf" "i < bm_length b"
      by (auto simp: bm_size_def bitmap_wf_def word_less_nat_alt)
    have "bitmap_set b i v = Some ?b"
      using Some i by (simp add: bitmap_set_def Let_def not_le)
    moreover have "bm_bit ?b j = (if j = unat i then v else bm_bit b j)" for j
    proof (cases "j div 8 = unat i div 8")
      case True
      have "j mod 8 = ?k \<longleftrightarrow> j = unat i"
        using True by (metis div_mult_mod_eq)
      moreover have "?k < 8" "j mod 8 < 8" by simp_all
      ultimately show ?thesis
        using True i Some
        by (auto simp: bm_bit_def bit_push_one bit_simps word_less_nat_alt)
    next
      case False
      then show ?thesis using Some by (auto simp: bm_bit_def nth_list_update)
    qed
    ultimately show ?thesis
      using True Some assms by (auto simp: bitmap_wf_def bm_same_def)
  qed
qed

lemma bm_size_less: "bm_size b < 18446744073709551616"
  by (auto simp: bm_size_def split: option.splits intro: unat64_lt)

lemma bitmap_set_loop_spec:
  assumes "bitmap_wf b" and "hi \<le> bm_size b"
  shows "\<exists>b'. bitmap_set_loop b lo hi v = Some b' \<and> bm_same b b' \<and>
    (\<forall>j. bm_bit b' j = (if lo \<le> j \<and> j < hi then v else bm_bit b j))"
  using assms
proof (induction b lo hi v rule: bitmap_set_loop.induct)
  case (1 b lo hi v)
  show ?case
  proof (cases "lo < hi")
    case False
    then show ?thesis
      using "1.prems" by (subst bitmap_set_loop.simps) (auto simp: bm_same_refl)
  next
    case True
    have lo: "unat (of_nat lo :: u64) = lo"
      using True "1.prems"(2) bm_size_less [of b] by (intro unat_of_nat64) linarith
    obtain b1 where b1: "bitmap_set b (of_nat lo) v = Some b1" "bm_same b b1"
      "\<And>j. bm_bit b1 j = (if j = lo then v else bm_bit b j)"
      using bitmap_set_spec [OF "1.prems"(1), of "of_nat lo" v] lo True "1.prems"(2) by auto
    from "1.IH" [OF True b1(1)] b1(2) "1.prems"(2) obtain b2 where
      b2: "bitmap_set_loop b1 (lo + 1) hi v = Some b2" "bm_same b1 b2"
      "\<And>j. bm_bit b2 j = (if lo + 1 \<le> j \<and> j < hi then v else bm_bit b1 j)"
      by (auto simp: bm_same_wf bm_same_size)
    then have "bm_bit b2 j = (if lo \<le> j \<and> j < hi then v else bm_bit b j)" for j
      using True b1(3) [of j] b2(3) [of j] by auto
    with True b1 b2 show ?thesis
      by (subst bitmap_set_loop.simps) (auto intro: bm_same_trans)
  qed
qed

lemma fill_loop_spec:
  assumes "hi \<le> length buf"
  shows "\<exists>buf'. fill_loop buf lo hi v = Some buf' \<and> length buf' = length buf \<and>
    (\<forall>j < length buf. buf' ! j = (if lo \<le> j \<and> j < hi then v else buf ! j))"
  using assms
proof (induction buf lo hi v rule: fill_loop.induct)
  case (1 buf lo hi v)
  show ?case
  proof (cases "lo < hi")
    case False
    then show ?thesis by (subst fill_loop.simps) auto
  next
    case True
    with "1.prems" have s: "array_set buf lo v = Some (buf[lo := v])" by simp
    obtain buf' where "fill_loop (buf[lo := v]) (lo + 1) hi v = Some buf'" "length buf' = length buf"
      "\<And>j. j < length buf \<Longrightarrow> buf' ! j = (if lo + 1 \<le> j \<and> j < hi then v else buf[lo := v] ! j)"
      using "1.IH" [OF True s] "1.prems" by auto
    with True s show ?thesis
      by (subst fill_loop.simps) (auto simp: nth_list_update)
  qed
qed

text \<open>The whole-byte fill sets every bit of the bytes it covers.\<close>

lemma fill_bits:
  assumes "bm_buffer b = Some buf" and "bitmap_wf b" and "8 * hi \<le> bm_size b"
  shows "\<exists>buf'. fill_loop buf lo hi (if v then - 1 else 0) = Some buf' \<and>
    bm_same b (b\<lparr>bm_buffer := Some buf'\<rparr>) \<and>
    (\<forall>j. bm_bit (b\<lparr>bm_buffer := Some buf'\<rparr>) j
         = (if 8 * lo \<le> j \<and> j < 8 * hi then v else bm_bit b j))"
proof -
  have hi: "hi \<le> length buf"
    using assms by (auto simp: bm_size_def bitmap_wf_def)
  obtain buf' where f: "fill_loop buf lo hi (if v then - 1 else 0) = Some buf'"
    "length buf' = length buf"
    "\<And>j. j < length buf \<Longrightarrow> buf' ! j = (if lo \<le> j \<and> j < hi then (if v then - 1 else 0) else buf ! j)"
    using fill_loop_spec [OF hi, of lo "if v then - 1 else 0"] by blast
  have "bm_bit (b\<lparr>bm_buffer := Some buf'\<rparr>) j
        = (if 8 * lo \<le> j \<and> j < 8 * hi then v else bm_bit b j)" for j
  proof -
    have iff: "lo \<le> j div 8 \<and> j div 8 < hi \<longleftrightarrow> 8 * lo \<le> j \<and> j < 8 * hi" by auto
    have len: "j div 8 < length buf" if "j < unat (bm_length b)"
      using that assms by (auto simp: bitmap_wf_def)
    show ?thesis
      using assms(1,3) f(3) [of "j div 8"] len iff
      by (auto simp: bm_bit_def bm_size_def)
  qed
  with f assms show ?thesis by (auto simp: bm_same_def bitmap_wf_def)
qed

lemma start_word_nat:
  assumes "unat start < bm_size b" and "bitmap_wf b"
  shows "unat ((start + 7) div 8 :: u64) = (unat start + 7) div 8"
    and "unat ((start + 7) div 8 * 8 :: u64) = (unat start + 7) div 8 * 8"
proof -
  have "8 dvd bm_size b" "bm_size b < 18446744073709551616"
    using assms(2) bm_size_less by (auto simp: bitmap_wf_def bm_size_def split: option.splits)
  with assms(1) have le: "unat start + 7 < 18446744073709551616" by presburger
  then have "unat (start + 7) = unat start + 7"
    using unat_add_u64 [of start 7] by simp
  then show sw: "unat ((start + 7) div 8 :: u64) = (unat start + 7) div 8" by simp
  have "(unat start + 7) div 8 * 8 < 18446744073709551616" using le by simp
  then show "unat ((start + 7) div 8 * 8 :: u64) = (unat start + 7) div 8 * 8"
    using sw by (simp add: unat_word_ariths)
qed

lemma unat_min: "unat (min a b :: 'a::len word) = min (unat a) (unat b)"
  by (simp add: min_def word_le_nat_alt)

lemma unat_max: "unat (max a b :: 'a::len word) = max (unat a) (unat b)"
  by (simp add: max_def word_le_nat_alt)

lemma end_word_nat: "unat (e div 8 * 8 :: u64) = unat e div 8 * 8"
proof -
  have "unat e div 8 * 8 < 18446744073709551616" using unat64_lt [of e] by linarith
  then show ?thesis by (simp add: unat_word_ariths)
qed

subsection \<open>Setting a range\<close>

text \<open>
  The range \<open>[lo, hi)\<close> is cut into the bits up to the first byte boundary, the whole bytes
  and the bits of the last byte; \<open>lo_word\<close>, \<open>hi_word\<close> are the bounds of the middle part.
\<close>

lemma set_range_parts:
  fixes lo hi :: nat
  defines "lw \<equiv> (lo + 7) div 8" and "hw \<equiv> hi div 8"
  assumes "lo < hi"
  shows "hw < lw \<Longrightarrow> min (lw * 8) hi = hi"
    and "lw \<le> hw \<Longrightarrow> min (lw * 8) hi = lw * 8 \<and> max (hw * 8) lo = hw * 8 \<and> lo \<le> lw * 8 \<and> hw * 8 \<le> hi"
  using assms by auto

lemma bitmap_set_range_spec:
  assumes wf: "bitmap_wf b"
  shows "\<exists>b'. bitmap_set_range b start stop v = Some b' \<and> bm_same b b' \<and>
    (\<forall>j. bm_bit b' j = (if unat start \<le> j \<and> j < unat stop \<and> j < bm_size b then v else bm_bit b j))"
proof (cases "bm_buffer b = None \<or> \<not> unat start < min (unat stop) (bm_size b)")
  case True
  then show ?thesis
    using wf by (auto simp: bitmap_set_range_def bm_same_refl bm_size_def word_le_nat_alt bm_bit_def
        split: option.splits)
next
  case False
  define e where "e = (if stop > bm_length b then bm_length b else stop)"
  define lw where "lw = (unat start + 7) div 8"
  define hw where "hw = unat e div 8"
  let ?sw = "(start + 7) div 8 :: u64" and ?ew = "e div 8"
  obtain buf where buf: "bm_buffer b = Some buf" using False by auto
  have e: "unat e = min (unat stop) (bm_size b)"
    using buf by (auto simp: e_def bm_size_def word_less_nat_alt)
  have lt: "unat start < unat e" using False e by simp
  have s: "unat start < bm_size b" using lt e by simp
  note parts = set_range_parts [OF lt, folded lw_def hw_def]
  have sw: "unat ?sw = lw" "unat (?sw * 8) = lw * 8" and ew: "unat ?ew = hw" "unat (?ew * 8) = hw * 8"
    using start_word_nat [OF s wf] end_word_nat by (simp_all add: lw_def hw_def)
  have guard: "\<not> (start \<ge> stop \<or> start \<ge> bm_length b)"
    using lt e buf s by (auto simp: word_le_nat_alt bm_size_def)
  have "min (lw * 8) (unat e) \<le> bm_size b" using e by simp
  then obtain b1 where b1: "bitmap_set_loop b (unat start) (min (lw * 8) (unat e)) v = Some b1"
    "bm_same b b1"
    "\<And>j. bm_bit b1 j = (if unat start \<le> j \<and> j < min (lw * 8) (unat e) then v else bm_bit b j)"
    using bitmap_set_loop_spec [OF wf] by blast
  have eq: "bitmap_set_range b start stop v =
    (if hw < lw then Some b1 else do {
       buf \<leftarrow> bm_buffer b1;
       buf' \<leftarrow> fill_loop buf lw hw (if v then - 1 else 0);
       bitmap_set_loop (b1\<lparr>bm_buffer := Some buf'\<rparr>) (max (hw * 8) (unat start)) (unat e) v })"
    unfolding bitmap_set_range_def buf option.case if_not_P [OF guard] Let_def e_def [symmetric]
    unfolding unat_min unat_max sw ew b1(1) word_less_nat_alt
    by simp
  show ?thesis
  proof (cases "hw < lw")
    case True
    with parts(1) b1 e eq show ?thesis by auto
  next
    case False
    then have p: "min (lw * 8) (unat e) = lw * 8" "max (hw * 8) (unat start) = hw * 8"
      "unat start \<le> lw * 8" "hw * 8 \<le> unat e" using parts(2) by auto
    obtain buf1 where buf1: "bm_buffer b1 = Some buf1"
      using b1(2) buf by (auto simp: bm_same_def)
    have sz: "bm_size b1 = bm_size b" using b1(2) by (rule bm_same_size)
    obtain buf2 where buf2: "fill_loop buf1 lw hw (if v then - 1 else 0) = Some buf2"
      "bm_same b1 (b1\<lparr>bm_buffer := Some buf2\<rparr>)"
      "\<And>j. bm_bit (b1\<lparr>bm_buffer := Some buf2\<rparr>) j
         = (if 8 * lw \<le> j \<and> j < 8 * hw then v else bm_bit b1 j)"
      using fill_bits [OF buf1 bm_same_wf [OF b1(2)], of hw lw v] sz p(4) e by auto
    obtain b3 where b3: "bitmap_set_loop (b1\<lparr>bm_buffer := Some buf2\<rparr>) (hw * 8) (unat e) v = Some b3"
      "bm_same (b1\<lparr>bm_buffer := Some buf2\<rparr>) b3"
      "\<And>j. bm_bit b3 j = (if hw * 8 \<le> j \<and> j < unat e then v
              else bm_bit (b1\<lparr>bm_buffer := Some buf2\<rparr>) j)"
      using bitmap_set_loop_spec [OF bm_same_wf [OF buf2(2)], of "unat e" "hw * 8" v]
        bm_same_size [OF buf2(2)] sz e by auto
    have "bm_bit b3 j = (if unat start \<le> j \<and> j < unat e then v else bm_bit b j)" for j
      using b3(3) [of j] buf2(3) [of j] b1(3) [of j] p False by (auto split: if_splits)
    moreover have "bm_same b b3"
      using b1(2) buf2(2) b3(2) by (blast intro: bm_same_trans)
    ultimately show ?thesis
      using eq False buf1 buf2(1) b3(1) p(2) e by auto
  qed
qed

subsection \<open>Finding a run\<close>

text \<open>All bits of \<open>[s, s + n)\<close> have the value \<open>v\<close>.\<close>

definition bm_run :: "Bitmap \<Rightarrow> bool \<Rightarrow> nat \<Rightarrow> nat \<Rightarrow> bool" where
  "bm_run b v s n = (\<forall>j<n. bm_bit b (s + j) = v)"

lemma bm_run_blocked: "bm_bit b k \<noteq> v \<Longrightarrow> s \<le> k \<Longrightarrow> k < s + n \<Longrightarrow> \<not> bm_run b v s n"
proof
  assume k: "bm_bit b k \<noteq> v" "s \<le> k" "k < s + n" and r: "bm_run b v s n"
  have "k - s < n" using k by simp
  with r have "bm_bit b (s + (k - s)) = v" unfolding bm_run_def by blast
  with k show False by simp
qed

text \<open>No run starts before the current one: it would hold the bit before the current one.\<close>

lemma no_run_before:
  assumes "\<And>s. frm \<le> s \<Longrightarrow> s + n \<le> index \<Longrightarrow> \<not> bm_run b v s n" "index - rc = frm \<or> bm_bit b (index - rc - 1) \<noteq> v"
    "frm \<le> s" "s < index - rc"
  shows "\<not> bm_run b v s n"
proof (cases "s + n \<le> index")
  case False
  then show ?thesis using assms(2-4) bm_run_blocked [of b "index - rc - 1" v s n] by auto
qed (use assms(1,3) in blast)

lemma find_loop_spec:
  assumes wf: "bitmap_wf b" and buf: "bm_buffer b = Some buf" and L: "L = unat (bm_length b)"
    and n: "0 < n"
    and idx: "frm \<le> index" "index \<le> L" and rc: "rc < n" "frm + rc \<le> index"
    and rs: "rc \<noteq> 0 \<longrightarrow> rs = index - rc" and run: "bm_run b v (index - rc) rc"
    and max: "index - rc = frm \<or> bm_bit b (index - rc - 1) \<noteq> v"
    and none: "\<And>s. frm \<le> s \<Longrightarrow> s + n \<le> index \<Longrightarrow> \<not> bm_run b v s n"
  shows "(find_loop buf L n v index rs rc = Some (- 1) \<and>
            (\<forall>s. frm \<le> s \<and> s + n \<le> L \<longrightarrow> \<not> bm_run b v s n)) \<or>
         (\<exists>r. find_loop buf L n v index rs rc = Some (of_nat r) \<and> frm \<le> r \<and> r + n \<le> L \<and>
            bm_run b v r n \<and> (\<forall>s. frm \<le> s \<and> s < r \<longrightarrow> \<not> bm_run b v s n))"
  using idx rc rs run max none
proof (induction "L - index" arbitrary: index rs rc rule: less_induct)
  case less
  let ?f = "find_loop buf L n v"
  show ?case
  proof (cases "index < L")
    case False
    with less.prems(2) have "index = L" by simp
    moreover have "?f index rs rc = Some (- 1)" using False by (subst find_loop.simps) simp
    ultimately show ?thesis using less.prems(8) by auto
  next
    case True
    with wf buf L have div: "index div 8 < length buf" by (auto simp: bitmap_wf_def)
    have bit: "bit (buf ! (index div 8)) (index mod 8) = bm_bit b index"
      using True buf L by (simp add: bm_bit_def)
    show ?thesis
    proof (cases "bm_bit b index = v")
      case eq: True
      define rs' where "rs' = (if rc = 0 then index else rs)"
      have rs': "rs' = index - rc" using less.prems(5) by (simp add: rs'_def)
      have run': "bm_run b v (index - rc) (rc + 1)"
        using less.prems(6) eq less.prems(4) by (auto simp: bm_run_def less_Suc_eq)
      show ?thesis
      proof (cases "n \<le> rc + 1")
        case True
        with less.prems(3) have "n = rc + 1" by simp
        then have "?f index rs rc = Some (of_nat rs')"
          using \<open>index < L\<close> div bit eq rs'_def by (subst find_loop.simps) (simp add: Let_def)
        moreover have "\<not> bm_run b v s n" if "frm \<le> s" "s < index - rc" for s
          using no_run_before [OF less.prems(8,7) that] by blast
        ultimately show ?thesis
          using run' rs' \<open>n = rc + 1\<close> less.prems(4) \<open>index < L\<close>
          by (intro disjI2 exI [of _ "index - rc"]) auto
      next
        case False
        have "?f index rs rc = ?f (index + 1) rs' (rc + 1)"
          using True div bit eq rs'_def False by (subst find_loop.simps) (simp add: Let_def)
        moreover have "\<not> bm_run b v s n" if "frm \<le> s" "s + n \<le> index + 1" for s
          using no_run_before [OF less.prems(8,7), of s] that False by fastforce
        ultimately show ?thesis
          using less.hyps [of "index + 1" "rc + 1" rs'] less.prems True False run' rs' by auto
      qed
    next
      case ne: False
      have "?f index rs rc = ?f (index + 1) rs 0"
        using True div bit ne by (subst find_loop.simps) (simp add: Let_def)
      moreover have "\<not> bm_run b v s n" if "frm \<le> s" "s + n \<le> index + 1" for s
      proof (cases "s + n \<le> index")
        case True
        with less.prems(8) that(1) show ?thesis by blast
      next
        case F: False
        with that n show ?thesis using bm_run_blocked [OF ne, of s n] by simp
      qed
      ultimately show ?thesis
        using less.hyps [of "index + 1" 0 rs] less.prems True ne n by (auto simp: bm_run_def)
    qed
  qed
qed

lemma find_from_spec:
  assumes wf: "bitmap_wf b" and n: "n \<noteq> 0" and frm: "unat start < bm_size b"
  shows "(bitmap_find_range_from b n v start = Some (- 1) \<and>
           (\<forall>s. unat start \<le> s \<and> s + unat n \<le> bm_size b \<longrightarrow> \<not> bm_run b v s (unat n))) \<or>
         (\<exists>r. bitmap_find_range_from b n v start = Some r \<and> r \<noteq> - 1 \<and>
           unat start \<le> unat r \<and> unat r + unat n \<le> bm_size b \<and> bm_run b v (unat r) (unat n) \<and>
           (\<forall>s. unat start \<le> s \<and> s < unat r \<longrightarrow> \<not> bm_run b v s (unat n)))"
proof -
  obtain buf where buf: "bm_buffer b = Some buf"
    using frm by (auto simp: bm_size_def split: option.splits)
  let ?L = "unat (bm_length b)"
  have sz: "bm_size b = ?L" using buf by (simp add: bm_size_def)
  have n0: "0 < unat n" using n by (simp add: unat_gt_0)
  have eq: "bitmap_find_range_from b n v start = find_loop buf ?L (unat n) v (unat start) 0 0"
    using buf n frm sz by (simp add: bitmap_find_range_from_def word_le_nat_alt)
  have "\<not> bm_run b v s (unat n)" if "unat start \<le> s" "s + unat n \<le> unat start" for s
    using that n0 by simp
  then consider (none) "find_loop buf ?L (unat n) v (unat start) 0 0 = Some (- 1)"
      "\<forall>s. unat start \<le> s \<and> s + unat n \<le> ?L \<longrightarrow> \<not> bm_run b v s (unat n)"
    | (found) r where "find_loop buf ?L (unat n) v (unat start) 0 0 = Some (of_nat r)"
      "unat start \<le> r" "r + unat n \<le> ?L" "bm_run b v r (unat n)"
      "\<forall>s. unat start \<le> s \<and> s < r \<longrightarrow> \<not> bm_run b v s (unat n)"
    using find_loop_spec [OF wf buf refl n0, of "unat start" "unat start" 0 0 v] frm sz n0
    by (auto simp: bm_run_def)
  then show ?thesis
  proof cases
    case none
    with eq sz show ?thesis by simp
  next
    case found
    have r: "unat (of_nat r :: u64) = r"
      using found(3) n0 unat64_lt [of "bm_length b"] by (intro unat_of_nat64) linarith
    have "(of_nat r :: u64) \<noteq> - 1"
    proof
      assume "(of_nat r :: u64) = - 1"
      with r have "r = 18446744073709551615" by (simp add: unat_UINT64_MAX)
      with found(3) n0 unat64_lt [of "bm_length b"] show False by linarith
    qed
    with found r eq sz show ?thesis by auto
  qed
qed

text \<open>
  C6.  \<open>bitmap_set_range\<close> writes exactly the requested bits: on a well-formed bitmap it makes
  no access outside the buffer, gives every bit of \<open>[start, stop)\<close> that lies in the bitmap the
  value \<open>v\<close>, keeps every other bit, and keeps the bitmap well-formed and its length.
\<close>

theorem bitmap_set_range_bits:
  assumes "bitmap_wf b"
  shows "\<exists>b'. bitmap_set_range b start stop v = Some b' \<and> bitmap_wf b' \<and> bm_size b' = bm_size b \<and>
    (\<forall>j. bm_bit b' j = (if unat start \<le> j \<and> j < unat stop \<and> j < bm_size b then v else bm_bit b j))"
  using bitmap_set_range_spec [OF assms, of start stop v]
  by (auto dest: bm_same_wf bm_same_size)

text \<open>
  C7.  \<open>bitmap_find_range_from\<close> returns the first run: it scans without leaving the buffer
  and returns the least frame at or after \<open>start\<close> from which \<open>n\<close> consecutive bits have the
  value \<open>v\<close>, or \<open>(size_t)-1\<close> when there is none.
\<close>

theorem bitmap_find_range_from_least:
  assumes "bitmap_wf b" and "n \<noteq> 0" and "unat start < bm_size b"
  shows "\<exists>r. bitmap_find_range_from b n v start = Some r \<and>
    (if r = - 1 then \<forall>s. unat start \<le> s \<and> s + unat n \<le> bm_size b \<longrightarrow> \<not> bm_run b v s (unat n)
     else unat start \<le> unat r \<and> unat r + unat n \<le> bm_size b \<and> bm_run b v (unat r) (unat n) \<and>
       (\<forall>s. unat start \<le> s \<and> s < unat r \<longrightarrow> \<not> bm_run b v s (unat n)))"
  using find_from_spec [OF assms, of v] by auto

text \<open>A bitmap of 16 frames for the witnesses: 2, 3 and 8 to 15 are usable.\<close>

definition bitmap16 :: Bitmap where
  "bitmap16 = \<lparr>bm_buffer = Some [0x0C, 0xFF], bm_length = 16, bitmap_refcount = 1\<rparr>"

lemma bitmap16_wf: "bitmap_wf bitmap16" "bm_size bitmap16 = 16"
  by (simp_all add: bitmap16_def bitmap_wf_def bm_size_def)

theorem bitmap_set_range_bits_witness:
  "\<exists>b'. bitmap_set_range bitmap16 3 13 False = Some b' \<and> bm_bit b' 2 \<and> \<not> bm_bit b' 12 \<and> bm_bit b' 13"
proof -
  have "bm_bit bitmap16 2" "bm_bit bitmap16 13"
    by (simp_all add: bitmap16_def bm_bit_def bit_iff_odd drop_bit_eq_div)
  then show ?thesis
    using bitmap_set_range_bits [OF bitmap16_wf(1), of 3 13 False] bitmap16_wf(2) by auto
qed

theorem bitmap_find_range_from_least_witness:
  "bitmap_find_range_from bitmap16 3 True 0 = Some 8 \<and> bitmap_find_range_from bitmap16 3 True 9 = Some 9 \<and>
   bitmap_find_range_from bitmap16 9 True 0 = Some (- 1)"
proof -
  have "\<forall>i \<in> set [0 ..< 16]. bm_bit bitmap16 i \<longleftrightarrow> i \<in> set [2, 3] \<or> 8 \<le> i" by code_simp
  then have bits: "bm_bit bitmap16 i \<longleftrightarrow> i = 2 \<or> i = 3 \<or> 8 \<le> i \<and> i < 16" for i
    by (cases "i < 16") (auto simp: bm_bit_def bitmap16_def)
  have run3: "bm_run bitmap16 True s 3 \<longleftrightarrow> 8 \<le> s \<and> s \<le> 13" for s
  proof -
    have "(\<forall>j < 3. bm_bit bitmap16 (s + j) = True) \<longleftrightarrow> bm_bit bitmap16 s \<and> bm_bit bitmap16 (s + 1) \<and> bm_bit bitmap16 (s + 2)"
      by (simp add: numeral_3_eq_3 All_less_Suc2 numeral_2_eq_2)
    then show ?thesis unfolding bm_run_def bits by presburger
  qed
  have run9: "\<not> bm_run bitmap16 True s 9" for s
  proof
    assume "bm_run bitmap16 True s 9"
    then have "bm_bit bitmap16 (s + j)" if "j < 9" for j using that by (simp add: bm_run_def)
    from this [of 0] this [of 2] this [of 8] show False unfolding bits by simp presburger
  qed
  have u: "unat (3 :: size_t) = 3" "(3 :: size_t) \<noteq> 0" by simp_all
  have found: "bitmap_find_range_from bitmap16 3 True start = Some (of_nat n)" if "n = max 8 (unat start)" "n \<le> 13" for start n
  proof -
    have st: "unat start < 16" using that by simp
    obtain r where r: "bitmap_find_range_from bitmap16 3 True start = Some r"
      "if r = - 1 then \<forall>s. unat start \<le> s \<and> s + 3 \<le> 16 \<longrightarrow> \<not> bm_run bitmap16 True s 3
       else unat start \<le> unat r \<and> unat r + 3 \<le> 16 \<and> bm_run bitmap16 True (unat r) 3 \<and>
         (\<forall>s. unat start \<le> s \<and> s < unat r \<longrightarrow> \<not> bm_run bitmap16 True s 3)"
      using bitmap_find_range_from_least [of bitmap16 3 start True, unfolded bitmap16_wf(2) u(1), OF bitmap16_wf(1) u(2) st] by (rule exE) blast
    have n: "bm_run bitmap16 True n 3" "unat start \<le> n" "n + 3 \<le> 16" using that run3 by auto
    then have m: "r \<noteq> - 1" using r(2) by (auto split: if_splits)
    then have "\<not> n < unat r" "8 \<le> unat r" "unat start \<le> unat r" using r(2) n run3 [of "unat r"] by auto
    then have "unat r = n" using that by linarith
    then show ?thesis using r(1) by auto
  qed
  show ?thesis
    using found [of 8 0] found [of 9 9] bitmap_find_range_from_least [OF bitmap16_wf(1), of 9 0 True] bitmap16_wf(2) run9
    by (auto split: if_splits)
qed

subsection \<open>The interface\<close>

text \<open>
  What the frame allocators rely on: a set of frame numbers below a fixed size that can be
  tested, changed on a range, and searched for the first run.
\<close>

locale frame_set =
  fixes inv :: "'b \<Rightarrow> bool" and sz :: "'b \<Rightarrow> nat" and mem :: "'b \<Rightarrow> nat \<Rightarrow> bool"
    and get :: "'b \<Rightarrow> size_t \<Rightarrow> bool option"
    and set_range :: "'b \<Rightarrow> size_t \<Rightarrow> size_t \<Rightarrow> bool \<Rightarrow> 'b option"
    and find_from :: "'b \<Rightarrow> size_t \<Rightarrow> bool \<Rightarrow> size_t \<Rightarrow> size_t option"
  assumes get_mem: "inv b \<Longrightarrow> get b i = Some (mem b (unat i))"
    and mem_sz: "mem b j \<Longrightarrow> j < sz b"
    and sz_bound: "sz b < 18446744073709551616"
    and set_range_mem: "inv b \<Longrightarrow> \<exists>b'. set_range b s e v = Some b' \<and> inv b' \<and> sz b' = sz b \<and>
      (\<forall>j. mem b' j = (if unat s \<le> j \<and> j < unat e \<and> j < sz b then v else mem b j))"
    and find_total: "inv b \<Longrightarrow> \<exists>r. find_from b n v s = Some r"
    and find_run: "inv b \<Longrightarrow> find_from b n v s = Some r \<Longrightarrow> r \<noteq> - 1 \<Longrightarrow>
      unat s \<le> unat r \<and> unat r + unat n \<le> sz b \<and> (\<forall>j<unat n. mem b (unat r + j) = v)"
begin

text \<open>Taking a found run out of the set removes exactly that run.\<close>

lemma take_run:
  assumes "inv b" and "find_from b n True s = Some r" and "r \<noteq> - 1"
  shows "\<exists>b'. set_range b r (r + n) False = Some b' \<and> inv b' \<and> sz b' = sz b \<and>
    (\<forall>j. mem b' j \<longleftrightarrow> mem b j \<and> \<not> (unat r \<le> j \<and> j < unat r + unat n)) \<and>
    (\<forall>j. unat r \<le> j \<and> j < unat r + unat n \<longrightarrow> mem b j) \<and> unat (r + n) = unat r + unat n"
proof -
  have run: "unat r + unat n \<le> sz b" "\<And>j. j < unat n \<Longrightarrow> mem b (unat r + j)"
    using find_run [OF assms] by auto
  have sum: "unat (r + n) = unat r + unat n"
    using run(1) sz_bound [of b] by (intro unat_add_u64) linarith
  have all: "mem b j" if "unat r \<le> j" "j < unat r + unat n" for j
    using run(2) [of "j - unat r"] that by simp
  obtain b' where "set_range b r (r + n) False = Some b'" "inv b'" "sz b' = sz b"
    "\<And>j. mem b' j = (if unat r \<le> j \<and> j < unat (r + n) \<and> j < sz b then False else mem b j)"
    using set_range_mem [OF assms(1)] by blast
  with sum run(1) all show ?thesis by auto
qed

end

interpretation bm: frame_set bitmap_wf bm_size bm_bit bitmap_get bitmap_set_range bitmap_find_range_from
proof
  fix b i s e v and n :: size_t and r
  assume wf: "bitmap_wf b"
  show "bitmap_get b i = Some (bm_bit b (unat i))" using wf by (rule bitmap_get_eq)
  show "\<exists>b'. bitmap_set_range b s e v = Some b' \<and> bitmap_wf b' \<and> bm_size b' = bm_size b \<and>
      (\<forall>j. bm_bit b' j = (if unat s \<le> j \<and> j < unat e \<and> j < bm_size b then v else bm_bit b j))"
    using bitmap_set_range_spec [OF wf, of s e v] by (auto dest: bm_same_wf bm_same_size)
  have trivial: "n = 0 \<or> \<not> unat s < bm_size b \<Longrightarrow> bitmap_find_range_from b n v s = Some (- 1)"
    by (auto simp: bitmap_find_range_from_def bm_size_def word_le_nat_alt split: option.splits)
  then show "\<exists>r. bitmap_find_range_from b n v s = Some r"
    using find_from_spec [OF wf, of n s v] by blast
  assume "bitmap_find_range_from b n v s = Some r" "r \<noteq> - 1"
  with trivial find_from_spec [OF wf, of n s v]
  show "unat s \<le> unat r \<and> unat r + unat n \<le> bm_size b \<and> (\<forall>j<unat n. bm_bit b (unat r + j) = v)"
    by (auto simp: bm_run_def)
next
  show "\<And>b j. bm_bit b j \<Longrightarrow> j < bm_size b" using bm_bit_ge not_le by blast
  show "\<And>b. bm_size b < 18446744073709551616" by (rule bm_size_less)
qed

end
