(* ===== verification/Hashmap.thy ===== *)
theory Hashmap
  imports Prelude
begin

text \<open>
  The open-addressing hash map of \<open>libs/hashmap.c\<close> that indexes tasks, pids, process groups
  and cgroup assignments: 64-bit keys, pointer values, linear probing over a table whose size
  is a power of two, tombstones for removed entries.  \<open>calloc\<close> is the parameter
  \<open>calloc_ok\<close>: whether an allocation of so many buckets succeeds.  The probing loops have no
  bound in the code; they are \<^theory_text>\<open>partial_function (option)\<close>, so a loop that does not
  end (and an access outside the table) is \<open>None\<close>, and the theorems show that it does not
  happen.

  The locale \<open>kv_store\<close> is the interface the users of the map rely on; it is interpreted
  on these operations.
\<close>

subsection \<open>State\<close>

datatype hm_state = HM_EMPTY | HM_OCCUPIED | HM_TOMBSTONE

record hashmap_entry =
  he_key :: u64
  he_value :: ptr
  he_state :: hm_state

record hashmap =
  hm_buckets :: "hashmap_entry list option"
  hm_bucket_count :: size_t
  hm_size :: size_t
  hm_used :: size_t

abbreviation (input) HASHMAP_MIN_CAPACITY :: size_t where "HASHMAP_MIN_CAPACITY \<equiv> 16"
abbreviation (input) HASHMAP_MAX_LOAD_NUM :: size_t where "HASHMAP_MAX_LOAD_NUM \<equiv> 8"
abbreviation (input) HASHMAP_MAX_LOAD_DEN :: size_t where "HASHMAP_MAX_LOAD_DEN \<equiv> 10"
abbreviation (input) HASHMAP_TOMBSTONE_REBUILD_MIN :: size_t where
  "HASHMAP_TOMBSTONE_REBUILD_MIN \<equiv> 16"
abbreviation (input) ENOMEM :: int where "ENOMEM \<equiv> 12"

definition HASHMAP_INIT :: hashmap where
  "HASHMAP_INIT = \<lparr>hm_buckets = None, hm_bucket_count = 0, hm_size = 0, hm_used = 0\<rparr>"

definition hashmap_size :: "hashmap \<Rightarrow> size_t" where
  "hashmap_size m = hm_size m"

text \<open>A zeroed entry, as \<open>calloc\<close> and \<open>memset\<close> leave it.\<close>

definition zero_entry :: hashmap_entry where
  "zero_entry = \<lparr>he_key = 0, he_value = 0, he_state = HM_EMPTY\<rparr>"

definition hashmap_entry_is_occupied :: "hashmap_entry \<Rightarrow> bool" where
  "hashmap_entry_is_occupied e = (he_state e = HM_OCCUPIED)"

definition hashmap_hash_u64 :: "u64 \<Rightarrow> u64" where
  "hashmap_hash_u64 key =
     (let key = key + 0x9e3779b97f4a7c15;
          key = (key XOR drop_bit 30 key) * 0xbf58476d1ce4e5b9;
          key = (key XOR drop_bit 27 key) * 0x94d049bb133111eb
      in key XOR drop_bit 31 key)"

partial_function (option) next_capacity_loop :: "size_t \<Rightarrow> size_t \<Rightarrow> size_t option" where
  "next_capacity_loop nxt capacity =
     (if nxt < capacity then next_capacity_loop (push_bit 1 nxt) capacity else Some nxt)"

definition hashmap_next_capacity :: "size_t \<Rightarrow> size_t option" where
  "hashmap_next_capacity capacity = next_capacity_loop HASHMAP_MIN_CAPACITY capacity"

definition hashmap_bucket_index :: "u64 \<Rightarrow> size_t \<Rightarrow> size_t" where
  "hashmap_bucket_index hash bucket_count = hash AND (bucket_count - 1)"

definition hashmap_should_grow :: "hashmap \<Rightarrow> bool" where
  "hashmap_should_grow m =
     ((hm_used m + 1) * HASHMAP_MAX_LOAD_DEN \<ge> hm_bucket_count m * HASHMAP_MAX_LOAD_NUM)"

definition hashmap_should_rebuild :: "hashmap \<Rightarrow> bool" where
  "hashmap_should_rebuild m =
     (hm_used m - hm_size m \<ge> HASHMAP_TOMBSTONE_REBUILD_MIN \<and>
      hm_size m \<le> drop_bit 1 (hm_used m))"

subsection \<open>Rehashing\<close>

text \<open>The probe step \<open>bucket = (bucket + 1) & (bucket_count - 1)\<close>.\<close>

definition next_bucket :: "size_t \<Rightarrow> size_t \<Rightarrow> size_t" where
  "next_bucket bucket bucket_count = (bucket + 1) AND (bucket_count - 1)"

partial_function (option) rehash_probe ::
  "hashmap_entry list \<Rightarrow> size_t \<Rightarrow> size_t \<Rightarrow> size_t option" where
  "rehash_probe buckets bucket_count bucket =
     do { e \<leftarrow> array_get buckets (unat bucket);
          if hashmap_entry_is_occupied e
          then rehash_probe buckets bucket_count (next_bucket bucket bucket_count)
          else Some bucket }"

definition hashmap_insert_rehashed ::
  "hashmap_entry list \<Rightarrow> size_t \<Rightarrow> u64 \<Rightarrow> ptr \<Rightarrow> hashmap_entry list option" where
  "hashmap_insert_rehashed buckets bucket_count key value =
     do { bucket \<leftarrow> rehash_probe buckets bucket_count
            (hashmap_bucket_index (hashmap_hash_u64 key) bucket_count);
          array_set buckets (unat bucket)
            \<lparr>he_key = key, he_value = value, he_state = HM_OCCUPIED\<rparr> }"

text \<open>The loop of \<open>hashmap_rehash\<close> over the old table.\<close>

fun rehash_loop ::
  "hashmap_entry list \<Rightarrow> size_t \<Rightarrow> hashmap_entry list \<Rightarrow> hashmap_entry list option" where
  "rehash_loop new_buckets bucket_count [] = Some new_buckets"
| "rehash_loop new_buckets bucket_count (entry # rest) =
     (if \<not> hashmap_entry_is_occupied entry then rehash_loop new_buckets bucket_count rest
      else do { new_buckets' \<leftarrow> hashmap_insert_rehashed new_buckets bucket_count
                  (he_key entry) (he_value entry);
                rehash_loop new_buckets' bucket_count rest })"

text \<open>
  The entries \<open>map->buckets[0 .. bucket_count - 1]\<close> that loop reads, \<open>None\<close> if they are not
  all there.
\<close>

definition old_entries :: "hashmap \<Rightarrow> hashmap_entry list option" where
  "old_entries m =
     (let bs = (case hm_buckets m of None \<Rightarrow> [] | Some bs \<Rightarrow> bs)
      in if unat (hm_bucket_count m) \<le> length bs
         then Some (take (unat (hm_bucket_count m)) bs) else None)"

text \<open>The operations return the C return value and the new map.\<close>

definition hashmap_rehash ::
  "(size_t \<Rightarrow> bool) \<Rightarrow> hashmap \<Rightarrow> size_t \<Rightarrow> (int \<times> hashmap) option" where
  "hashmap_rehash calloc_ok m target_capacity =
     do { bucket_count \<leftarrow> hashmap_next_capacity target_capacity;
          if \<not> calloc_ok bucket_count then Some (- ENOMEM, m)
          else do {
            old \<leftarrow> old_entries m;
            new_buckets \<leftarrow> rehash_loop (replicate (unat bucket_count) zero_entry) bucket_count old;
            Some (0, m\<lparr>hm_buckets := Some new_buckets, hm_bucket_count := bucket_count,
                       hm_used := hm_size m\<rparr>) } }"

definition hashmap_init ::
  "(size_t \<Rightarrow> bool) \<Rightarrow> hashmap \<Rightarrow> size_t \<Rightarrow> (int \<times> hashmap) option" where
  "hashmap_init calloc_ok m initial_capacity =
     hashmap_rehash calloc_ok
       (m\<lparr>hm_buckets := None, hm_bucket_count := 0, hm_size := 0, hm_used := 0\<rparr>)
       (if initial_capacity \<noteq> 0 then initial_capacity else HASHMAP_MIN_CAPACITY)"

text \<open>\<open>memset(map->buckets, 0, map->bucket_count * sizeof(hashmap_entry_t))\<close>.\<close>

definition zero_buckets :: "hashmap_entry list \<Rightarrow> size_t \<Rightarrow> hashmap_entry list option" where
  "zero_buckets bs bucket_count =
     (if unat bucket_count \<le> length bs
      then Some (replicate (unat bucket_count) zero_entry @ drop (unat bucket_count) bs)
      else None)"

definition hashmap_clear :: "hashmap \<Rightarrow> hashmap option" where
  "hashmap_clear m =
     (case hm_buckets m of None \<Rightarrow> Some m
      | Some bs \<Rightarrow>
         do { bs' \<leftarrow> zero_buckets bs (hm_bucket_count m);
              Some (m\<lparr>hm_buckets := Some bs', hm_size := 0, hm_used := 0\<rparr>) })"

definition hashmap_deinit :: "hashmap \<Rightarrow> hashmap" where
  "hashmap_deinit m = m\<lparr>hm_buckets := None, hm_bucket_count := 0, hm_size := 0, hm_used := 0\<rparr>"

subsection \<open>Lookup, insertion, removal\<close>

partial_function (option) get_probe ::
  "hashmap_entry list \<Rightarrow> size_t \<Rightarrow> u64 \<Rightarrow> size_t \<Rightarrow> ptr option" where
  "get_probe buckets bucket_count key bucket =
     do { e \<leftarrow> array_get buckets (unat bucket);
          if he_state e = HM_EMPTY then Some 0
          else if he_state e = HM_OCCUPIED \<and> he_key e = key then Some (he_value e)
          else get_probe buckets bucket_count key (next_bucket bucket bucket_count) }"

definition hashmap_get :: "hashmap \<Rightarrow> u64 \<Rightarrow> ptr option" where
  "hashmap_get m key =
     (case hm_buckets m of None \<Rightarrow> Some 0
      | Some bs \<Rightarrow>
         if hm_bucket_count m = 0 then Some 0
         else get_probe bs (hm_bucket_count m) key
                (hashmap_bucket_index (hashmap_hash_u64 key) (hm_bucket_count m)))"

text \<open>
  The loop of \<open>hashmap_put\<close>.  \<open>first_tombstone\<close> is the index of the first tombstone
  passed, as the C pointer \<open>first_tombstone\<close>.
\<close>

partial_function (option) put_probe ::
  "hashmap \<Rightarrow> hashmap_entry list \<Rightarrow> u64 \<Rightarrow> ptr \<Rightarrow> size_t option \<Rightarrow> size_t \<Rightarrow> (int \<times> hashmap) option"
  where
  "put_probe m bs key value first_tombstone bucket =
     do { e \<leftarrow> array_get bs (unat bucket);
          if he_state e = HM_EMPTY then
            do { let target = (case first_tombstone of Some t \<Rightarrow> t | None \<Rightarrow> bucket);
                 let m = (if target = bucket then m\<lparr>hm_used := hm_used m + 1\<rparr> else m);
                 bs' \<leftarrow> array_set bs (unat target)
                   \<lparr>he_key = key, he_value = value, he_state = HM_OCCUPIED\<rparr>;
                 Some (0, m\<lparr>hm_buckets := Some bs', hm_size := hm_size m + 1\<rparr>) }
          else if he_state e = HM_OCCUPIED \<and> he_key e = key then
            do { bs' \<leftarrow> array_set bs (unat bucket) (e\<lparr>he_value := value\<rparr>);
                 Some (0, m\<lparr>hm_buckets := Some bs'\<rparr>) }
          else put_probe m bs key value
                 (if he_state e = HM_TOMBSTONE \<and> first_tombstone = None then Some bucket
                  else first_tombstone)
                 (next_bucket bucket (hm_bucket_count m)) }"

text \<open>The part of \<open>hashmap_put\<close> that makes the table ready.\<close>

definition put_prepare ::
  "(size_t \<Rightarrow> bool) \<Rightarrow> hashmap \<Rightarrow> (int \<times> hashmap) option" where
  "put_prepare calloc_ok m =
     do { (rc, m) \<leftarrow> (if hm_buckets m = None \<or> hm_bucket_count m = 0
                      then hashmap_init calloc_ok m HASHMAP_MIN_CAPACITY else Some (0, m));
          if rc < 0 then Some (rc, m)
          else if hashmap_should_grow m
            then hashmap_rehash calloc_ok m (push_bit 1 (hm_bucket_count m))
          else if hashmap_should_rebuild m
            then hashmap_rehash calloc_ok m (hm_bucket_count m)
          else Some (0, m) }"

definition hashmap_put ::
  "(size_t \<Rightarrow> bool) \<Rightarrow> hashmap \<Rightarrow> u64 \<Rightarrow> ptr \<Rightarrow> (int \<times> hashmap) option" where
  "hashmap_put calloc_ok m key value =
     do { (rc, m) \<leftarrow> put_prepare calloc_ok m;
          if rc < 0 then Some (rc, m)
          else do { bs \<leftarrow> hm_buckets m;
                    put_probe m bs key value None
                      (hashmap_bucket_index (hashmap_hash_u64 key) (hm_bucket_count m)) } }"

partial_function (option) remove_probe ::
  "hashmap \<Rightarrow> hashmap_entry list \<Rightarrow> u64 \<Rightarrow> size_t \<Rightarrow> (ptr \<times> hashmap) option" where
  "remove_probe m bs key bucket =
     do { e \<leftarrow> array_get bs (unat bucket);
          if he_state e = HM_EMPTY then Some (0, m)
          else if he_state e = HM_OCCUPIED \<and> he_key e = key then
            do { bs' \<leftarrow> array_set bs (unat bucket) (e\<lparr>he_value := 0, he_state := HM_TOMBSTONE\<rparr>);
                 let m = m\<lparr>hm_buckets := Some bs', hm_size := hm_size m - 1\<rparr>;
                 if hm_size m = 0
                 then do { bs'' \<leftarrow> zero_buckets bs' (hm_bucket_count m);
                           Some (he_value e, m\<lparr>hm_buckets := Some bs'', hm_used := 0\<rparr>) }
                 else Some (he_value e, m) }
          else remove_probe m bs key (next_bucket bucket (hm_bucket_count m)) }"

definition hashmap_remove :: "hashmap \<Rightarrow> u64 \<Rightarrow> (ptr \<times> hashmap) option" where
  "hashmap_remove m key =
     (case hm_buckets m of None \<Rightarrow> Some (0, m)
      | Some bs \<Rightarrow>
         if hm_bucket_count m = 0 then Some (0, m)
         else remove_probe m bs key
                (hashmap_bucket_index (hashmap_hash_u64 key) (hm_bucket_count m)))"

declare next_capacity_loop.simps [code] rehash_probe.simps [code] get_probe.simps [code]
  put_probe.simps [code] remove_probe.simps [code]

subsection \<open>Tables and the maps they hold\<close>

definition holds_key :: "u64 \<Rightarrow> hashmap_entry \<Rightarrow> bool" where
  "holds_key key e = (he_state e = HM_OCCUPIED \<and> he_key e = key)"

definition in_use :: "hashmap_entry \<Rightarrow> bool" where
  "in_use e = (he_state e \<noteq> HM_EMPTY)"

text \<open>The map a table stands for.\<close>

definition table_map :: "hashmap_entry list \<Rightarrow> u64 \<Rightarrow> ptr option" where
  "table_map bs key = map_option he_value (find (holds_key key) bs)"

text \<open>The bucket reached from the home bucket of \<open>key\<close> in \<open>d\<close> steps.\<close>

definition probe_pos :: "hashmap_entry list \<Rightarrow> u64 \<Rightarrow> nat \<Rightarrow> nat" where
  "probe_pos bs key d = (unat (hashmap_hash_u64 key) + d) mod length bs"

text \<open>Linear probing finds entry \<open>i\<close>: no empty bucket lies between it and its home.\<close>

definition reachable_entry :: "hashmap_entry list \<Rightarrow> nat \<Rightarrow> bool" where
  "reachable_entry bs i =
     (\<exists>d < length bs. i = probe_pos bs (he_key (bs ! i)) d \<and>
        (\<forall>j < d. in_use (bs ! probe_pos bs (he_key (bs ! i)) j)))"

definition table_ok :: "hashmap_entry list \<Rightarrow> bool" where
  "table_ok bs =
     ((\<exists>k \<in> {4..59}. length bs = 2 ^ k) \<and>
      (\<forall>i < length bs. \<forall>j < length bs.
         hashmap_entry_is_occupied (bs ! i) \<and> hashmap_entry_is_occupied (bs ! j) \<and>
         he_key (bs ! i) = he_key (bs ! j) \<longrightarrow> i = j) \<and>
      (\<forall>i < length bs. hashmap_entry_is_occupied (bs ! i) \<longrightarrow> reachable_entry bs i))"

definition count_occupied :: "hashmap_entry list \<Rightarrow> nat" where
  "count_occupied bs = length (filter hashmap_entry_is_occupied bs)"

definition count_in_use :: "hashmap_entry list \<Rightarrow> nat" where
  "count_in_use bs = length (filter in_use bs)"

text \<open>
  The invariant of a map: the counters are the counts, and less than eight tenths of the buckets
  are in use, so every probe meets an empty one.
\<close>

definition hashmap_inv :: "hashmap \<Rightarrow> bool" where
  "hashmap_inv m =
     (case hm_buckets m of
        None \<Rightarrow> hm_bucket_count m = 0 \<and> hm_size m = 0 \<and> hm_used m = 0
      | Some bs \<Rightarrow> table_ok bs \<and> length bs = unat (hm_bucket_count m) \<and>
          unat (hm_size m) = count_occupied bs \<and> unat (hm_used m) = count_in_use bs \<and>
          count_in_use bs * 10 < length bs * 8)"

definition hm_map :: "hashmap \<Rightarrow> u64 \<Rightarrow> ptr option" where
  "hm_map m = (case hm_buckets m of None \<Rightarrow> (\<lambda>key. None) | Some bs \<Rightarrow> table_map bs)"

named_theorems hm_simps
lemmas [hm_simps] = hashmap_entry_is_occupied_def holds_key_def in_use_def zero_entry_def

lemma length_filter_update:
  "i < length xs \<Longrightarrow> length (filter P (xs[i := x])) + (if P (xs ! i) then 1 else 0) =
     length (filter P xs) + (if P x then 1 else 0)"
proof (induction xs arbitrary: i)
  case (Cons a xs)
  then show ?case by (cases i) auto
qed simp

lemma table_length:
  assumes "table_ok bs"
  obtains k where "4 \<le> k" "k \<le> 59" "length bs = 2 ^ k"
  using assms unfolding table_ok_def by auto

lemma table_length_pos: "table_ok bs \<Longrightarrow> 0 < length bs"
  by (elim table_length) simp

lemma unat_and_pred:
  assumes "unat n = 2 ^ k" "k < 64"
  shows "unat (x AND (n - 1) :: u64) = unat x mod unat n"
proof -
  have "n = 2 ^ k"
    using arg_cong [OF assms(1), of "of_nat :: nat \<Rightarrow> u64"] by simp
  then have "n - 1 = mask k" by (simp add: mask_eq_exp_minus_1)
  then show ?thesis using assms by (simp add: unat_mod_mask)
qed

text \<open>A table and the machine word that counts its buckets.\<close>

definition sized :: "hashmap_entry list \<Rightarrow> size_t \<Rightarrow> bool" where
  "sized bs n = ((\<exists>k \<in> {4..59}. length bs = 2 ^ k) \<and> length bs = unat n)"

lemma sized_pos: "sized bs n \<Longrightarrow> 0 < length bs"
  unfolding sized_def by (metis zero_less_numeral zero_less_power)

lemma unat_home:
  assumes "sized bs n"
  shows "unat (hashmap_bucket_index (hashmap_hash_u64 key) n) = probe_pos bs key 0"
proof -
  obtain k where "k \<le> 59" "unat n = 2 ^ k" "length bs = unat n"
    using assms unfolding sized_def by auto
  then show ?thesis
    unfolding hashmap_bucket_index_def probe_pos_def by (simp add: unat_and_pred [of n k])
qed

lemma unat_next:
  assumes "sized bs n" "unat b = probe_pos bs key d"
  shows "unat (next_bucket b n) = probe_pos bs key (Suc d)"
proof -
  obtain k where k: "k \<le> 59" "unat n = 2 ^ k" "length bs = unat n"
    using assms(1) unfolding sized_def by auto
  have "unat b < unat n" using assms(2) k unfolding probe_pos_def by simp
  then have "unat (b + 1) = unat b + 1"
    using unat64_lt [of n] by (intro unat_inc_u64) linarith
  then show ?thesis
    using k assms(2) unfolding next_bucket_def
    by (simp add: unat_and_pred [of n k] probe_pos_def mod_Suc_eq)
qed

lemma probe_pos_less: "0 < length bs \<Longrightarrow> probe_pos bs key d < length bs"
  unfolding probe_pos_def by simp

lemma probe_pos_onto:
  assumes "i < length bs"
  obtains d where "d < length bs" "probe_pos bs key d = i"
proof -
  define n where "n = length bs"
  define h where "h = unat (hashmap_hash_u64 key) mod n"
  have n: "0 < n" "i < n" using assms by (auto simp: n_def)
  then have "h < n" by (simp add: h_def)
  have "(h + (i + n - h) mod n) mod n = (h + (i + n - h)) mod n" by (rule mod_add_right_eq)
  also have "\<dots> = i" using n \<open>h < n\<close> by simp
  finally have "probe_pos bs key ((i + n - h) mod n) = i"
    unfolding probe_pos_def h_def n_def by (simp add: mod_add_left_eq)
  then show thesis using that n by (metis mod_less_divisor n_def)
qed

text \<open>The first bucket on the probe sequence of \<open>key\<close> that satisfies \<open>P\<close>.\<close>

lemma first_on_probe:
  assumes "i < length bs" "P (bs ! i)"
  obtains d where "d < length bs" "P (bs ! probe_pos bs key d)"
    "\<And>j. j < d \<Longrightarrow> \<not> P (bs ! probe_pos bs key j)"
proof -
  obtain d0 where d0: "d0 < length bs" "probe_pos bs key d0 = i"
    using probe_pos_onto [OF assms(1)] .
  let ?Q = "\<lambda>d. P (bs ! probe_pos bs key d)"
  have Q: "?Q d0" using d0 assms by simp
  show thesis
  proof
    show "(LEAST d. ?Q d) < length bs" using Least_le [of ?Q, OF Q] d0 by simp
    show "?Q (LEAST d. ?Q d)" using Q by (rule LeastI)
    show "\<not> ?Q j" if "j < (LEAST d. ?Q d)" for j using that by (rule not_less_Least)
  qed
qed

lemma exists_empty:
  assumes "count_in_use bs * 10 < length bs * 8"
  obtains i where "i < length bs" "\<not> in_use (bs ! i)"
proof -
  have "\<exists>e \<in> set bs. \<not> in_use e"
  proof (rule ccontr)
    assume "\<not> ?thesis"
    then have "filter in_use bs = bs" by (simp add: filter_id_conv)
    then show False using assms by (simp add: count_in_use_def)
  qed
  then show thesis using that by (auto simp: in_set_conv_nth)
qed

lemma table_map_eq_None:
  "table_map bs key = None \<longleftrightarrow> (\<forall>i < length bs. \<not> holds_key key (bs ! i))"
  unfolding table_map_def by (auto simp: find_None_iff in_set_conv_nth)

lemma holds_key_unique:
  "table_ok bs \<Longrightarrow> i < length bs \<Longrightarrow> j < length bs \<Longrightarrow> holds_key key (bs ! i) \<Longrightarrow>
   holds_key key (bs ! j) \<Longrightarrow> i = j"
  unfolding table_ok_def holds_key_def hashmap_entry_is_occupied_def by blast

lemma table_map_at:
  assumes "table_ok bs" "i < length bs" "holds_key key (bs ! i)"
  shows "table_map bs key = Some (he_value (bs ! i))"
proof -
  have "find (holds_key key) bs = Some (bs ! i)"
    unfolding find_Some_iff
    using assms holds_key_unique [OF assms(1)] by (metis less_trans less_irrefl)
  then show ?thesis by (simp add: table_map_def)
qed

text \<open>
  A probe that stops at the first bucket that is empty or holds the key decides whether the key is
  there.
\<close>

lemma probe_decides:
  assumes ok: "table_ok bs"
    and d: "\<not> in_use (bs ! probe_pos bs key d)"
    and first: "\<And>j. j < d \<Longrightarrow> \<not> holds_key key (bs ! probe_pos bs key j)"
  shows "table_map bs key = None"
  unfolding table_map_eq_None
proof (intro allI impI notI)
  fix i assume i: "i < length bs" "holds_key key (bs ! i)"
  then have "reachable_entry bs i" "he_key (bs ! i) = key"
    using ok by (auto simp: table_ok_def hm_simps)
  then obtain e where e: "i = probe_pos bs key e" "\<forall>j < e. in_use (bs ! probe_pos bs key j)"
    unfolding reachable_entry_def by auto
  consider "d < e" | "d = e" | "e < d" by linarith
  then show False
  proof cases
    case 1 then show ?thesis using e d by blast
  next
    case 2 then show ?thesis using e d i by (auto simp: hm_simps)
  next
    case 3 then show ?thesis using e first i by blast
  qed
qed

subsection \<open>Changing one bucket\<close>

lemma probe_pos_update [simp]: "probe_pos (bs[t := e]) = probe_pos bs"
  by (intro ext) (simp add: probe_pos_def)

lemma sized_update [simp]: "sized (bs[t := e]) n = sized bs n"
  by (simp add: sized_def)

lemma table_ok_sized: "table_ok bs \<Longrightarrow> length bs = unat n \<Longrightarrow> sized bs n"
  unfolding table_ok_def sized_def by blast

lemma in_use_update:
  "in_use (bs ! j) \<Longrightarrow> (in_use (bs ! t) \<Longrightarrow> in_use e) \<Longrightarrow> in_use (bs[t := e] ! j)"
  by (cases "t < length bs"; cases "j = t") (auto simp: list_update_beyond)

lemma reachable_update:
  assumes "reachable_entry bs i" "i \<noteq> t" "in_use (bs ! t) \<Longrightarrow> in_use e"
  shows "reachable_entry (bs[t := e]) i"
  using assms unfolding reachable_entry_def
  by (metis in_use_update length_list_update nth_list_update_neq probe_pos_update)

lemma reachable_at:
  assumes "d < length bs" "\<And>j. j < d \<Longrightarrow> in_use (bs ! probe_pos bs (he_key e) j)" "in_use e"
  shows "reachable_entry (bs[probe_pos bs (he_key e) d := e]) (probe_pos bs (he_key e) d)"
proof -
  have "probe_pos bs (he_key e) d < length bs" using assms(1) by (intro probe_pos_less) linarith
  then show ?thesis
    using assms(1) in_use_update [OF assms(2)] assms(3) unfolding reachable_entry_def
    by auto
qed

lemma table_ok_update:
  assumes ok: "table_ok bs" and t: "t < length bs"
    and use: "in_use (bs ! t) \<Longrightarrow> in_use e"
    and new: "hashmap_entry_is_occupied e \<Longrightarrow> reachable_entry (bs[t := e]) t"
      "\<And>i. i < length bs \<Longrightarrow> i \<noteq> t \<Longrightarrow> hashmap_entry_is_occupied e \<Longrightarrow>
         \<not> holds_key (he_key e) (bs ! i)"
  shows "table_ok (bs[t := e])"
  unfolding table_ok_def
proof (intro conjI allI impI)
  show "\<exists>k \<in> {4..59}. length (bs[t := e]) = 2 ^ k" using ok by (simp add: table_ok_def)
next
  fix i j
  assume ij: "i < length (bs[t := e])" "j < length (bs[t := e])"
    "hashmap_entry_is_occupied (bs[t := e] ! i) \<and> hashmap_entry_is_occupied (bs[t := e] ! j) \<and>
     he_key (bs[t := e] ! i) = he_key (bs[t := e] ! j)"
  consider "i = t" "j = t" | "i \<noteq> t" "j \<noteq> t" | "i = t" "j \<noteq> t" | "i \<noteq> t" "j = t" by blast
  then show "i = j"
  proof cases
    case 2 then show ?thesis using ok ij unfolding table_ok_def by simp
  next
    case 3 then show ?thesis using new(2) [of j] ij t by (simp add: hm_simps)
  next
    case 4 then show ?thesis using new(2) [of i] ij t by (simp add: hm_simps)
  qed simp
next
  fix i assume "i < length (bs[t := e])" "hashmap_entry_is_occupied (bs[t := e] ! i)"
  then show "reachable_entry (bs[t := e]) i"
    using ok t new(1) use unfolding table_ok_def
    by (cases "i = t") (auto intro: reachable_update)
qed

lemma find_update_other:
  "\<not> P (xs ! t) \<Longrightarrow> \<not> P x \<Longrightarrow> find P (xs[t := x]) = find P xs"
proof (induction xs arbitrary: t)
  case (Cons a xs)
  then show ?case by (cases t) auto
qed simp

lemma table_map_store:
  assumes "table_ok (bs[t := e])" "t < length bs" "hashmap_entry_is_occupied e"
    and "hashmap_entry_is_occupied (bs ! t) \<Longrightarrow> he_key (bs ! t) = he_key e"
  shows "table_map (bs[t := e]) = (table_map bs)(he_key e \<mapsto> he_value e)"
proof
  fix key
  show "table_map (bs[t := e]) key = ((table_map bs)(he_key e \<mapsto> he_value e)) key"
  proof (cases "key = he_key e")
    case True
    then show ?thesis using table_map_at [OF assms(1), of t key] assms by (simp add: hm_simps)
  next
    case False
    then have "\<not> holds_key key (bs ! t)" "\<not> holds_key key e" using assms by (auto simp: hm_simps)
    then show ?thesis using False by (simp add: table_map_def find_update_other)
  qed
qed

lemma table_map_delete:
  assumes "table_ok bs" "t < length bs" "holds_key key (bs ! t)" "\<not> hashmap_entry_is_occupied e"
  shows "table_map (bs[t := e]) = (table_map bs)(key := None)"
proof
  fix k
  show "table_map (bs[t := e]) k = ((table_map bs)(key := None)) k"
  proof (cases "k = key")
    case True
    have "\<not> holds_key key (bs[t := e] ! i)" if "i < length bs" for i
      using that assms(2,4) holds_key_unique [OF assms(1) that assms(2) _ assms(3)]
      by (cases "i = t") (auto simp: holds_key_def hashmap_entry_is_occupied_def)
    then show ?thesis using True by (simp add: table_map_eq_None)
  next
    case False
    then have "\<not> holds_key k (bs ! t)" "\<not> holds_key k e" using assms by (auto simp: hm_simps)
    then show ?thesis using False by (simp add: table_map_def find_update_other)
  qed
qed

lemma counts_update:
  assumes "t < length bs"
  shows "count_occupied (bs[t := e]) + (if hashmap_entry_is_occupied (bs ! t) then 1 else 0) =
           count_occupied bs + (if hashmap_entry_is_occupied e then 1 else 0)"
    and "count_in_use (bs[t := e]) + (if in_use (bs ! t) then 1 else 0) =
           count_in_use bs + (if in_use e then 1 else 0)"
  unfolding count_occupied_def count_in_use_def using assms by (rule length_filter_update)+

lemma count_occupied_le: "count_occupied bs \<le> count_in_use bs"
  unfolding count_occupied_def count_in_use_def
  by (induction bs) (auto simp: hm_simps)

lemma count_in_use_le: "count_in_use bs \<le> length bs"
  by (simp add: count_in_use_def)

subsection \<open>The probing loops\<close>

lemma get_probe_at:
  assumes n: "sized bs n"
    and stop: "\<not> in_use (bs ! probe_pos bs key d) \<or> holds_key key (bs ! probe_pos bs key d)"
    and b: "unat b = probe_pos bs key j" "j \<le> d"
    and first: "\<And>i. i < d \<Longrightarrow> in_use (bs ! probe_pos bs key i) \<and>
                 \<not> holds_key key (bs ! probe_pos bs key i)"
  shows "get_probe bs n key b =
    Some (let e = bs ! probe_pos bs key d in if in_use e then he_value e else 0)"
  using b
proof (induction "d - j" arbitrary: j b)
  case 0
  then have "unat b = probe_pos bs key d" by simp
  then show ?case
    using stop probe_pos_less [OF sized_pos [OF n], of key d]
    by (subst get_probe.simps) (auto simp: hm_simps)
next
  case (Suc x)
  then have j: "j < d" "x = d - Suc j" by simp_all
  have "get_probe bs n key b = get_probe bs n key (next_bucket b n)"
    using first [OF j(1)] Suc.prems probe_pos_less [OF sized_pos [OF n], of key j]
    by (subst get_probe.simps) (auto simp: hm_simps)
  then show ?case using Suc.hyps(1) [OF j(2) unat_next [OF n Suc.prems(1)]] j by simp
qed

lemma remove_probe_at:
  assumes n: "sized bs (hm_bucket_count m)"
    and b: "unat b = probe_pos bs key j" "j \<le> d"
    and first: "\<And>i. i < d \<Longrightarrow> in_use (bs ! probe_pos bs key i) \<and>
                 \<not> holds_key key (bs ! probe_pos bs key i)"
  shows "\<exists>b'. unat b' = probe_pos bs key d \<and> remove_probe m bs key b = remove_probe m bs key b'"
  using b
proof (induction "d - j" arbitrary: j b)
  case 0
  then show ?case by auto
next
  case (Suc x)
  then have j: "j < d" "x = d - Suc j" by simp_all
  have "remove_probe m bs key b = remove_probe m bs key (next_bucket b (hm_bucket_count m))"
    using first [OF j(1)] Suc.prems probe_pos_less [OF sized_pos [OF n], of key j]
    by (subst remove_probe.simps) (auto simp: hm_simps)
  then show ?case using Suc.hyps(1) [OF j(2) unat_next [OF n Suc.prems(1)]] j by simp
qed

lemma put_probe_at:
  assumes n: "sized bs (hm_bucket_count m)"
    and b: "unat b = probe_pos bs key j" "j \<le> d"
    and ft: "\<And>t. ft = Some t \<Longrightarrow>
      \<exists>dt < d. unat t = probe_pos bs key dt \<and> he_state (bs ! probe_pos bs key dt) = HM_TOMBSTONE"
    and first: "\<And>i. i < d \<Longrightarrow> in_use (bs ! probe_pos bs key i) \<and>
                 \<not> holds_key key (bs ! probe_pos bs key i)"
  shows "\<exists>b' ft'. unat b' = probe_pos bs key d \<and>
     put_probe m bs key v ft b = put_probe m bs key v ft' b' \<and>
     (\<forall>t. ft' = Some t \<longrightarrow> (\<exists>dt < d. unat t = probe_pos bs key dt \<and>
        he_state (bs ! probe_pos bs key dt) = HM_TOMBSTONE))"
  using b ft
proof (induction "d - j" arbitrary: j b ft)
  case 0
  then have "unat b = probe_pos bs key d" by simp
  then show ?case using 0(4) by blast
next
  case (Suc x)
  then have j: "j < d" "x = d - Suc j" by simp_all
  let ?e = "bs ! probe_pos bs key j"
  let ?ft = "if he_state ?e = HM_TOMBSTONE \<and> ft = None then Some b else ft"
  have "put_probe m bs key v ft b =
        put_probe m bs key v ?ft (next_bucket b (hm_bucket_count m))"
    using first [OF j(1)] Suc.prems probe_pos_less [OF sized_pos [OF n], of key j]
    by (subst put_probe.simps) (auto simp: hm_simps)
  moreover have "\<exists>dt < d. unat t = probe_pos bs key dt \<and>
      he_state (bs ! probe_pos bs key dt) = HM_TOMBSTONE" if "?ft = Some t" for t
    using that j(1) Suc.prems by (auto split: if_splits)
  ultimately show ?case
    using Suc.hyps(1) [OF j(2) unat_next [OF n Suc.prems(1)], of ?ft] j by simp
qed

lemma rehash_probe_at:
  assumes n: "sized bs n"
    and b: "unat b = probe_pos bs key j" "j \<le> d"
    and stop: "\<not> hashmap_entry_is_occupied (bs ! probe_pos bs key d)"
    and first: "\<And>i. i < d \<Longrightarrow> hashmap_entry_is_occupied (bs ! probe_pos bs key i)"
  shows "\<exists>b'. unat b' = probe_pos bs key d \<and> rehash_probe bs n b = Some b'"
  using b
proof (induction "d - j" arbitrary: j b)
  case 0
  then have "unat b = probe_pos bs key d" by simp
  then show ?case
    using stop probe_pos_less [OF sized_pos [OF n], of key d]
    by (subst rehash_probe.simps) auto
next
  case (Suc x)
  then have j: "j < d" "x = d - Suc j" by simp_all
  have "rehash_probe bs n b = rehash_probe bs n (next_bucket b n)"
    using first [OF j(1)] Suc.prems probe_pos_less [OF sized_pos [OF n], of key j]
    by (subst rehash_probe.simps) auto
  then show ?case using Suc.hyps(1) [OF j(2) unat_next [OF n Suc.prems(1)]] j by simp
qed

subsection \<open>The operations on a map that satisfies the invariant\<close>

lemma hashmap_invE:
  assumes "hashmap_inv m"
  obtains (none) "hm_buckets m = None" "hm_bucket_count m = 0" "hm_size m = 0" "hm_used m = 0"
  | (some) bs where "hm_buckets m = Some bs" "table_ok bs" "sized bs (hm_bucket_count m)"
      "hm_bucket_count m \<noteq> 0" "unat (hm_size m) = count_occupied bs"
      "unat (hm_used m) = count_in_use bs" "count_in_use bs * 10 < length bs * 8"
proof (cases "hm_buckets m")
  case None
  then show thesis using none assms by (simp add: hashmap_inv_def)
next
  case (Some bs)
  then have bs: "table_ok bs" "length bs = unat (hm_bucket_count m)"
    "unat (hm_size m) = count_occupied bs" "unat (hm_used m) = count_in_use bs"
    "count_in_use bs * 10 < length bs * 8"
    using assms by (simp_all add: hashmap_inv_def)
  moreover have "hm_bucket_count m \<noteq> 0" using bs(2) table_length_pos [OF bs(1)] by auto
  ultimately show thesis using some Some table_ok_sized by blast
qed

lemma hashmap_invD:
  assumes "hashmap_inv m" "hm_buckets m = Some bs"
  shows "table_ok bs" "sized bs (hm_bucket_count m)" "unat (hm_size m) = count_occupied bs"
    "unat (hm_used m) = count_in_use bs" "count_in_use bs * 10 < length bs * 8"
  using assms by (auto simp: hashmap_inv_def table_ok_sized)

lemma hashmap_invI:
  assumes "hm_buckets m = Some bs" "table_ok bs" "length bs = unat (hm_bucket_count m)"
    "unat (hm_size m) = count_occupied bs" "unat (hm_used m) = count_in_use bs"
    "count_in_use bs * 10 < length bs * 8"
  shows "hashmap_inv m"
  using assms by (simp add: hashmap_inv_def)

text \<open>Where the probe of a key stops.\<close>

lemma probe_stops:
  assumes "count_in_use bs * 10 < length bs * 8"
  obtains d where "d < length bs"
    "\<not> in_use (bs ! probe_pos bs key d) \<or> holds_key key (bs ! probe_pos bs key d)"
    "\<And>i. i < d \<Longrightarrow> in_use (bs ! probe_pos bs key i) \<and> \<not> holds_key key (bs ! probe_pos bs key i)"
proof -
  obtain i where i: "i < length bs" "\<not> in_use (bs ! i)" using exists_empty [OF assms] .
  show thesis
    by (rule first_on_probe [of i bs "\<lambda>e. \<not> in_use e \<or> holds_key key e" key])
      (use i that in auto)
qed

lemma hashmap_get_map:
  assumes "hashmap_inv m"
  shows "hashmap_get m key = Some (case hm_map m key of None \<Rightarrow> 0 | Some v \<Rightarrow> v)"
  using assms
proof (cases rule: hashmap_invE)
  case none
  then show ?thesis by (simp add: hashmap_get_def hm_map_def)
next
  case (some bs)
  obtain d where d: "d < length bs"
    "\<not> in_use (bs ! probe_pos bs key d) \<or> holds_key key (bs ! probe_pos bs key d)"
    "\<And>i. i < d \<Longrightarrow> in_use (bs ! probe_pos bs key i) \<and> \<not> holds_key key (bs ! probe_pos bs key i)"
    using probe_stops [OF some(7)] by metis
  let ?e = "bs ! probe_pos bs key d"
  have get: "hashmap_get m key = Some (if in_use ?e then he_value ?e else 0)"
    using get_probe_at [OF some(3) d(2) unat_home [OF some(3)] _ d(3)] some
    by (simp add: hashmap_get_def Let_def)
  show ?thesis
  proof (cases "in_use ?e")
    case False
    then show ?thesis using get probe_decides [OF some(2) False] d(3) some by (simp add: hm_map_def)
  next
    case True
    then have "holds_key key ?e" using d(2) by simp
    then show ?thesis
      using get True table_map_at [OF some(2) probe_pos_less [OF sized_pos [OF some(3)]]] some
      by (simp add: hm_map_def)
  qed
qed

lemma unat_small_pos: "unat (x :: u64) = n \<Longrightarrow> 0 < n \<Longrightarrow> unat (x - 1) = n - 1"
  by (subst unat_sub_le) (auto simp: word_le_iff_unat)

lemma hm_size_small: "unat (x :: u64) = n \<Longrightarrow> n * 10 < length bs * 8 \<Longrightarrow> sized bs c \<Longrightarrow>
    unat (x + 1) = n + 1"
  using unat64_lt [of c] by (subst unat_inc_u64) (auto simp: sized_def)

lemma zero_nth: "i < n \<Longrightarrow> \<not> in_use (replicate n zero_entry ! i)"
  by (simp add: hm_simps)

lemma table_ok_zero:
  assumes "\<exists>k \<in> {4..59}. n = (2::nat) ^ k"
  shows "table_ok (replicate n zero_entry)"
  using assms unfolding table_ok_def by (auto simp: hm_simps)

lemma zero_table [simp]:
  "table_map (replicate n zero_entry) = Map.empty"
  "count_in_use (replicate n zero_entry) = 0"
  "count_occupied (replicate n zero_entry) = 0"
proof -
  show "table_map (replicate n zero_entry) = Map.empty"
  proof
    fix key
    show "table_map (replicate n zero_entry) key = None"
      by (simp add: table_map_eq_None hm_simps)
  qed
qed (simp_all add: count_in_use_def count_occupied_def hm_simps)

lemma count_occupied_0:
  assumes "count_occupied bs = 0" shows "table_map bs = Map.empty"
proof
  fix key
  have "\<not> hashmap_entry_is_occupied e" if "e \<in> set bs" for e
    using assms that by (auto simp: count_occupied_def filter_empty_conv)
  then show "table_map bs key = None"
    by (auto simp: table_map_eq_None hm_simps dest: nth_mem)
qed

lemma tombstone_step:
  assumes bs: "table_ok bs" and t: "t < length bs" "holds_key key (bs ! t)"
  defines "bs' \<equiv> bs[t := (bs ! t)\<lparr>he_value := 0, he_state := HM_TOMBSTONE\<rparr>]"
  shows "table_ok bs'" "table_map bs' = (table_map bs)(key := None)"
    "count_occupied bs' + 1 = count_occupied bs" "count_in_use bs' = count_in_use bs"
proof -
  let ?e = "(bs ! t)\<lparr>he_value := 0, he_state := HM_TOMBSTONE\<rparr>"
  have e: "\<not> hashmap_entry_is_occupied ?e" "in_use ?e" "hashmap_entry_is_occupied (bs ! t)"
    "in_use (bs ! t)"
    using t by (simp_all add: hm_simps)
  show "table_ok bs'" unfolding bs'_def using bs t e by (intro table_ok_update) auto
  show "table_map bs' = (table_map bs)(key := None)"
    unfolding bs'_def using bs t e by (intro table_map_delete)
  show "count_occupied bs' + 1 = count_occupied bs" "count_in_use bs' = count_in_use bs"
    unfolding bs'_def using counts_update [OF t(1), of ?e] e by simp_all
qed

text \<open>Removal of a key that is in the table.\<close>

lemma remove_hit:
  assumes m: "hm_buckets m = Some bs" "table_ok bs" "sized bs (hm_bucket_count m)"
      "unat (hm_size m) = count_occupied bs" "unat (hm_used m) = count_in_use bs"
      "count_in_use bs * 10 < length bs * 8"
    and t: "unat b < length bs" "holds_key key (bs ! unat b)"
  shows "\<exists>m'. remove_probe m bs key b = Some (he_value (bs ! unat b), m') \<and>
     hashmap_inv m' \<and> hm_map m' = (hm_map m)(key := None)"
proof -
  define bs' where "bs' = bs[unat b := (bs ! unat b)\<lparr>he_value := 0, he_state := HM_TOMBSTONE\<rparr>]"
  define m' where "m' = m\<lparr>hm_buckets := Some bs', hm_size := hm_size m - 1\<rparr>"
  note step = tombstone_step [OF m(2) t, folded bs'_def]
  have len: "length bs' = unat (hm_bucket_count m)" using m by (simp add: bs'_def sized_def)
  have sz: "unat (hm_size m') = count_occupied bs'"
    using unat_small_pos [OF m(4)] step(3) by (simp add: m'_def)
  have map': "table_map bs' = (hm_map m)(key := None)" using step m by (simp add: hm_map_def)
  have res: "remove_probe m bs key b =
     (if hm_size m' = 0
      then do { bs'' \<leftarrow> zero_buckets bs' (hm_bucket_count m');
                Some (he_value (bs ! unat b), m'\<lparr>hm_buckets := Some bs'', hm_used := 0\<rparr>) }
      else Some (he_value (bs ! unat b), m'))"
    using t by (subst remove_probe.simps) (simp add: hm_simps Let_def m'_def bs'_def)
  show ?thesis
  proof (cases "hm_size m' = 0")
    case False
    have "hashmap_inv m'"
      by (rule hashmap_invI [of _ bs']) (use step m len sz in \<open>simp_all add: m'_def sized_def\<close>)
    then show ?thesis using False res map' by (simp add: hm_map_def m'_def)
  next
    case True
    let ?m = "m'\<lparr>hm_buckets := Some (replicate (length bs') zero_entry), hm_used := 0\<rparr>"
    have "\<exists>k \<in> {4..59}. length bs' = 2 ^ k" using step(1) by (simp add: table_ok_def)
    then have "hashmap_inv ?m"
      by (intro hashmap_invI [of _ "replicate (length bs') zero_entry"])
        (use True len table_length_pos [OF step(1)] in \<open>simp_all add: table_ok_zero m'_def\<close>)
    moreover have "remove_probe m bs key b = Some (he_value (bs ! unat b), ?m)"
      using True res len by (simp add: zero_buckets_def m'_def)
    moreover have "table_map bs' = Map.empty" using True sz by (intro count_occupied_0) simp
    ultimately show ?thesis using map' by (auto simp: hm_map_def)
  qed
qed

lemma hashmap_remove_map:
  assumes "hashmap_inv m"
  shows "\<exists>m'. hashmap_remove m key = Some (case hm_map m key of None \<Rightarrow> 0 | Some v \<Rightarrow> v, m') \<and>
     hashmap_inv m' \<and> hm_map m' = (hm_map m)(key := None)"
  using assms
proof (cases rule: hashmap_invE)
  case none
  then show ?thesis using assms by (auto simp: hashmap_remove_def hm_map_def)
next
  case (some bs)
  obtain d where d: "d < length bs"
    "\<not> in_use (bs ! probe_pos bs key d) \<or> holds_key key (bs ! probe_pos bs key d)"
    "\<And>i. i < d \<Longrightarrow> in_use (bs ! probe_pos bs key i) \<and> \<not> holds_key key (bs ! probe_pos bs key i)"
    using probe_stops [OF some(7)] by metis
  obtain b where b: "unat b = probe_pos bs key d" "hashmap_remove m key = remove_probe m bs key b"
    using remove_probe_at [OF some(3) unat_home [OF some(3)] _ d(3)] some
    by (auto simp: hashmap_remove_def)
  have t: "unat b < length bs" unfolding b by (rule probe_pos_less [OF sized_pos [OF some(3)]])
  show ?thesis
  proof (cases "in_use (bs ! unat b)")
    case False
    have "table_map bs key = None"
      using probe_decides [OF some(2) False [unfolded b]] d(3) by blast
    moreover have "hashmap_remove m key = Some (0, m)"
      using False t by (subst b(2), subst remove_probe.simps) (simp add: hm_simps)
    ultimately show ?thesis using some assms by (auto simp: hm_map_def)
  next
    case True
    then have h: "holds_key key (bs ! unat b)" using d(2) b by simp
    show ?thesis
      using remove_hit [OF some(1-3,5-7) t h] table_map_at [OF some(2) t h] some b
      by (simp add: hm_map_def)
  qed
qed

subsection \<open>Insertion\<close>

abbreviation (input) occupied_entry :: "u64 \<Rightarrow> ptr \<Rightarrow> hashmap_entry" where
  "occupied_entry key value \<equiv> \<lparr>he_key = key, he_value = value, he_state = HM_OCCUPIED\<rparr>"

lemma insert_step:
  fixes v :: ptr
  assumes ok: "table_ok bs" and d: "d < length bs"
    and free: "\<not> hashmap_entry_is_occupied (bs ! probe_pos bs key d)"
    and path: "\<And>j. j < d \<Longrightarrow> in_use (bs ! probe_pos bs key j)"
    and new: "table_map bs key = None"
  defines "bs' \<equiv> bs[probe_pos bs key d := occupied_entry key v]"
  shows "table_ok bs'" "table_map bs' = (table_map bs)(key \<mapsto> v)"
    "count_occupied bs' = count_occupied bs + 1"
    "count_in_use bs' = count_in_use bs + (if in_use (bs ! probe_pos bs key d) then 0 else 1)"
proof -
  let ?e = "occupied_entry key v" and ?t = "probe_pos bs key d"
  have t: "?t < length bs" using d by (intro probe_pos_less) linarith
  have e: "hashmap_entry_is_occupied ?e" "in_use ?e" by (simp_all add: hm_simps)
  have "reachable_entry bs' ?t" unfolding bs'_def using reachable_at [of d bs ?e] d path e by simp
  then show ok': "table_ok bs'"
    unfolding bs'_def using ok t e new
    by (intro table_ok_update) (auto simp: table_map_eq_None)
  show "table_map bs' = (table_map bs)(key \<mapsto> v)"
    unfolding bs'_def using table_map_store [OF ok' [unfolded bs'_def] t e(1)] free by simp
  show "count_occupied bs' = count_occupied bs + 1"
    "count_in_use bs' = count_in_use bs + (if in_use (bs ! ?t) then 0 else 1)"
    unfolding bs'_def using counts_update [OF t, of ?e] e free by (simp_all split: if_splits)
qed

lemma overwrite_step:
  fixes v :: ptr
  assumes ok: "table_ok bs" and t: "t < length bs" "holds_key key (bs ! t)"
  defines "bs' \<equiv> bs[t := (bs ! t)\<lparr>he_value := v\<rparr>]"
  shows "table_ok bs'" "table_map bs' = (table_map bs)(key \<mapsto> v)"
    "count_occupied bs' = count_occupied bs" "count_in_use bs' = count_in_use bs"
proof -
  let ?e = "(bs ! t)\<lparr>he_value := v\<rparr>"
  have e: "hashmap_entry_is_occupied ?e" "in_use ?e" "he_key ?e = key"
    "hashmap_entry_is_occupied (bs ! t)" "in_use (bs ! t)" "he_key (bs ! t) = key"
    using t by (simp_all add: hm_simps)
  have "reachable_entry bs t" using ok t e by (simp add: table_ok_def)
  then have "reachable_entry bs' t"
    unfolding reachable_entry_def bs'_def using t(1) in_use_update [of bs _ t ?e] e by auto
  moreover have "\<not> holds_key (he_key ?e) (bs ! i)" if "i < length bs" "i \<noteq> t" for i
    unfolding e(3) using holds_key_unique [OF ok that(1) t(1) _ t(2)] that(2) by blast
  ultimately show ok': "table_ok bs'"
    unfolding bs'_def using ok t(1) e(2) by (intro table_ok_update)
  show "table_map bs' = (table_map bs)(key \<mapsto> v)"
    unfolding bs'_def using table_map_store [OF ok' [unfolded bs'_def] t(1) e(1)] e by simp
  show "count_occupied bs' = count_occupied bs" "count_in_use bs' = count_in_use bs"
    unfolding bs'_def using counts_update [OF t(1), of ?e] e by simp_all
qed

text \<open>A fresh table has no tombstones; inserting into it takes the first bucket not occupied.\<close>

definition no_tombs :: "hashmap_entry list \<Rightarrow> bool" where
  "no_tombs bs = (\<forall>e \<in> set bs. he_state e \<noteq> HM_TOMBSTONE)"

lemma no_tombs_zero: "no_tombs (replicate n zero_entry)"
  by (simp add: no_tombs_def zero_entry_def)

lemma no_tombs_occupied:
  "no_tombs bs \<Longrightarrow> i < length bs \<Longrightarrow> hashmap_entry_is_occupied (bs ! i) = in_use (bs ! i)"
  unfolding no_tombs_def by (cases "he_state (bs ! i)") (auto simp: hm_simps dest: nth_mem)

lemma insert_rehashed_step:
  assumes ok: "table_ok bs" "sized bs n" "no_tombs bs" and room: "count_occupied bs < length bs"
    and new: "table_map bs key = None"
  shows "\<exists>bs'. hashmap_insert_rehashed bs n key value = Some bs' \<and> table_ok bs' \<and> sized bs' n \<and>
    no_tombs bs' \<and> length bs' = length bs \<and> count_occupied bs' = count_occupied bs + 1 \<and>
    table_map bs' = (table_map bs)(key \<mapsto> value)"
proof -
  have "\<exists>i < length bs. \<not> hashmap_entry_is_occupied (bs ! i)"
    using room unfolding count_occupied_def
    by (metis filter_id_conv in_set_conv_nth less_irrefl)
  then obtain i where "i < length bs" "\<not> hashmap_entry_is_occupied (bs ! i)" by blast
  then obtain d where d: "d < length bs" "\<not> hashmap_entry_is_occupied (bs ! probe_pos bs key d)"
    "\<And>j. j < d \<Longrightarrow> hashmap_entry_is_occupied (bs ! probe_pos bs key j)"
    using first_on_probe [of i bs "\<lambda>e. \<not> hashmap_entry_is_occupied e" key] by metis
  let ?t = "probe_pos bs key d"
  have t: "?t < length bs" using d by (intro probe_pos_less) linarith
  obtain b where "unat b = ?t" "rehash_probe bs n (hashmap_bucket_index (hashmap_hash_u64 key) n) = Some b"
    using rehash_probe_at [OF ok(2) unat_home [OF ok(2)] _ d(2,3)] by auto
  then have "hashmap_insert_rehashed bs n key value = Some (bs[?t := occupied_entry key value])"
    using t by (simp add: hashmap_insert_rehashed_def)
  moreover have "no_tombs (bs[?t := occupied_entry key value])"
    using ok(3) unfolding no_tombs_def by (auto dest: set_update_subset_insert [THEN subsetD])
  moreover have "in_use (bs ! probe_pos bs key j)" if "j < d" for j
    using d(3) [OF that] by (simp add: hm_simps)
  ultimately show ?thesis using insert_step [OF ok(1) d(1,2) _ new] ok by simp
qed

definition keys_apart :: "hashmap_entry list \<Rightarrow> bool" where
  "keys_apart = sorted_wrt (\<lambda>e f. hashmap_entry_is_occupied e \<and> hashmap_entry_is_occupied f \<longrightarrow>
     he_key e \<noteq> he_key f)"

lemma table_ok_keys_apart:
  assumes "table_ok bs" shows "keys_apart bs"
  unfolding keys_apart_def sorted_wrt_iff_nth_less
proof (intro allI impI notI)
  fix i j assume ij: "i < j" "j < length bs" "he_key (bs ! i) = he_key (bs ! j)"
    "hashmap_entry_is_occupied (bs ! i) \<and> hashmap_entry_is_occupied (bs ! j)"
  then have "i = j"
    using holds_key_unique [OF assms, of i j "he_key (bs ! i)"] by (simp add: hm_simps)
  then show False using ij by simp
qed

lemma keys_apart_Cons:
  "keys_apart (e # es) \<longleftrightarrow>
     (hashmap_entry_is_occupied e \<longrightarrow> table_map es (he_key e) = None) \<and> keys_apart es"
  unfolding keys_apart_def table_map_def by (auto simp: find_None_iff hm_simps)

lemma table_map_Cons:
  "table_map (e # es) =
     (if hashmap_entry_is_occupied e then (table_map es)(he_key e \<mapsto> he_value e) else table_map es)"
  by (auto simp: table_map_def hm_simps fun_eq_iff)

lemma rehash_loop_step:
  assumes "table_ok bs" "sized bs n" "no_tombs bs"
    and "keys_apart old" "dom (table_map old) \<inter> dom (table_map bs) = {}"
    and "count_occupied old + count_occupied bs \<le> length bs"
  shows "\<exists>bs'. rehash_loop bs n old = Some bs' \<and> table_ok bs' \<and> sized bs' n \<and> no_tombs bs' \<and>
    length bs' = length bs \<and> count_occupied bs' = count_occupied old + count_occupied bs \<and>
    table_map bs' = table_map bs ++ table_map old"
  using assms
proof (induction old arbitrary: bs)
  case Nil
  then show ?case by (simp add: count_occupied_def table_map_def map_add_def)
next
  case (Cons e old)
  show ?case
  proof (cases "hashmap_entry_is_occupied e")
    case False
    then show ?thesis
      using Cons by (simp add: table_map_Cons keys_apart_Cons count_occupied_def)
  next
    case True
    have new: "table_map bs (he_key e) = None" "table_map old (he_key e) = None"
      using Cons.prems(4,5) True by (auto simp: table_map_Cons keys_apart_Cons)
    have room: "count_occupied bs < length bs"
      using Cons.prems(6) True by (simp add: count_occupied_def)
    obtain bs1 where bs1: "hashmap_insert_rehashed bs n (he_key e) (he_value e) = Some bs1"
      "table_ok bs1" "sized bs1 n" "no_tombs bs1" "length bs1 = length bs"
      "count_occupied bs1 = count_occupied bs + 1"
      "table_map bs1 = (table_map bs)(he_key e \<mapsto> he_value e)"
      using insert_rehashed_step [OF Cons.prems(1-3) room new(1)] by blast
    have "dom (table_map old) \<inter> dom (table_map bs1) = {}"
      using Cons.prems(5) new unfolding bs1(7) table_map_Cons if_P [OF True] dom_fun_upd by auto
    moreover have "count_occupied old + count_occupied bs1 \<le> length bs1"
      using Cons.prems(6) True bs1 by (simp add: count_occupied_def)
    ultimately obtain bs' where bs': "rehash_loop bs1 n old = Some bs'" "table_ok bs'" "sized bs' n"
      "no_tombs bs'" "length bs' = length bs1"
      "count_occupied bs' = count_occupied old + count_occupied bs1"
      "table_map bs' = table_map bs1 ++ table_map old"
      using Cons.IH [OF bs1(2-4)] Cons.prems(4) by (auto simp: keys_apart_Cons)
    have "table_map bs' = table_map bs ++ table_map (e # old)"
      using True new unfolding bs'(7) bs1(7)
      by (auto simp: table_map_Cons map_add_def fun_eq_iff split: option.splits)
    then show ?thesis using True bs1 bs' by (simp add: count_occupied_def)
  qed
qed

subsection \<open>Growing and rebuilding the table\<close>

lemma next_capacity_loop_pow2:
  assumes "i \<le> 63" "unat capacity \<le> 2 ^ 63" "i = 4 \<or> 2 ^ (i - 1) < unat capacity" "4 \<le> i"
  shows "\<exists>k. i \<le> k \<and> k \<le> 63 \<and> next_capacity_loop (2 ^ i) capacity = Some (2 ^ k) \<and>
     unat capacity \<le> 2 ^ k \<and> (k = 4 \<or> 2 ^ (k - 1) < unat capacity)"
  using assms
proof (induction "63 - i" arbitrary: i)
  case 0
  then have "i = 63" by simp
  then show ?case
    using 0 unat_pow2 [of 63]
    by (intro exI [of _ 63], subst next_capacity_loop.simps) (simp add: word_less_iff_unat)
next
  case (Suc x)
  show ?case
  proof (cases "unat capacity \<le> 2 ^ i")
    case True
    then show ?thesis
      using Suc unat_pow2 [of i]
      by (intro exI [of _ i], subst next_capacity_loop.simps) (simp add: word_less_iff_unat)
  next
    case False
    then have "next_capacity_loop (2 ^ i) capacity = next_capacity_loop (2 ^ Suc i) capacity"
      using Suc unat_pow2 [of i]
      by (subst next_capacity_loop.simps) (simp add: word_less_iff_unat push_bit_eq_mult mult.commute)
    moreover have "\<exists>k. Suc i \<le> k \<and> k \<le> 63 \<and>
        next_capacity_loop (2 ^ Suc i) capacity = Some (2 ^ k) \<and>
        unat capacity \<le> 2 ^ k \<and> (k = 4 \<or> 2 ^ (k - 1) < unat capacity)"
      by (rule Suc(1)) (use Suc(2-) False in simp_all)
    ultimately show ?thesis using Suc_leD by metis
  qed
qed

lemma next_capacity_pow2:
  assumes "unat capacity \<le> 2 ^ 63"
  shows "\<exists>k. 4 \<le> k \<and> k \<le> 63 \<and> hashmap_next_capacity capacity = Some (2 ^ k) \<and>
     unat capacity \<le> 2 ^ k \<and> (k = 4 \<or> 2 ^ (k - 1) < unat capacity)"
  using next_capacity_loop_pow2 [of 4 capacity] assms unfolding hashmap_next_capacity_def by simp

text \<open>
  What the map relies on from \<open>calloc\<close>: it never returns a block whose size, 24 bytes a
  bucket, exceeds the address space.
\<close>

definition calloc_bounded :: "(size_t \<Rightarrow> bool) \<Rightarrow> bool" where
  "calloc_bounded calloc_ok = (\<forall>n. calloc_ok n \<longrightarrow> unat n * 24 < 2 ^ 64)"

lemma calloc_bounded_pow2:
  assumes "calloc_bounded calloc_ok" "calloc_ok (2 ^ k)" "k < 64"
  shows "k \<le> 59"
proof (rule ccontr)
  assume "\<not> k \<le> 59"
  then have "2 ^ 60 \<le> (2::nat) ^ k" by (intro power_increasing) auto
  then have "2 ^ 64 \<le> 2 ^ k * (24 :: nat)" by simp
  then show False using assms unat_pow2 [of k] unfolding calloc_bounded_def
    by (metis not_less)
qed

lemma old_entries_inv:
  assumes "hashmap_inv m"
  obtains old where "old_entries m = Some old" "keys_apart old" "table_map old = hm_map m"
    "count_occupied old = unat (hm_size m)"
  using assms
proof (cases rule: hashmap_invE)
  case none
  then show thesis
    by (intro that [of "[]"])
      (auto simp: old_entries_def keys_apart_def hm_map_def count_occupied_def table_map_def)
next
  case (some bs)
  then show thesis
    by (intro that [of bs])
      (simp_all add: old_entries_def table_ok_keys_apart hm_map_def sized_def)
qed

lemma hashmap_rehash_spec:
  assumes inv: "hashmap_inv m" and ca: "calloc_bounded calloc_ok"
    and cap: "unat target \<le> 2 ^ 63" and room: "unat (hm_size m) * 10 < unat target * 8"
  shows "hashmap_rehash calloc_ok m target = Some (- ENOMEM, m) \<or>
    (\<exists>m'. hashmap_rehash calloc_ok m target = Some (0, m') \<and> hashmap_inv m' \<and>
       hm_map m' = hm_map m \<and> hm_size m' = hm_size m \<and> hm_used m' = hm_size m \<and>
       hm_buckets m' \<noteq> None \<and> unat target \<le> unat (hm_bucket_count m'))"
proof -
  obtain k where k: "4 \<le> k" "k \<le> 63" "hashmap_next_capacity target = Some (2 ^ k)"
    "unat target \<le> 2 ^ k"
    using next_capacity_pow2 [OF cap] by blast
  show ?thesis
  proof (cases "calloc_ok (2 ^ k)")
    case False
    then show ?thesis using k by (simp add: hashmap_rehash_def)
  next
    case True
    then have "k \<le> 59" using calloc_bounded_pow2 [OF ca True] k by simp
    then have n: "\<exists>j \<in> {4..59}. (2::nat) ^ k = 2 ^ j" "unat (2 ^ k :: u64) = 2 ^ k"
      using k by (auto simp: unat_pow2)
    obtain old where old: "old_entries m = Some old" "keys_apart old" "table_map old = hm_map m"
      "count_occupied old = unat (hm_size m)"
      using old_entries_inv [OF inv] .
    let ?z = "replicate (2 ^ k) zero_entry"
    have z: "table_ok ?z" "sized ?z (2 ^ k)" "no_tombs ?z"
      "dom (table_map old) \<inter> dom (table_map ?z) = {}"
      "count_occupied old + count_occupied ?z \<le> length ?z"
      using n old room k by (simp_all add: table_ok_zero sized_def no_tombs_zero)
    obtain bs where bs: "rehash_loop ?z (2 ^ k) old = Some bs" "table_ok bs" "no_tombs bs"
      "length bs = 2 ^ k" "count_occupied bs = unat (hm_size m)" "table_map bs = hm_map m"
      using rehash_loop_step [OF z(1-3) old(2) z(4,5)] old by auto
    have "filter in_use bs = filter hashmap_entry_is_occupied bs"
      using bs(3) by (intro filter_cong) (auto simp: no_tombs_def hm_simps intro: hm_state.exhaust)
    then have use: "count_in_use bs = unat (hm_size m)"
      using bs(5) by (simp add: count_in_use_def count_occupied_def)
    let ?m = "m\<lparr>hm_buckets := Some bs, hm_bucket_count := 2 ^ k, hm_used := hm_size m\<rparr>"
    have "hashmap_rehash calloc_ok m target = Some (0, ?m)"
      using True k old bs n by (simp add: hashmap_rehash_def)
    moreover have "hashmap_inv ?m"
      by (rule hashmap_invI [of _ bs]) (use bs n use room k in simp_all)
    ultimately show ?thesis using bs n k by (simp add: hm_map_def)
  qed
qed

lemma hashmap_init_eq:
  "hashmap_init calloc_ok m c =
     hashmap_rehash calloc_ok (hashmap_deinit m) (if c \<noteq> 0 then c else HASHMAP_MIN_CAPACITY)"
  by (simp add: hashmap_init_def hashmap_deinit_def)

lemma hashmap_deinit_inv: "hashmap_inv (hashmap_deinit m)" "hm_map (hashmap_deinit m) = Map.empty"
  "hm_size (hashmap_deinit m) = 0"
  by (auto simp: hashmap_deinit_def hashmap_inv_def hm_map_def)

text \<open>A map with a table, as \<open>hashmap_put\<close> has it before its load checks.\<close>

lemma put_init:
  assumes inv: "hashmap_inv m" and ca: "calloc_bounded calloc_ok"
  shows "\<exists>rc m'. (if hm_buckets m = None \<or> hm_bucket_count m = 0
                  then hashmap_init calloc_ok m HASHMAP_MIN_CAPACITY else Some (0, m)) = Some (rc, m') \<and>
     hashmap_inv m' \<and> hm_map m' = hm_map m \<and> (rc = - ENOMEM \<or> rc = 0 \<and> hm_buckets m' \<noteq> None)"
  using inv
proof (cases rule: hashmap_invE)
  case none
  have emp: "hm_map m = Map.empty" using none by (simp add: hm_map_def)
  have "unat (16 :: u64) \<le> 2 ^ 63" "unat (hm_size (hashmap_deinit m)) * 10 < unat (16 :: u64) * 8"
    by (simp_all add: hashmap_deinit_inv)
  then show ?thesis
    using hashmap_rehash_spec [OF hashmap_deinit_inv(1) ca, of 16 m] none emp
    by (auto simp: hashmap_init_eq hashmap_deinit_inv)
next
  case (some bs)
  then show ?thesis using inv by auto
qed

lemma should_grow_iff:
  assumes "sized bs (hm_bucket_count m)" "unat (hm_used m) = count_in_use bs"
  shows "hashmap_should_grow m \<longleftrightarrow> length bs * 8 \<le> (count_in_use bs + 1) * 10"
proof -
  obtain k where k: "k \<le> 59" "length bs = 2 ^ k" "length bs = unat (hm_bucket_count m)"
    using assms(1) unfolding sized_def by auto
  have small: "length bs \<le> 2 ^ 59"
    unfolding k(2) using k(1) power_increasing [of k 59 "2::nat"] by simp
  have used: "unat (hm_used m) \<le> 2 ^ 59" using assms(2) count_in_use_le [of bs] small by simp
  have 1: "unat ((hm_used m + 1) * 10) = (count_in_use bs + 1) * 10"
    using used assms(2) unat_inc_u64 [of "hm_used m"] by (simp add: unat_word_ariths)
  have 2: "unat (hm_bucket_count m * 8) = length bs * 8"
    using small k(3) by (simp add: unat_word_ariths)
  show ?thesis unfolding hashmap_should_grow_def word_le_iff_unat 1 2 by simp
qed

lemma unat_double: "unat (x :: u64) < 2 ^ 63 \<Longrightarrow> unat (push_bit 1 x) = 2 * unat x"
  by (simp add: push_bit_eq_mult unat_word_ariths)

lemma rehash_room:
  assumes "hashmap_inv m" "hm_buckets m = Some bs" "calloc_bounded calloc_ok"
    and c: "unat c \<le> 2 ^ 63" "(count_occupied bs + 1) * 10 < unat c * 8"
  shows "\<exists>rc m'. hashmap_rehash calloc_ok m c = Some (rc, m') \<and> hashmap_inv m' \<and>
    hm_map m' = hm_map m \<and> (rc = - ENOMEM \<or> rc = 0 \<and> (\<exists>bs'. hm_buckets m' = Some bs' \<and>
      (count_in_use bs' + 1) * 10 < length bs' * 8))"
proof -
  have "unat (hm_size m) * 10 < unat c * 8" using c(2) hashmap_invD [OF assms(1,2)] by simp
  from hashmap_rehash_spec [OF assms(1,3) c(1) this] show ?thesis
  proof (elim disjE exE conjE)
    fix m' assume m': "hashmap_rehash calloc_ok m c = Some (0, m')" "hashmap_inv m'"
      "hm_map m' = hm_map m" "hm_used m' = hm_size m" "hm_buckets m' \<noteq> None"
      "unat c \<le> unat (hm_bucket_count m')"
    then obtain bs' where bs': "hm_buckets m' = Some bs'" by auto
    have "(count_in_use bs' + 1) * 10 < length bs' * 8"
      using hashmap_invD [OF m'(2) bs'] hashmap_invD [OF assms(1,2)] m'(4,6) c(2)
      by (simp add: sized_def)
    then show ?thesis using m' bs' by simp
  qed (use assms in simp)
qed

lemma put_prepare_spec:
  assumes inv: "hashmap_inv m" and ca: "calloc_bounded calloc_ok"
  shows "\<exists>rc m'. put_prepare calloc_ok m = Some (rc, m') \<and> hashmap_inv m' \<and> hm_map m' = hm_map m \<and>
     (rc = - ENOMEM \<or> rc = 0 \<and> (\<exists>bs. hm_buckets m' = Some bs \<and> (count_in_use bs + 1) * 10 < length bs * 8))"
proof -
  obtain rc m1 where m1: "(if hm_buckets m = None \<or> hm_bucket_count m = 0
      then hashmap_init calloc_ok m HASHMAP_MIN_CAPACITY else Some (0, m)) = Some (rc, m1)"
    "hashmap_inv m1" "hm_map m1 = hm_map m" "rc = - ENOMEM \<or> rc = 0 \<and> hm_buckets m1 \<noteq> None"
    using put_init [OF inv ca] by blast
  show ?thesis
  proof (cases "rc = - ENOMEM")
    case True
    then show ?thesis using m1 by (simp add: put_prepare_def)
  next
    case False
    with m1 obtain bs where rc: "rc = 0" and bs: "hm_buckets m1 = Some bs" by auto
    have b: "table_ok bs" "sized bs (hm_bucket_count m1)" "unat (hm_size m1) = count_occupied bs"
      "unat (hm_used m1) = count_in_use bs" "count_in_use bs * 10 < length bs * 8"
      using hashmap_invD [OF m1(2) bs] by simp_all
    then have lw: "length bs = unat (hm_bucket_count m1)" by (simp add: sized_def)
    obtain k where k: "4 \<le> k" "k \<le> 59" "length bs = 2 ^ k" using table_length [OF b(1)] .
    have len: "16 \<le> length bs" "length bs \<le> 2 ^ 59"
      unfolding k(3) using k power_increasing [of 4 k "2::nat"] power_increasing [of k 59 "2::nat"]
      by simp_all
    have eq: "put_prepare calloc_ok m =
      (if hashmap_should_grow m1 then hashmap_rehash calloc_ok m1 (push_bit 1 (hm_bucket_count m1))
       else if hashmap_should_rebuild m1 then hashmap_rehash calloc_ok m1 (hm_bucket_count m1)
       else Some (0, m1))"
      using m1(1) rc by (simp add: put_prepare_def)
    note reh = rehash_room [OF m1(2) bs ca]
    have "count_occupied bs \<le> count_in_use bs" by (rule count_occupied_le)
    then show ?thesis
      using reh [of "push_bit 1 (hm_bucket_count m1)"] reh [of "hm_bucket_count m1"] b len lw bs m1(2,3)
        should_grow_iff [OF b(2,4)] unat_double [of "hm_bucket_count m1"]
      unfolding eq by (simp split: if_split)
  qed
qed

subsection \<open>\<open>hashmap_put\<close>\<close>

text \<open>The probe of \<open>hashmap_put\<close> in a table that has room for one more entry.\<close>

lemma put_miss:
  assumes m: "hashmap_inv m" "hm_buckets m = Some bs" "(count_in_use bs + 1) * 10 < length bs * 8"
    and b: "unat b = probe_pos bs key d" "d < length bs" "\<not> in_use (bs ! probe_pos bs key d)"
    and ft: "\<And>t. ft = Some t \<Longrightarrow>
      \<exists>dt < d. unat t = probe_pos bs key dt \<and> he_state (bs ! probe_pos bs key dt) = HM_TOMBSTONE"
    and path: "\<And>i. i < d \<Longrightarrow> in_use (bs ! probe_pos bs key i) \<and>
                 \<not> holds_key key (bs ! probe_pos bs key i)"
  shows "\<exists>m'. put_probe m bs key v ft b = Some (0, m') \<and> hashmap_inv m' \<and>
           hm_map m' = (hm_map m)(key \<mapsto> v)"
proof -
  note inv = hashmap_invD [OF m(1,2)]
  have new: "table_map bs key = None"
    using probe_decides [OF inv(1) b(3)] path by blast
  define target where "target = (case ft of Some t \<Rightarrow> t | None \<Rightarrow> b)"
  obtain dt where dt: "dt \<le> d" "unat target = probe_pos bs key dt"
    "\<not> hashmap_entry_is_occupied (bs ! probe_pos bs key dt)"
    "in_use (bs ! probe_pos bs key dt) \<longleftrightarrow> target \<noteq> b"
  proof (cases ft)
    case None
    then show thesis using that [of d] b by (simp add: target_def hm_simps)
  next
    case (Some t)
    then obtain dt where dt: "dt < d" "unat t = probe_pos bs key dt"
      "he_state (bs ! probe_pos bs key dt) = HM_TOMBSTONE"
      using ft by blast
    then have "t \<noteq> b" using b by (auto simp: hm_simps)
    then show thesis using that [of dt] dt Some by (simp add: target_def hm_simps)
  qed
  define bs' where "bs' = bs[probe_pos bs key dt := occupied_entry key v]"
  have t: "probe_pos bs key dt < length bs" "probe_pos bs key d < length bs"
    using probe_pos_less [OF sized_pos [OF inv(2)]] by blast+
  define m' where "m' = m\<lparr>hm_buckets := Some bs', hm_size := hm_size m + 1,
    hm_used := (if target = b then hm_used m + 1 else hm_used m)\<rparr>"
  have res: "put_probe m bs key v ft b = Some (0, m')"
    using b dt(2) t unfolding m'_def bs'_def target_def
    by (subst put_probe.simps) (simp add: hm_simps Let_def)
  have "dt < length bs" "\<And>j. j < dt \<Longrightarrow> in_use (bs ! probe_pos bs key j)"
    using dt(1) b path by auto
  note step = insert_step [OF inv(1) this(1) dt(3) this(2) new, of v, folded bs'_def]
  have "unat (hm_size m + 1) = count_occupied bs + 1" "unat (hm_used m + 1) = count_in_use bs + 1"
    using hm_size_small [OF inv(3) _ inv(2)] hm_size_small [OF inv(4,5,2)] inv(5)
      count_occupied_le [of bs] by simp_all
  then have "hashmap_inv m'"
    using step inv m(3) dt(4) t
    by (intro hashmap_invI [of _ bs']) (simp_all add: m'_def bs'_def sized_def)
  moreover have "hm_map m' = (hm_map m)(key \<mapsto> v)" using step m(2) by (simp add: hm_map_def m'_def)
  ultimately show ?thesis using res by blast
qed

lemma put_hit:
  assumes m: "hashmap_inv m" "hm_buckets m = Some bs"
    and b: "unat b < length bs" "holds_key key (bs ! unat b)"
  shows "\<exists>m'. put_probe m bs key v ft b = Some (0, m') \<and> hashmap_inv m' \<and>
           hm_map m' = (hm_map m)(key \<mapsto> v)"
proof -
  note inv = hashmap_invD [OF m(1,2)]
  define bs' where "bs' = bs[unat b := (bs ! unat b)\<lparr>he_value := v\<rparr>]"
  note step = overwrite_step [OF inv(1) b, of v, folded bs'_def]
  have res: "put_probe m bs key v ft b = Some (0, m\<lparr>hm_buckets := Some bs'\<rparr>)"
    using b unfolding bs'_def by (subst put_probe.simps) (simp add: hm_simps)
  have "hashmap_inv (m\<lparr>hm_buckets := Some bs'\<rparr>)"
    using step inv by (intro hashmap_invI [of _ bs']) (simp_all add: bs'_def sized_def)
  then show ?thesis using res step m(2) by (simp add: hm_map_def)
qed

lemma hashmap_put_map:
  assumes inv: "hashmap_inv m" and ca: "calloc_bounded calloc_ok"
  shows "\<exists>rc m'. hashmap_put calloc_ok m key v = Some (rc, m') \<and> hashmap_inv m' \<and>
     (rc = 0 \<and> hm_map m' = (hm_map m)(key \<mapsto> v) \<or> rc = - ENOMEM \<and> hm_map m' = hm_map m)"
proof -
  obtain rc m1 where m1: "put_prepare calloc_ok m = Some (rc, m1)" "hashmap_inv m1"
    "hm_map m1 = hm_map m" "rc = - ENOMEM \<or> rc = 0 \<and> (\<exists>bs. hm_buckets m1 = Some bs \<and>
      (count_in_use bs + 1) * 10 < length bs * 8)"
    using put_prepare_spec [OF inv ca] by blast
  show ?thesis
  proof (cases "rc = - ENOMEM")
    case True
    then show ?thesis using m1 by (simp add: hashmap_put_def)
  next
    case False
    with m1 obtain bs where bs: "rc = 0" "hm_buckets m1 = Some bs"
      "(count_in_use bs + 1) * 10 < length bs * 8" by auto
    note inv1 = hashmap_invD [OF m1(2) bs(2)]
    obtain d where d: "d < length bs"
      "\<not> in_use (bs ! probe_pos bs key d) \<or> holds_key key (bs ! probe_pos bs key d)"
      "\<And>i. i < d \<Longrightarrow> in_use (bs ! probe_pos bs key i) \<and> \<not> holds_key key (bs ! probe_pos bs key i)"
      using probe_stops [OF inv1(5)] by metis
    obtain b ft where b: "unat b = probe_pos bs key d"
      "hashmap_put calloc_ok m key v = put_probe m1 bs key v ft b"
      "\<And>t. ft = Some t \<Longrightarrow> \<exists>dt < d. unat t = probe_pos bs key dt \<and>
         he_state (bs ! probe_pos bs key dt) = HM_TOMBSTONE"
      using put_probe_at [OF inv1(2) unat_home [OF inv1(2)] _ _ d(3), of d None v] m1(1) bs(1,2)
      by (auto simp: hashmap_put_def)
    have t: "unat b < length bs" unfolding b by (rule probe_pos_less [OF sized_pos [OF inv1(2)]])
    show ?thesis
    proof (cases "in_use (bs ! unat b)")
      case False
      then show ?thesis
        using put_miss [OF m1(2) bs(2,3) b(1) d(1) _ b(3) d(3), of ft v] b(1,2) m1(3) by auto
    next
      case True
      then have "holds_key key (bs ! unat b)" using d(2) b(1) by simp
      then show ?thesis using put_hit [OF m1(2) bs(2) t, of key v ft] b(2) m1(3) by auto
    qed
  qed
qed

subsection \<open>The interface of a key-value store\<close>

text \<open>
  What a user of the map relies on.  \<open>inv\<close> is the invariant, \<open>amap\<close> the map a store stands
  for, \<open>alloc_ok\<close> the assumption on the allocator an operation runs with.  An operation that
  fails leaves the contents unchanged.
\<close>

datatype ('a, 'k) map_op = Op_put 'a 'k ptr | Op_remove 'k

fun run_ops ::
  "('a \<Rightarrow> 'm \<Rightarrow> 'k \<Rightarrow> ptr \<Rightarrow> (int \<times> 'm) option) \<Rightarrow> ('m \<Rightarrow> 'k \<Rightarrow> (ptr \<times> 'm) option) \<Rightarrow>
   'm \<Rightarrow> ('a, 'k) map_op list \<Rightarrow> ('m \<times> bool list) option" where
  "run_ops put remove m [] = Some (m, [])"
| "run_ops put remove m (Op_put a key v # ops) =
     do { (rc, m) \<leftarrow> put a m key v;
          (m, rs) \<leftarrow> run_ops put remove m ops;
          Some (m, (rc = 0) # rs) }"
| "run_ops put remove m (Op_remove key # ops) =
     do { (_, m) \<leftarrow> remove m key;
          (m, rs) \<leftarrow> run_ops put remove m ops;
          Some (m, True # rs) }"

text \<open>The same history on a mathematical map, counting only the insertions that succeeded.\<close>

fun replay :: "('k \<Rightarrow> ptr option) \<Rightarrow> (('a, 'k) map_op \<times> bool) list \<Rightarrow> 'k \<Rightarrow> ptr option" where
  "replay f [] = f"
| "replay f ((Op_put a key v, ok) # h) = replay (if ok then f(key \<mapsto> v) else f) h"
| "replay f ((Op_remove key, ok) # h) = replay (f(key := None)) h"

fun op_alloc :: "('a, 'k) map_op \<Rightarrow> 'a list" where
  "op_alloc (Op_put a key v) = [a]"
| "op_alloc (Op_remove key) = []"

locale kv_store =
  fixes inv :: "'m \<Rightarrow> bool"
    and amap :: "'m \<Rightarrow> 'k \<Rightarrow> ptr option"
    and alloc_ok :: "'a \<Rightarrow> bool"
    and get :: "'m \<Rightarrow> 'k \<Rightarrow> ptr option"
    and put :: "'a \<Rightarrow> 'm \<Rightarrow> 'k \<Rightarrow> ptr \<Rightarrow> (int \<times> 'm) option"
    and remove :: "'m \<Rightarrow> 'k \<Rightarrow> (ptr \<times> 'm) option"
  assumes get_amap: "inv m \<Longrightarrow> get m key = Some (case amap m key of None \<Rightarrow> 0 | Some v \<Rightarrow> v)"
    and put_amap: "inv m \<Longrightarrow> alloc_ok a \<Longrightarrow>
      \<exists>rc m'. put a m key v = Some (rc, m') \<and> inv m' \<and>
        (rc = 0 \<and> amap m' = (amap m)(key \<mapsto> v) \<or> rc = - ENOMEM \<and> amap m' = amap m)"
    and remove_amap: "inv m \<Longrightarrow>
      \<exists>m'. remove m key = Some (case amap m key of None \<Rightarrow> 0 | Some v \<Rightarrow> v, m') \<and>
        inv m' \<and> amap m' = (amap m)(key := None)"
begin

lemma put_then_get:
  assumes "inv m" "alloc_ok a"
  shows "\<exists>rc m'. put a m key v = Some (rc, m') \<and> inv m' \<and>
    (rc = 0 \<and> get m' key = Some v \<and> (\<forall>k. k \<noteq> key \<longrightarrow> get m' k = get m k) \<or>
     rc = - ENOMEM \<and> (\<forall>k. get m' k = get m k))"
  using put_amap [OF assms, of key v] assms(1) by (auto simp: get_amap)

lemma remove_then_get:
  assumes "inv m"
  shows "\<exists>v m'. get m key = Some v \<and> remove m key = Some (v, m') \<and> inv m' \<and>
    get m' key = Some 0 \<and> (\<forall>k. k \<noteq> key \<longrightarrow> get m' k = get m k)"
  using remove_amap [OF assms, of key] assms by (auto simp: get_amap)

lemma run_ops_replay:
  assumes "inv m" "\<forall>a \<in> set (concat (map op_alloc ops)). alloc_ok a"
  shows "\<exists>m' rs. run_ops put remove m ops = Some (m', rs) \<and> length rs = length ops \<and> inv m' \<and>
    amap m' = replay (amap m) (zip ops rs)"
  using assms
proof (induction ops arbitrary: m)
  case Nil
  then show ?case by simp
next
  case (Cons op ops)
  show ?case
  proof (cases op)
    case (Op_put a key v)
    then obtain rc m1 where m1: "put a m key v = Some (rc, m1)" "inv m1"
      "rc = 0 \<and> amap m1 = (amap m)(key \<mapsto> v) \<or> rc = - ENOMEM \<and> amap m1 = amap m"
      using put_amap [of m a key v] Cons.prems by auto
    then show ?thesis using Cons.IH [OF m1(2)] Cons.prems(2) Op_put by fastforce
  next
    case (Op_remove key)
    obtain v m1 where m1: "remove m key = Some (v, m1)" "inv m1" "amap m1 = (amap m)(key := None)"
      using remove_amap [OF Cons.prems(1), of key] by auto
    then show ?thesis using Cons.IH [OF m1(2)] Cons.prems(2) Op_remove by fastforce
  qed
qed

end

interpretation hm: kv_store hashmap_inv hm_map calloc_bounded hashmap_get hashmap_put hashmap_remove
  by unfold_locales (rule hashmap_get_map hashmap_put_map hashmap_remove_map; assumption)+

lemma HASHMAP_INIT_inv: "hashmap_inv HASHMAP_INIT" "hm_map HASHMAP_INIT = Map.empty"
  by (auto simp: HASHMAP_INIT_def hashmap_inv_def hm_map_def)

lemma page_calloc_bounded: "calloc_bounded (\<lambda>n. n \<le> 64)"
proof -
  have "unat n * 24 < 2 ^ 64" if "n \<le> 64" for n :: size_t
    using that by (simp add: word_le_iff_unat)
  then show ?thesis unfolding calloc_bounded_def by blast
qed

text \<open>
  C8.  Insertion into a map always returns.  Success makes the key read back the value and leaves
  every other key alone; failure is \<open>-ENOMEM\<close> and changes no lookup.  The invariant (counters,
  probe paths, load below eight tenths) is kept either way.
\<close>

theorem hashmap_put_get:
  assumes "hashmap_inv m" "calloc_bounded calloc_ok"
  shows "\<exists>rc m'. hashmap_put calloc_ok m key v = Some (rc, m') \<and> hashmap_inv m' \<and>
    (rc = 0 \<and> hashmap_get m' key = Some v \<and>
       (\<forall>k. k \<noteq> key \<longrightarrow> hashmap_get m' k = hashmap_get m k) \<or>
     rc = - ENOMEM \<and> (\<forall>k. hashmap_get m' k = hashmap_get m k))"
  using assms by (rule hm.put_then_get)

lemma sample_put: "map_option fst (hashmap_put (\<lambda>n. n \<le> 64) HASHMAP_INIT 5 7) = Some 0"
  by code_simp

theorem hashmap_put_get_witness:
  "\<exists>m'. hashmap_put (\<lambda>n. n \<le> 64) HASHMAP_INIT 5 7 = Some (0, m') \<and> hashmap_inv m' \<and> hashmap_get m' 5 = Some 7 \<and>
    (\<forall>k. k \<noteq> 5 \<longrightarrow> hashmap_get m' k = hashmap_get HASHMAP_INIT k)"
  using hashmap_put_get [OF HASHMAP_INIT_inv(1) page_calloc_bounded, of 5 7] sample_put by auto

text \<open>
  C9.  Removal always returns what a lookup of the key would have returned (\<open>NULL\<close> if it is
  absent); afterwards the key is absent and every other key reads the same value.
\<close>

theorem hashmap_remove_get:
  assumes "hashmap_inv m"
  shows "\<exists>v m'. hashmap_get m key = Some v \<and> hashmap_remove m key = Some (v, m') \<and>
    hashmap_inv m' \<and> hashmap_get m' key = Some 0 \<and>
    (\<forall>k. k \<noteq> key \<longrightarrow> hashmap_get m' k = hashmap_get m k)"
  using assms by (rule hm.remove_then_get)

theorem hashmap_remove_get_witness:
  "\<exists>m m'. hashmap_put (\<lambda>n. n \<le> 64) HASHMAP_INIT 5 7 = Some (0, m) \<and> hashmap_remove m 5 = Some (7, m') \<and>
    hashmap_get m' 5 = Some 0"
proof -
  obtain m where m: "hashmap_put (\<lambda>n. n \<le> 64) HASHMAP_INIT 5 7 = Some (0, m)" "hashmap_inv m" "hashmap_get m 5 = Some 7"
    using hm.put_then_get [OF HASHMAP_INIT_inv(1) page_calloc_bounded, of 5 7] sample_put by auto
  then show ?thesis using hashmap_remove_get [OF m(2), of 5] by auto
qed

lemma sample_history:
  "map_option snd (run_ops hashmap_put hashmap_remove HASHMAP_INIT
     [Op_put (\<lambda>n. n \<le> 64) 5 7, Op_remove 5, Op_put (\<lambda>n. n \<le> 64) 9 3]) = Some [True, True, True]"
  by code_simp

text \<open>
  C10.  After any history of insertions and removals from \<open>HASHMAP_INIT\<close>, with the allocator
  failing or not at each insertion, all operations have returned and every lookup returns what the
  same history leaves in a mathematical map.
\<close>

theorem hashmap_history:
  assumes "\<forall>a \<in> set (concat (map op_alloc ops)). calloc_bounded a"
  shows "\<exists>m rs. run_ops hashmap_put hashmap_remove HASHMAP_INIT ops = Some (m, rs) \<and>
    length rs = length ops \<and>
    (\<forall>key. hashmap_get m key =
       Some (case replay (\<lambda>k. None) (zip ops rs) key of None \<Rightarrow> 0 | Some v \<Rightarrow> v))"
proof -
  obtain m rs where m: "run_ops hashmap_put hashmap_remove HASHMAP_INIT ops = Some (m, rs)"
    "length rs = length ops" "hashmap_inv m" "hm_map m = replay (hm_map HASHMAP_INIT) (zip ops rs)"
    using hm.run_ops_replay [OF HASHMAP_INIT_inv(1) assms] by blast
  then show ?thesis using hashmap_get_map [OF m(3)] by (simp add: HASHMAP_INIT_inv)
qed

theorem hashmap_history_witness:
  "\<exists>m. run_ops hashmap_put hashmap_remove HASHMAP_INIT
     [Op_put (\<lambda>n. n \<le> 64) 5 7, Op_remove 5, Op_put (\<lambda>n. n \<le> 64) 9 3] =
       Some (m, [True, True, True]) \<and>
     hashmap_get m 9 = Some 3 \<and> hashmap_get m 5 = Some 0"
proof -
  let ?ops = "[Op_put (\<lambda>n :: size_t. n \<le> 64) 5 7, Op_remove 5, Op_put (\<lambda>n. n \<le> 64) 9 3]"
  obtain m rs where m: "run_ops hashmap_put hashmap_remove HASHMAP_INIT ?ops = Some (m, rs)"
    "\<forall>key. hashmap_get m key =
       Some (case replay (\<lambda>k. None) (zip ?ops rs) key of None \<Rightarrow> 0 | Some v \<Rightarrow> v)"
    using hashmap_history [of ?ops] page_calloc_bounded
    by (simp only: op_alloc.simps list.map concat.simps append_Nil append_Nil2 append_Cons
        list.set ball_simps) blast
  moreover have "rs = [True, True, True]" using sample_history m(1) by simp
  ultimately show ?thesis by simp
qed

end
