(* ===== verification/Skb.thy ===== *)
theory Skb
  imports Prelude
begin

text \<open>
  Socket buffers and the byte-limited queue of them (\<open>libs/skb_buff.c\<close>): the receive queues of
  UNIX-domain and netlink sockets.  Buffers live in a heap, a partial map from addresses in which 0
  (\<open>NULL\<close>) is never allocated; a buffer's data block is the list of its bytes.  \<open>calloc\<close> and
  \<open>malloc\<close> are arguments of \<open>skb_alloc\<close>: the address and the block they return.  Calls through
  the destructor pointer are recorded as a list of events.  Access to a freed or missing buffer and
  an access outside a data block are \<open>None\<close>.
\<close>

subsection \<open>State\<close>

record skb_buff =
  skb_next :: ptr
  skb_data :: "u8 list option"
  skb_len :: size_t
  skb_offset :: size_t
  skb_flags :: u32
  skb_priv :: ptr

record skb_queue =
  sq_head :: ptr
  sq_tail :: ptr
  sq_packet_count :: size_t
  sq_byte_count :: size_t
  sq_byte_limit :: size_t
  sq_priv_destructor :: ptr

type_synonym skb_heap = "ptr \<Rightarrow> skb_buff option"

text \<open>A call \<open>destructor(priv)\<close>.\<close>

datatype destructor_call = Destructor_call (dc_function: ptr) (dc_priv: ptr)

subsection \<open>Operations\<close>

definition skb_queue_init :: "size_t \<Rightarrow> ptr \<Rightarrow> skb_queue" where
  "skb_queue_init byte_limit priv_destructor =
     \<lparr>sq_head = 0, sq_tail = 0, sq_packet_count = 0, sq_byte_count = 0,
      sq_byte_limit = byte_limit, sq_priv_destructor = priv_destructor\<rparr>"

definition skb_queue_set_limit :: "skb_queue \<Rightarrow> size_t \<Rightarrow> skb_queue" where
  "skb_queue_set_limit q byte_limit = q\<lparr>sq_byte_limit := byte_limit\<rparr>"

definition skb_queue_bytes :: "skb_queue \<Rightarrow> size_t" where
  "skb_queue_bytes q = sq_byte_count q"

definition skb_queue_packets :: "skb_queue \<Rightarrow> size_t" where
  "skb_queue_packets q = sq_packet_count q"

definition skb_queue_space :: "skb_queue \<Rightarrow> size_t" where
  "skb_queue_space q =
     (if sq_byte_count q \<ge> sq_byte_limit q then 0 else sq_byte_limit q - sq_byte_count q)"

text \<open>
  \<open>skb_alloc len\<close> with \<open>skb\<close> the address \<open>calloc\<close> returned (0 if it failed) and \<open>block\<close> the
  bytes of the block \<open>malloc\<close> returned (\<open>None\<close> if it failed).
\<close>

definition skb_alloc ::
  "skb_heap \<Rightarrow> ptr \<Rightarrow> u8 list option \<Rightarrow> size_t \<Rightarrow> skb_heap \<times> ptr" where
  "skb_alloc h skb block len =
     (if skb = 0 then (h, 0)
      else
        let s = \<lparr>skb_next = 0, skb_data = None, skb_len = 0, skb_offset = 0, skb_flags = 0,
                 skb_priv = 0\<rparr>
        in if len > 0 \<and> block = None then (h, 0)
           else (h(skb \<mapsto> s\<lparr>skb_data := (if len > 0 then block else None), skb_len := len\<rparr>), skb))"

definition skb_free :: "skb_heap \<Rightarrow> ptr \<Rightarrow> ptr \<Rightarrow> (skb_heap \<times> destructor_call list) option" where
  "skb_free h skb priv_destructor =
     (if skb = 0 then Some (h, [])
      else do { s \<leftarrow> h skb;
                let calls = (if priv_destructor \<noteq> 0 \<and> skb_priv s \<noteq> 0
                             then [Destructor_call priv_destructor (skb_priv s)] else []);
                Some (h(skb := None), calls) })"

definition skb_unread_len :: "skb_buff \<Rightarrow> size_t" where
  "skb_unread_len s = (if skb_offset s \<ge> skb_len s then 0 else skb_len s - skb_offset s)"

text \<open>The bytes \<open>skb_copy_data\<close> copies to \<open>out\<close>; the C function returns their number.\<close>

definition skb_copy_data :: "skb_buff \<Rightarrow> size_t \<Rightarrow> size_t \<Rightarrow> u8 list option" where
  "skb_copy_data s start len =
     (if len = 0 then Some []
      else
        let available = skb_unread_len s
        in if start \<ge> available then Some []
           else
             let to_copy = min len (available - start);
                 first = unat (skb_offset s + start)
             in do { block \<leftarrow> skb_data s;
                     if first + unat to_copy \<le> length block
                     then Some (take (unat to_copy) (drop first block)) else None })"

definition skb_detach_priv :: "skb_buff \<Rightarrow> skb_buff \<times> ptr" where
  "skb_detach_priv s = (s\<lparr>skb_priv := 0\<rparr>, skb_priv s)"

text \<open>Assignments through a pointer: \<open>p->next = v\<close>.\<close>

definition set_skb_next :: "skb_heap \<Rightarrow> ptr \<Rightarrow> ptr \<Rightarrow> skb_heap option" where
  "set_skb_next h p v = do { s \<leftarrow> h p; Some (h(p \<mapsto> s\<lparr>skb_next := v\<rparr>)) }"

definition skb_queue_push ::
  "skb_heap \<Rightarrow> skb_queue \<Rightarrow> ptr \<Rightarrow> (bool \<times> skb_heap \<times> skb_queue) option" where
  "skb_queue_push h q skb =
     (if skb = 0 then Some (False, h, q)
      else do { s \<leftarrow> h skb;
                let unread = skb_unread_len s;
                if unread > skb_queue_space q then Some (False, h, q)
                else do {
                  h \<leftarrow> set_skb_next h skb 0;
                  (h, q) \<leftarrow> (if sq_tail q \<noteq> 0
                             then do { h \<leftarrow> set_skb_next h (sq_tail q) skb; Some (h, q) }
                             else Some (h, q\<lparr>sq_head := skb\<rparr>));
                  Some (True, h, q\<lparr>sq_tail := skb, sq_packet_count := sq_packet_count q + 1,
                                   sq_byte_count := sq_byte_count q + unread\<rparr>) } })"

definition skb_queue_peek :: "skb_queue \<Rightarrow> ptr" where
  "skb_queue_peek q = sq_head q"

definition skb_queue_pop :: "skb_heap \<Rightarrow> skb_queue \<Rightarrow> (ptr \<times> skb_heap \<times> skb_queue) option" where
  "skb_queue_pop h q =
     (if sq_head q = 0 then Some (0, h, q)
      else do { let skb = sq_head q;
                s \<leftarrow> h skb;
                let q = q\<lparr>sq_head := skb_next s\<rparr>;
                let q = (if sq_head q = 0 then q\<lparr>sq_tail := 0\<rparr> else q);
                let q = q\<lparr>sq_packet_count := sq_packet_count q - 1,
                          sq_byte_count := sq_byte_count q - skb_unread_len s\<rparr>;
                h \<leftarrow> set_skb_next h skb 0;
                Some (skb, h, q) })"

definition skb_queue_drop_head ::
  "skb_heap \<Rightarrow> skb_queue \<Rightarrow> (skb_heap \<times> skb_queue \<times> destructor_call list) option" where
  "skb_queue_drop_head h q =
     do { (skb, h, q) \<leftarrow> skb_queue_pop h q;
          if skb = 0 then Some (h, q, [])
          else do { (h, calls) \<leftarrow> skb_free h skb (sq_priv_destructor q);
                    Some (h, q, calls) } }"

text \<open>\<open>skb_queue_purge\<close> loops while there is a head; it may not end on a cyclic list.\<close>

partial_function (option) skb_queue_purge ::
  "skb_heap \<Rightarrow> skb_queue \<Rightarrow> (skb_heap \<times> skb_queue \<times> destructor_call list) option" where
  "skb_queue_purge h q =
     (if sq_head q = 0 then Some (h, q, [])
      else do { (h, q, calls) \<leftarrow> skb_queue_drop_head h q;
                (h, q, calls') \<leftarrow> skb_queue_purge h q;
                Some (h, q, calls @ calls') })"

declare skb_queue_purge.simps [code]

subsection \<open>The list a queue stands for\<close>

definition next_of :: "skb_heap \<Rightarrow> ptr \<Rightarrow> ptr option" where
  "next_of h p = map_option skb_next (h p)"

definition unread_of :: "skb_heap \<Rightarrow> ptr \<Rightarrow> nat" where
  "unread_of h p = (case h p of None \<Rightarrow> 0 | Some s \<Rightarrow> unat (skb_unread_len s))"

definition skb_repr :: "skb_heap \<times> skb_queue \<Rightarrow> ptr list \<Rightarrow> bool" where
  "skb_repr = (\<lambda>(h, q) ps.
     h 0 = None \<and> path (next_of h) (sq_head q) ps 0 \<and>
     sq_tail q = (if ps = [] then 0 else last ps) \<and>
     unat (sq_packet_count q) = length ps \<and>
     unat (sq_byte_count q) = sum_list (map (unread_of h) ps))"

named_theorems skb_simps
lemmas [skb_simps] = next_of_def unread_of_def set_skb_next_def

lemma next_of_upd: "next_of (h(p \<mapsto> s)) = (next_of h)(p \<mapsto> skb_next s)"
  by (auto simp: next_of_def)

lemma next_of_del: "next_of (h(p := None)) = (next_of h)(p := None)"
  by (auto simp: next_of_def)

lemma skb_reprD:
  assumes "skb_repr (h, q) ps"
  shows "h 0 = None" "path (next_of h) (sq_head q) ps 0" "distinct ps" "0 \<notin> set ps"
    "\<And>p. p \<in> set ps \<Longrightarrow> h p \<noteq> None"
proof -
  show h: "h 0 = None" "path (next_of h) (sq_head q) ps 0"
    using assms by (simp_all add: skb_repr_def)
  then have n: "next_of h 0 = None" by (simp add: next_of_def)
  show "distinct ps" "0 \<notin> set ps"
    using path_distinct [OF h(2) n] path_end_not_in [OF h(2) n] by blast+
  show "h p \<noteq> None" if "p \<in> set ps" for p
    using path_defined [OF h(2) that] by (simp add: next_of_def)
qed

lemma unread_of_cong:
  "(\<And>p. p \<in> set ps \<Longrightarrow> unread_of h p = unread_of h' p) \<Longrightarrow>
   sum_list (map (unread_of h) ps) = sum_list (map (unread_of h') ps)"
  by (metis map_eq_conv)

lemma skb_unread_len_next [simp]: "skb_unread_len (s\<lparr>skb_next := n\<rparr>) = skb_unread_len s"
  by (simp add: skb_unread_len_def)

lemma unread_of_next [simp]:
  "h p = Some s \<Longrightarrow> unread_of (h(p \<mapsto> s\<lparr>skb_next := n\<rparr>)) = unread_of h"
  by (auto simp: unread_of_def)

lemma unat_space: "unat (skb_queue_space q) = unat (sq_byte_limit q) - unat (sq_byte_count q)"
  by (auto simp: skb_queue_space_def word_le_iff_unat unat_sub_le)

text \<open>Appending to the list: what \<open>skb_queue_push\<close> does to the heap and the queue when it accepts.\<close>

lemma push_links:
  assumes r: "skb_repr (h, q) ps" and s: "h skb = Some s" "skb \<notin> set ps" "skb \<noteq> 0"
  shows "\<exists>h' hd'. do { h \<leftarrow> set_skb_next h skb 0;
      (h, q) \<leftarrow> (if sq_tail q \<noteq> 0
                 then do { h \<leftarrow> set_skb_next h (sq_tail q) skb; Some (h, q) }
                 else Some (h, q\<lparr>sq_head := skb\<rparr>));
      Some (h, q) } = Some (h', q\<lparr>sq_head := hd'\<rparr>) \<and>
    h' 0 = None \<and> path (next_of h') hd' (ps @ [skb]) 0 \<and> unread_of h' = unread_of h \<and>
    (\<forall>p. h' p = None \<longleftrightarrow> h p = None)"
proof (cases "ps = []")
  case True
  then have "sq_tail q = 0" "h 0 = None" using r by (simp_all add: skb_repr_def)
  then show ?thesis
    using s True by (auto simp: set_skb_next_def next_of_upd)
next
  case False
  then obtain ps' t where ps: "ps = ps' @ [t]" by (metis rev_exhaust)
  note rd = skb_reprD [OF r]
  have t: "sq_tail q = t" "t \<noteq> 0" "t \<noteq> skb" "t \<notin> set ps'" "skb \<notin> set ps'"
    using r rd(3,4) s ps by (auto simp: skb_repr_def)
  obtain st where st: "h t = Some st" using rd(5) [of t] ps by auto
  let ?h1 = "h(skb \<mapsto> s\<lparr>skb_next := 0\<rparr>)"
  let ?h2 = "?h1(t \<mapsto> st\<lparr>skb_next := skb\<rparr>)"
  have "path (next_of ?h2) (sq_head q) (ps @ [skb]) 0"
    using rd(2) t s unfolding ps by (auto simp: next_of_upd)
  moreover have "unread_of ?h2 = unread_of h"
    using unread_of_next [of h skb s 0] unread_of_next [of ?h1 t st skb] s(1) st t by simp
  ultimately show ?thesis
    using s t st rd(1) by (intro exI [of _ ?h2] exI [of _ "sq_head q"]) (auto simp: set_skb_next_def)
qed

lemma skb_queue_push_repr:
  assumes r: "skb_repr (h, q) ps" and s: "h skb = Some s" "skb \<notin> set ps" "skb \<noteq> 0"
  shows "\<exists>h' q'. skb_queue_push h q skb =
      Some (unat (skb_unread_len s) \<le> unat (sq_byte_limit q) - unat (sq_byte_count q), h', q') \<and>
    sq_byte_limit q' = sq_byte_limit q \<and> sq_priv_destructor q' = sq_priv_destructor q \<and>
    unread_of h' = unread_of h \<and> (\<forall>p. h' p = None \<longleftrightarrow> h p = None) \<and>
    (if unat (skb_unread_len s) \<le> unat (sq_byte_limit q) - unat (sq_byte_count q)
     then skb_repr (h', q') (ps @ [skb]) else h' = h \<and> q' = q)"
proof (cases "unat (skb_unread_len s) \<le> unat (sq_byte_limit q) - unat (sq_byte_count q)")
  case False
  then show ?thesis using s by (simp add: skb_queue_push_def word_less_iff_unat unat_space)
next
  case True
  note rd = skb_reprD [OF r]
  obtain h' hd' where links: "do { h \<leftarrow> set_skb_next h skb 0;
      (h, q) \<leftarrow> (if sq_tail q \<noteq> 0
                 then do { h \<leftarrow> set_skb_next h (sq_tail q) skb; Some (h, q) }
                 else Some (h, q\<lparr>sq_head := skb\<rparr>));
      Some (h, q) } = Some (h', q\<lparr>sq_head := hd'\<rparr>)"
    "h' 0 = None" "path (next_of h') hd' (ps @ [skb]) 0" "unread_of h' = unread_of h"
    "\<forall>p. h' p = None \<longleftrightarrow> h p = None"
    using push_links [OF assms] by blast
  let ?q = "q\<lparr>sq_head := hd', sq_tail := skb, sq_packet_count := sq_packet_count q + 1,
              sq_byte_count := sq_byte_count q + skb_unread_len s\<rparr>"
  have "length (skb # ps) < 2 ^ 64" using rd s by (intro length_ptrs) auto
  then have cnt: "unat (sq_packet_count q + 1) = length ps + 1"
    using r by (subst unat_inc_u64) (auto simp: skb_repr_def)
  have "unat (sq_byte_count q + skb_unread_len s) = unat (sq_byte_count q) + unat (skb_unread_len s)"
    using True unat64_lt [of "sq_byte_limit q"] unat64_lt [of "sq_byte_count q"]
    by (intro unat_add_u64) linarith
  then have "skb_repr (h', ?q) (ps @ [skb])"
    using r links cnt s by (simp add: skb_repr_def unread_of_def)
  moreover have "skb_queue_push h q skb = Some (True, h', ?q)"
    using True s links(1)
    by (auto simp: skb_queue_push_def word_less_iff_unat unat_space bind_eq_Some_conv
        split: if_splits)
  ultimately show ?thesis using True links by (intro exI [of _ h'] exI [of _ ?q]) simp
qed

lemma skb_queue_pop_repr:
  assumes r: "skb_repr (h, q) (p # ps)"
  shows "\<exists>s q'. h p = Some s \<and>
    skb_queue_pop h q = Some (p, h(p \<mapsto> s\<lparr>skb_next := 0\<rparr>), q') \<and>
    skb_repr (h(p \<mapsto> s\<lparr>skb_next := 0\<rparr>), q') ps \<and>
    sq_byte_limit q' = sq_byte_limit q \<and> sq_priv_destructor q' = sq_priv_destructor q"
proof -
  note rd = skb_reprD [OF r]
  obtain s where s: "h p = Some s" using rd(5) [of p] by auto
  have hd: "sq_head q = p" "p \<noteq> 0" "p \<notin> set ps" "path (next_of h) (skb_next s) ps 0"
    using rd s by (auto simp: next_of_def)
  have emp: "skb_next s = 0 \<longleftrightarrow> ps = []"
    using path_start [OF hd(4)] rd(4) by (metis hd_in_set list.set_intros(2))
  let ?q = "(if skb_next s = 0 then q\<lparr>sq_head := skb_next s, sq_tail := 0\<rparr>
             else q\<lparr>sq_head := skb_next s\<rparr>)
            \<lparr>sq_packet_count := sq_packet_count q - 1,
             sq_byte_count := sq_byte_count q - skb_unread_len s\<rparr>"
  have sum: "unat (sq_byte_count q) = unat (skb_unread_len s) + sum_list (map (unread_of h) ps)"
    and cnt: "unat (sq_packet_count q) = length ps + 1"
    using r s by (simp_all add: skb_repr_def unread_of_def)
  have "unat (sq_packet_count q - 1) = length ps"
    using cnt by (subst unat_sub_le) (auto simp: word_le_iff_unat)
  moreover have "unat (sq_byte_count q - skb_unread_len s) = sum_list (map (unread_of h) ps)"
    using sum by (subst unat_sub_le) (auto simp: word_le_iff_unat)
  ultimately have "skb_repr (h(p \<mapsto> s\<lparr>skb_next := 0\<rparr>), ?q) ps"
    using r s hd emp rd(1) by (auto simp: skb_repr_def next_of_upd)
  moreover have "skb_queue_pop h q = Some (p, h(p \<mapsto> s\<lparr>skb_next := 0\<rparr>), ?q)"
    using s hd by (auto simp: skb_queue_pop_def Let_def set_skb_next_def)
  ultimately show ?thesis using s by auto
qed

lemma skb_queue_pop_empty:
  "skb_repr (h, q) [] \<Longrightarrow> skb_queue_pop h q = Some (0, h, q)"
  by (simp add: skb_repr_def skb_queue_pop_def)

subsection \<open>Reading a buffer\<close>

definition skb_wf :: "skb_buff \<Rightarrow> bool" where
  "skb_wf s = (case skb_data s of None \<Rightarrow> skb_len s = 0 | Some block \<Rightarrow> length block = unat (skb_len s))"

definition unread_bytes :: "skb_buff \<Rightarrow> u8 list" where
  "unread_bytes s = (case skb_data s of None \<Rightarrow> [] | Some block \<Rightarrow> drop (unat (skb_offset s)) block)"

lemma skb_alloc_wf:
  assumes "skb_alloc h skb block len = (h', p)" "p \<noteq> 0" "\<And>b. block = Some b \<Longrightarrow> length b = unat len"
  shows "h' p \<noteq> None" "skb_wf (the (h' p))" "skb_unread_len (the (h' p)) = len"
  using assms
  by (cases "len = 0"; auto simp: skb_alloc_def skb_wf_def skb_unread_len_def Let_def word_gt_0
      split: if_splits option.splits)+

lemma unat_unread_len: "unat (skb_unread_len s) = unat (skb_len s) - unat (skb_offset s)"
  by (auto simp: skb_unread_len_def word_le_iff_unat unat_sub_le)

lemma length_unread_bytes: "skb_wf s \<Longrightarrow> length (unread_bytes s) = unat (skb_unread_len s)"
  by (auto simp: skb_wf_def unread_bytes_def unat_unread_len split: option.splits)

lemma skb_copy_data_bytes:
  assumes wf: "skb_wf s"
  shows "skb_copy_data s start len = Some (take (unat len) (drop (unat start) (unread_bytes s)))"
proof (cases "len = 0 \<or> start \<ge> skb_unread_len s")
  case True
  then show ?thesis
    using length_unread_bytes [OF wf] by (auto simp: skb_copy_data_def Let_def word_le_iff_unat)
next
  case False
  then have start: "unat start < unat (skb_len s) - unat (skb_offset s)" and len: "len \<noteq> 0"
    by (simp_all add: word_le_iff_unat unat_unread_len)
  obtain block where block: "skb_data s = Some block" "length block = unat (skb_len s)"
    using wf start by (auto simp: skb_wf_def split: option.splits)
  have first: "unat (skb_offset s + start) = unat (skb_offset s) + unat start"
    using start unat64_lt [of "skb_len s"] by (intro unat_add_u64) linarith
  have diff: "unat (skb_unread_len s - start) = unat (skb_len s) - unat (skb_offset s) - unat start"
    using False by (subst unat_sub_le) (auto simp: unat_unread_len)
  show ?thesis
    using False block start first diff
    by (auto simp: skb_copy_data_def Let_def unread_bytes_def add.commute min_def word_le_iff_unat)
qed

subsection \<open>Emptying a queue\<close>

definition free_calls :: "skb_heap \<Rightarrow> ptr \<Rightarrow> ptr \<Rightarrow> destructor_call list" where
  "free_calls h destructor p =
     (case h p of None \<Rightarrow> []
      | Some s \<Rightarrow> if destructor \<noteq> 0 \<and> skb_priv s \<noteq> 0 then [Destructor_call destructor (skb_priv s)] else [])"

lemma skb_repr_delete:
  "skb_repr (h, q) ps \<Longrightarrow> p \<notin> set ps \<Longrightarrow> skb_repr (h(p := None), q) ps"
  by (auto simp: skb_repr_def next_of_del intro!: unread_of_cong) (auto simp: unread_of_def)

lemma skb_queue_drop_head_repr:
  assumes r: "skb_repr (h, q) (p # ps)"
  shows "\<exists>q'. skb_queue_drop_head h q = Some (h(p := None), q', free_calls h (sq_priv_destructor q) p) \<and>
    skb_repr (h(p := None), q') ps \<and> sq_byte_limit q' = sq_byte_limit q \<and>
    sq_priv_destructor q' = sq_priv_destructor q"
proof -
  obtain s q' where s: "h p = Some s"
    and pop: "skb_queue_pop h q = Some (p, h(p \<mapsto> s\<lparr>skb_next := 0\<rparr>), q')"
      "skb_repr (h(p \<mapsto> s\<lparr>skb_next := 0\<rparr>), q') ps"
      "sq_byte_limit q' = sq_byte_limit q" "sq_priv_destructor q' = sq_priv_destructor q"
    using skb_queue_pop_repr [OF r] by blast
  have "p \<noteq> 0" "p \<notin> set ps" using skb_reprD [OF r] by auto
  then show ?thesis
    using s pop skb_repr_delete [OF pop(2), of p]
    by (auto simp: skb_queue_drop_head_def skb_free_def free_calls_def)
qed

lemma skb_queue_purge_repr:
  assumes "skb_repr (h, q) ps"
  shows "\<exists>q'. skb_queue_purge h q =
      Some (\<lambda>p. if p \<in> set ps then None else h p, q',
            concat (map (free_calls h (sq_priv_destructor q)) ps)) \<and>
    skb_repr (\<lambda>p. if p \<in> set ps then None else h p, q') [] \<and>
    sq_byte_limit q' = sq_byte_limit q \<and> sq_priv_destructor q' = sq_priv_destructor q"
  using assms
proof (induction ps arbitrary: h q)
  case Nil
  then show ?case by (subst skb_queue_purge.simps) (simp add: skb_repr_def)
next
  case (Cons p ps)
  note rd = skb_reprD [OF Cons.prems]
  obtain q1 where q1:
    "skb_queue_drop_head h q = Some (h(p := None), q1, free_calls h (sq_priv_destructor q) p)"
    "skb_repr (h(p := None), q1) ps" "sq_byte_limit q1 = sq_byte_limit q"
    "sq_priv_destructor q1 = sq_priv_destructor q"
    using skb_queue_drop_head_repr [OF Cons.prems] by blast
  have hd: "sq_head q = p" "p \<noteq> 0" "p \<notin> set ps" using rd by auto
  have calls: "map (free_calls (h(p := None)) d) ps = map (free_calls h d) ps" for d
    using hd(3) by (auto simp: free_calls_def)
  have heap: "(\<lambda>x. if x \<in> set ps then None else (h(p := None)) x) =
              (\<lambda>x. if x \<in> set (p # ps) then None else h x)"
    by auto
  obtain q2 where q2: "skb_queue_purge (h(p := None)) q1 =
      Some (\<lambda>x. if x \<in> set (p # ps) then None else h x, q2,
            concat (map (free_calls h (sq_priv_destructor q)) ps))"
    "skb_repr (\<lambda>x. if x \<in> set (p # ps) then None else h x, q2) []"
    "sq_byte_limit q2 = sq_byte_limit q" "sq_priv_destructor q2 = sq_priv_destructor q"
    using Cons.IH [OF q1(2), unfolded heap calls q1(3,4)]
    by (elim exE conjE) (rule that; assumption)
  have "skb_queue_purge h q =
      Some (\<lambda>x. if x \<in> set (p # ps) then None else h x, q2,
            concat (map (free_calls h (sq_priv_destructor q)) (p # ps)))"
    by (subst skb_queue_purge.simps) (simp add: q1(1) q2(1) hd del: list.set)
  then show ?case using q2(2-) by blast
qed

subsection \<open>First in, first out\<close>

text \<open>
  The interface of a queue of heap objects: \<open>repr s xs\<close> says that state \<open>s\<close> holds the
  objects \<open>xs\<close> in order, \<open>item s x\<close> that \<open>x\<close> is an object that can be queued.  A push may be
  refused, and then changes nothing.
\<close>

fun push_all ::
  "('s \<Rightarrow> ptr \<Rightarrow> (bool \<times> 's) option) \<Rightarrow> 's \<Rightarrow> ptr list \<Rightarrow> (bool list \<times> 's) option" where
  "push_all push s [] = Some ([], s)"
| "push_all push s (x # xs) =
     do { (ok, s) \<leftarrow> push s x; (oks, s) \<leftarrow> push_all push s xs; Some (ok # oks, s) }"

fun pop_many :: "('s \<Rightarrow> (ptr \<times> 's) option) \<Rightarrow> 's \<Rightarrow> nat \<Rightarrow> (ptr list \<times> 's) option" where
  "pop_many pop s 0 = Some ([], s)"
| "pop_many pop s (Suc n) =
     do { (x, s) \<leftarrow> pop s; (xs, s) \<leftarrow> pop_many pop s n; Some (x # xs, s) }"

definition accepted :: "bool list \<Rightarrow> ptr list \<Rightarrow> ptr list" where
  "accepted oks xs = map snd (filter fst (zip oks xs))"

lemma accepted_simps [simp]:
  "accepted [] xs = []"
  "accepted (ok # oks) (x # xs) = (if ok then x # accepted oks xs else accepted oks xs)"
  by (simp_all add: accepted_def)

locale fifo =
  fixes repr :: "'s \<Rightarrow> ptr list \<Rightarrow> bool"
    and item :: "'s \<Rightarrow> ptr \<Rightarrow> bool"
    and push :: "'s \<Rightarrow> ptr \<Rightarrow> (bool \<times> 's) option"
    and pop :: "'s \<Rightarrow> (ptr \<times> 's) option"
  assumes push_repr: "repr s xs \<Longrightarrow> item s x \<Longrightarrow> x \<notin> set xs \<Longrightarrow>
      \<exists>ok s'. push s x = Some (ok, s') \<and> repr s' (if ok then xs @ [x] else xs) \<and>
        (\<forall>y. item s' y = item s y)"
    and pop_repr: "repr s (x # xs) \<Longrightarrow> \<exists>s'. pop s = Some (x, s') \<and> repr s' xs"
begin

lemma push_all_repr:
  assumes "repr s xs" "\<forall>y \<in> set ys. item s y" "distinct (xs @ ys)"
  shows "\<exists>oks s'. push_all push s ys = Some (oks, s') \<and> repr s' (xs @ accepted oks ys)"
  using assms
proof (induction ys arbitrary: s xs)
  case Nil
  then show ?case by auto
next
  case (Cons y ys)
  obtain ok s1 where s1: "push s y = Some (ok, s1)" "repr s1 (if ok then xs @ [y] else xs)"
    "\<forall>z. item s1 z = item s z"
    using push_repr [OF Cons.prems(1), of y] Cons.prems(2,3) by auto
  show ?case
    using Cons.IH [OF s1(2)] s1 Cons.prems(2,3) by (fastforce split: if_splits)
qed

lemma pop_many_repr:
  assumes "repr s (xs @ ys)"
  shows "\<exists>s'. pop_many pop s (length xs) = Some (xs, s') \<and> repr s' ys"
  using assms
proof (induction xs arbitrary: s)
  case (Cons x xs)
  then show ?case using pop_repr [of s x "xs @ ys"] by fastforce
qed simp

text \<open>What was accepted comes out again, in the order it went in.\<close>

lemma push_then_pop:
  assumes "repr s []" "\<forall>y \<in> set ys. item s y" "distinct ys"
  shows "\<exists>oks s1 s2. push_all push s ys = Some (oks, s1) \<and>
    pop_many pop s1 (length (accepted oks ys)) = Some (accepted oks ys, s2) \<and> repr s2 []"
proof -
  obtain oks s1 where s1: "push_all push s ys = Some (oks, s1)" "repr s1 (accepted oks ys)"
    using push_all_repr [OF assms(1,2)] assms(3) by auto
  moreover obtain s2 where "pop_many pop s1 (length (accepted oks ys)) = Some (accepted oks ys, s2)"
    "repr s2 []"
    using pop_many_repr [of s1 "accepted oks ys" "[]"] s1(2) by auto
  ultimately show ?thesis by blast
qed

end

interpretation skb: fifo skb_repr "\<lambda>(h, q) p. p \<noteq> 0 \<and> h p \<noteq> None"
    "\<lambda>(h, q). skb_queue_push h q" "\<lambda>(h, q). skb_queue_pop h q"
proof
  fix s xs x
  assume a: "skb_repr s xs" "(case s of (h, q) \<Rightarrow> \<lambda>p. p \<noteq> 0 \<and> h p \<noteq> None) x" "x \<notin> set xs"
  obtain h q where s: "s = (h, q)" by (cases s)
  then obtain b where b: "h x = Some b" using a(2) by auto
  let ?ok = "unat (skb_unread_len b) \<le> unat (sq_byte_limit q) - unat (sq_byte_count q)"
  obtain h' q' where push: "skb_queue_push h q x = Some (?ok, h', q')"
    "\<forall>p. h' p = None \<longleftrightarrow> h p = None"
    "if ?ok then skb_repr (h', q') (xs @ [x]) else h' = h \<and> q' = q"
    using skb_queue_push_repr [OF a(1) [unfolded s] b a(3)] a(2) s by auto
  have "skb_repr (h', q') (if ?ok then xs @ [x] else xs)"
    using push(3) a(1) s by (simp split: if_splits)
  then show "\<exists>ok s'. (case s of (h, q) \<Rightarrow> skb_queue_push h q) x = Some (ok, s') \<and>
      skb_repr s' (if ok then xs @ [x] else xs) \<and>
      (\<forall>y. (case s' of (h, q) \<Rightarrow> \<lambda>p. p \<noteq> 0 \<and> h p \<noteq> None) y =
           (case s of (h, q) \<Rightarrow> \<lambda>p. p \<noteq> 0 \<and> h p \<noteq> None) y)"
    using push(1,2) s by (intro exI [of _ ?ok] exI [of _ "(h', q')"]) (simp del: not_None_eq)
next
  fix s x xs assume a: "skb_repr s (x # xs)"
  obtain h q where s: "s = (h, q)" by (cases s)
  show "\<exists>s'. (case s of (h, q) \<Rightarrow> skb_queue_pop h q) = Some (x, s') \<and> skb_repr s' xs"
    using skb_queue_pop_repr [OF a [unfolded s]] s by auto
qed

lemma skb_repr_init: "h 0 = None \<Longrightarrow> skb_repr (h, skb_queue_init limit d) []"
  by (simp add: skb_repr_def skb_queue_init_def)

text \<open>Two buffers of three and two bytes, the second with ancillary data.\<close>

definition sample_heap :: skb_heap where
  "sample_heap = [0x1000 \<mapsto> \<lparr>skb_next = 0, skb_data = Some [1, 2, 3], skb_len = 3, skb_offset = 0,
                             skb_flags = 0, skb_priv = 0\<rparr>,
                  0x2000 \<mapsto> \<lparr>skb_next = 0, skb_data = Some [4, 5], skb_len = 2, skb_offset = 0,
                             skb_flags = 0, skb_priv = 0x7000\<rparr>]"

text \<open>
  C11.  \<open>skb_queue_push\<close> accepts a buffer exactly when its unread bytes fit below the limit, appends it
  at the tail and keeps the packet and byte counters exact (no wrap-around); a refused buffer
  changes nothing.
\<close>

theorem skb_queue_push_accounts:
  assumes "skb_repr (h, q) ps" "h skb = Some s" "skb \<notin> set ps" "skb \<noteq> 0"
  shows "\<exists>h' q'. skb_queue_push h q skb =
      Some (unat (skb_unread_len s) \<le> unat (sq_byte_limit q) - unat (sq_byte_count q), h', q') \<and>
    sq_byte_limit q' = sq_byte_limit q \<and> sq_priv_destructor q' = sq_priv_destructor q \<and>
    unread_of h' = unread_of h \<and> (\<forall>p. h' p = None \<longleftrightarrow> h p = None) \<and>
    (if unat (skb_unread_len s) \<le> unat (sq_byte_limit q) - unat (sq_byte_count q)
     then skb_repr (h', q') (ps @ [skb]) else h' = h \<and> q' = q)"
  using assms by (rule skb_queue_push_repr)

theorem skb_queue_push_accounts_witness:
  "\<exists>h' q'. skb_queue_push sample_heap (skb_queue_init 4 0) 0x1000 = Some (True, h', q') \<and>
     skb_repr (h', q') [0x1000]"
  using skb_queue_push_accounts [of sample_heap "skb_queue_init 4 0" "[]" "0x1000"
      "the (sample_heap 0x1000)"] skb_repr_init [of sample_heap 4 0]
  by (auto simp: sample_heap_def skb_unread_len_def skb_queue_init_def)



text \<open>
  C13.  \<open>skb_queue_purge\<close> ends on every well-formed queue.  It frees exactly the queued buffers, calls
  the queue's destructor once for each of them that has ancillary data, in order, and leaves an
  empty queue with its limit and destructor.
\<close>

theorem skb_queue_purge_frees:
  assumes "skb_repr (h, q) ps"
  shows "\<exists>q'. skb_queue_purge h q =
      Some (\<lambda>p. if p \<in> set ps then None else h p, q',
            concat (map (free_calls h (sq_priv_destructor q)) ps)) \<and>
    skb_repr (\<lambda>p. if p \<in> set ps then None else h p, q') [] \<and>
    sq_byte_limit q' = sq_byte_limit q \<and> sq_priv_destructor q' = sq_priv_destructor q"
  using assms by (rule skb_queue_purge_repr)

theorem skb_queue_purge_frees_witness:
  "\<exists>h' q'. skb_queue_purge sample_heap
       \<lparr>sq_head = 0x2000, sq_tail = 0x2000, sq_packet_count = 1, sq_byte_count = 2,
        sq_byte_limit = 9, sq_priv_destructor = 0x8000\<rparr> =
     Some (h', q', [Destructor_call 0x8000 0x7000]) \<and> h' 0x2000 = None \<and> h' 0x1000 \<noteq> None"
proof -
  let ?q = "\<lparr>sq_head = 0x2000, sq_tail = 0x2000, sq_packet_count = 1, sq_byte_count = 2,
        sq_byte_limit = 9, sq_priv_destructor = 0x8000\<rparr> :: skb_queue"
  have "skb_repr (sample_heap, ?q) [0x2000]"
    by (simp add: skb_repr_def sample_heap_def skb_unread_len_def skb_simps)
  from skb_queue_purge_frees [OF this] show ?thesis
    by (auto simp: free_calls_def sample_heap_def)
qed

end
