(* ===== verification/Llist.thy ===== *)
theory Llist
  imports Prelude
begin

text \<open>
  The intrusive lists of \<open>libs/llist.h\<close>: circular doubly linked lists of \<open>llist_header\<close> with the
  list head as sentinel, and \<open>hlist\<close> chains.  Headers live in a heap; the assignments are
  translated one by one in the order of the source, since the neighbours may be one object.
\<close>

subsection \<open>Circular lists\<close>

record llist_header =
  ll_prev :: ptr
  ll_next :: ptr

type_synonym llist_heap = "ptr \<Rightarrow> llist_header option"

definition get_prev :: "llist_heap \<Rightarrow> ptr \<Rightarrow> ptr option" where
  "get_prev h p = map_option ll_prev (h p)"

definition get_next :: "llist_heap \<Rightarrow> ptr \<Rightarrow> ptr option" where
  "get_next h p = map_option ll_next (h p)"

definition set_prev :: "llist_heap \<Rightarrow> ptr \<Rightarrow> ptr \<Rightarrow> llist_heap option" where
  "set_prev h p v = do { n \<leftarrow> h p; Some (h(p \<mapsto> n\<lparr>ll_prev := v\<rparr>)) }"

definition set_next :: "llist_heap \<Rightarrow> ptr \<Rightarrow> ptr \<Rightarrow> llist_heap option" where
  "set_next h p v = do { n \<leftarrow> h p; Some (h(p \<mapsto> n\<lparr>ll_next := v\<rparr>)) }"

definition llist_add :: "llist_heap \<Rightarrow> ptr \<Rightarrow> ptr \<Rightarrow> ptr \<Rightarrow> llist_heap option" where
  "llist_add h elem prev nxt =
     do { h \<leftarrow> set_prev h nxt elem;
          h \<leftarrow> set_next h elem nxt;
          h \<leftarrow> set_prev h elem prev;
          set_next h prev elem }"

definition llist_init_head :: "llist_heap \<Rightarrow> ptr \<Rightarrow> llist_heap option" where
  "llist_init_head h head =
     do { h \<leftarrow> set_next h head head; set_prev h head head }"

definition llist_append :: "llist_heap \<Rightarrow> ptr \<Rightarrow> ptr \<Rightarrow> llist_heap option" where
  "llist_append h head elem = do { prev \<leftarrow> get_prev h head; llist_add h elem prev head }"

definition llist_prepend :: "llist_heap \<Rightarrow> ptr \<Rightarrow> ptr \<Rightarrow> llist_heap option" where
  "llist_prepend h head elem = do { nxt \<leftarrow> get_next h head; llist_add h elem head nxt }"

definition llist_insert_after :: "llist_heap \<Rightarrow> ptr \<Rightarrow> ptr \<Rightarrow> llist_heap option" where
  "llist_insert_after h head elem = do { nxt \<leftarrow> get_next h head; llist_add h elem head nxt }"

definition llist_delete :: "llist_heap \<Rightarrow> ptr \<Rightarrow> llist_heap option" where
  "llist_delete h elem =
     do { prev \<leftarrow> get_prev h elem;
          nxt \<leftarrow> get_next h elem;
          h \<leftarrow> set_next h prev nxt;
          prev \<leftarrow> get_prev h elem;
          nxt \<leftarrow> get_next h elem;
          h \<leftarrow> set_prev h nxt prev;
          h \<leftarrow> set_prev h elem elem;
          set_next h elem elem }"

definition llist_empty :: "llist_heap \<Rightarrow> ptr \<Rightarrow> bool option" where
  "llist_empty h elem =
     do { nxt \<leftarrow> get_next h elem;
          prev \<leftarrow> get_prev h elem;
          Some (nxt = elem \<and> prev = elem) }"

text \<open>
  The traversal \<open>llist_for_each(pos, n, head, member)\<close>: the entries it visits when the body
  does not change the list.  The second cursor is read one element ahead.
\<close>

partial_function (option) llist_for_each_from ::
  "llist_heap \<Rightarrow> ptr \<Rightarrow> ptr \<Rightarrow> ptr \<Rightarrow> ptr list option" where
  "llist_for_each_from h head pos n =
     (if pos = head then Some []
      else do { n' \<leftarrow> get_next h n;
                rest \<leftarrow> llist_for_each_from h head n n';
                Some (pos # rest) })"

definition llist_for_each :: "llist_heap \<Rightarrow> ptr \<Rightarrow> ptr list option" where
  "llist_for_each h head =
     do { pos \<leftarrow> get_next h head;
          n \<leftarrow> get_next h pos;
          llist_for_each_from h head pos n }"

subsection \<open>Hash chains\<close>

text \<open>
  \<open>pprev\<close> points to a pointer cell: the \<open>next\<close> field of a node, which is at the address of the node,
  or the head of the chain.  \<open>hl_cell\<close> is the memory of those cells, \<open>hl_pprev\<close> that of the
  \<open>pprev\<close> fields.
\<close>

record hlist_mem =
  hl_cell :: "ptr \<Rightarrow> ptr option"
  hl_pprev :: "ptr \<Rightarrow> ptr option"

definition hl_set_cell :: "hlist_mem \<Rightarrow> ptr \<Rightarrow> ptr \<Rightarrow> hlist_mem option" where
  "hl_set_cell m a v = do { _ \<leftarrow> hl_cell m a; Some (m\<lparr>hl_cell := (hl_cell m)(a \<mapsto> v)\<rparr>) }"

definition hl_set_pprev :: "hlist_mem \<Rightarrow> ptr \<Rightarrow> ptr \<Rightarrow> hlist_mem option" where
  "hl_set_pprev m a v = do { _ \<leftarrow> hl_pprev m a; Some (m\<lparr>hl_pprev := (hl_pprev m)(a \<mapsto> v)\<rparr>) }"

definition hlist_delete :: "hlist_mem \<Rightarrow> ptr \<Rightarrow> hlist_mem option" where
  "hlist_delete m node =
     do { pprev \<leftarrow> hl_pprev m node;
          if pprev = 0 then Some m
          else do {
            nxt \<leftarrow> hl_cell m node;
            m \<leftarrow> (if nxt \<noteq> 0 then hl_set_pprev m nxt pprev else Some m);
            pprev \<leftarrow> hl_pprev m node;
            nxt \<leftarrow> hl_cell m node;
            m \<leftarrow> hl_set_cell m pprev nxt;
            m \<leftarrow> hl_set_cell m node 0;
            hl_set_pprev m node 0 } }"

definition hlist_add :: "hlist_mem \<Rightarrow> ptr \<Rightarrow> ptr \<Rightarrow> hlist_mem option" where
  "hlist_add m head node =
     do { first \<leftarrow> hl_cell m head;
          m \<leftarrow> hl_set_cell m node first;
          first \<leftarrow> hl_cell m head;
          m \<leftarrow> (if first \<noteq> 0 then hl_set_pprev m first node else Some m);
          m \<leftarrow> hl_set_pprev m node head;
          hl_set_cell m head node }"

declare llist_for_each_from.simps [code]

subsection \<open>Rings\<close>

text \<open>The links \<open>n\<close> and \<open>p\<close> form a ring through the objects of \<open>L\<close>, in this order.\<close>

definition ring :: "(ptr \<Rightarrow> ptr option) \<Rightarrow> (ptr \<Rightarrow> ptr option) \<Rightarrow> ptr list \<Rightarrow> bool" where
  "ring n p L =
     (L \<noteq> [] \<and> distinct L \<and> path n (hd L) L (hd L) \<and> path p (last L) (rev L) (last L))"

text \<open>The list with sentinel \<open>head\<close> and entries \<open>xs\<close>.\<close>

definition llist_repr :: "llist_heap \<Rightarrow> ptr \<Rightarrow> ptr list \<Rightarrow> bool" where
  "llist_repr h head xs = ring (get_next h) (get_prev h) (head # xs)"

lemma ring_rotate1: "ring n p (x # xs) \<Longrightarrow> ring n p (xs @ [x])"
proof (cases xs)
  case (Cons y ys)
  then show "ring n p (x # xs) \<Longrightarrow> ring n p (xs @ [x])" by (auto simp: ring_def)
qed simp

lemma ring_rotate: "ring n p (xs @ ys) \<Longrightarrow> ring n p (ys @ xs)"
proof (induction xs arbitrary: ys)
  case (Cons x xs)
  then show ?case using Cons.IH [of "ys @ [x]"] ring_rotate1 [of n p x "xs @ ys"] by simp
qed simp

lemma ring_one: "ring n p [x] \<longleftrightarrow> n x = Some x \<and> p x = Some x"
  by (auto simp: ring_def)

lemma ring_many:
  "ring n p (f # K @ [l]) \<longleftrightarrow> distinct (f # K @ [l]) \<and>
     path n f (f # K) l \<and> n l = Some f \<and> path p l (l # rev K) f \<and> p f = Some l"
  by (auto simp: ring_def)

lemma list_ends [case_names one many]:
  assumes "L \<noteq> []"
  obtains x where "L = [x]" | f K l where "L = f # K @ [l]"
  using assms by (metis list.exhaust rev_exhaust)

lemma ring_insert:
  assumes "ring n p L" "e \<notin> set L"
  shows "ring (n(e \<mapsto> hd L, last L \<mapsto> e)) (p(hd L \<mapsto> e, e \<mapsto> last L)) (L @ [e])"
    "n (last L) = Some (hd L)" "p (hd L) = Some (last L)"
proof -
  have "L \<noteq> []" using assms(1) by (simp add: ring_def)
  then have "ring (n(e \<mapsto> hd L, last L \<mapsto> e)) (p(hd L \<mapsto> e, e \<mapsto> last L)) (L @ [e]) \<and>
    n (last L) = Some (hd L) \<and> p (hd L) = Some (last L)"
  proof (cases rule: list_ends)
    case (one x)
    then show ?thesis using assms ring_many [of _ _ x "[]" e] by (auto simp: ring_one)
  next
    case (many f K l)
    then show ?thesis using assms ring_many [of _ _ f "K @ [l]" e] by (auto simp: ring_many)
  qed
  then show "ring (n(e \<mapsto> hd L, last L \<mapsto> e)) (p(hd L \<mapsto> e, e \<mapsto> last L)) (L @ [e])"
    "n (last L) = Some (hd L)" "p (hd L) = Some (last L)" by blast+
qed

lemma ring_remove:
  assumes "ring n p (M @ [x])" "M \<noteq> []"
  shows "ring (n(last M \<mapsto> hd M)) (p(hd M \<mapsto> last M)) M"
    "n x = Some (hd M)" "p x = Some (last M)"
proof -
  have "ring (n(last M \<mapsto> hd M)) (p(hd M \<mapsto> last M)) M \<and> n x = Some (hd M) \<and> p x = Some (last M)"
    using assms(2)
  proof (cases rule: list_ends)
    case (one y)
    then show ?thesis using assms ring_many [of n p y "[]" x] by (auto simp: ring_one)
  next
    case (many f K l)
    then show ?thesis using assms ring_many [of n p f "K @ [l]" x] by (auto simp: ring_many)
  qed
  then show "ring (n(last M \<mapsto> hd M)) (p(hd M \<mapsto> last M)) M"
    "n x = Some (hd M)" "p x = Some (last M)" by blast+
qed

lemma ring_cong:
  assumes "\<And>x. x \<in> set L \<Longrightarrow> n x = n' x" "\<And>x. x \<in> set L \<Longrightarrow> p x = p' x"
  shows "ring n p L = ring n' p' L"
  unfolding ring_def using path_cong [of L n n'] path_cong [of "rev L" p p'] assms by auto

subsection \<open>The operations on rings\<close>

lemma get_None: "get_prev h p = None \<longleftrightarrow> h p = None" "get_next h p = None \<longleftrightarrow> h p = None"
  by (simp_all add: get_prev_def get_next_def)

lemma set_prev_ok:
  "h p \<noteq> None \<Longrightarrow> \<exists>h'. set_prev h p v = Some h' \<and> get_prev h' = (get_prev h)(p \<mapsto> v) \<and>
     get_next h' = get_next h \<and> (\<forall>q. h' q = None \<longleftrightarrow> h q = None)"
  by (intro exI [of _ "h(p \<mapsto> (the (h p))\<lparr>ll_prev := v\<rparr>)"])
    (auto simp: set_prev_def get_prev_def get_next_def)

lemma set_next_ok:
  "h p \<noteq> None \<Longrightarrow> \<exists>h'. set_next h p v = Some h' \<and> get_next h' = (get_next h)(p \<mapsto> v) \<and>
     get_prev h' = get_prev h \<and> (\<forall>q. h' q = None \<longleftrightarrow> h q = None)"
  by (intro exI [of _ "h(p \<mapsto> (the (h p))\<lparr>ll_next := v\<rparr>)"])
    (auto simp: set_next_def get_prev_def get_next_def)

lemma llist_add_ok:
  assumes "h e \<noteq> None" "h a \<noteq> None" "h b \<noteq> None"
  shows "\<exists>h'. llist_add h e a b = Some h' \<and> get_next h' = (get_next h)(e \<mapsto> b, a \<mapsto> e) \<and>
     get_prev h' = (get_prev h)(b \<mapsto> e, e \<mapsto> a) \<and> (\<forall>q. h' q = None \<longleftrightarrow> h q = None)"
proof -
  obtain h1 where h1: "set_prev h b e = Some h1" "get_prev h1 = (get_prev h)(b \<mapsto> e)"
    "get_next h1 = get_next h" "\<forall>q. h1 q = None \<longleftrightarrow> h q = None"
    using set_prev_ok [of h b e] assms(3) by blast
  moreover obtain h2 where h2: "set_next h1 e b = Some h2" "get_next h2 = (get_next h1)(e \<mapsto> b)"
    "get_prev h2 = get_prev h1" "\<forall>q. h2 q = None \<longleftrightarrow> h1 q = None"
    using set_next_ok [of h1 e b] h1(4) assms(1) by auto
  moreover obtain h3 where h3: "set_prev h2 e a = Some h3" "get_prev h3 = (get_prev h2)(e \<mapsto> a)"
    "get_next h3 = get_next h2" "\<forall>q. h3 q = None \<longleftrightarrow> h2 q = None"
    using set_prev_ok [of h2 e a] h1(4) h2(4) assms(1) by auto
  moreover obtain h4 where "set_next h3 a e = Some h4" "get_next h4 = (get_next h3)(a \<mapsto> e)"
    "get_prev h4 = get_prev h3" "\<forall>q. h4 q = None \<longleftrightarrow> h3 q = None"
    using set_next_ok [of h3 a e] h1(4) h2(4) h3(4) assms(2) by auto
  ultimately show ?thesis by (auto simp: llist_add_def)
qed

lemma ring_alloc:
  assumes "ring (get_next h) (get_prev h) L" "x \<in> set L" shows "h x \<noteq> None"
proof -
  have "path (get_next h) (hd L) L (hd L)" using assms(1) by (simp add: ring_def)
  from path_defined [OF this assms(2)] show ?thesis by (simp add: get_next_def)
qed

text \<open>\<open>__llist_add\<close> between an element and its successor.\<close>

lemma llist_add_ring:
  assumes r: "ring (get_next h) (get_prev h) (us @ a # vs)" and e: "e \<notin> set (us @ a # vs)" "h e \<noteq> None"
  shows "get_next h a = Some (hd (vs @ us @ [a]))"
    "\<exists>h'. llist_add h e a (hd (vs @ us @ [a])) = Some h' \<and>
       ring (get_next h') (get_prev h') (us @ a # e # vs) \<and> (\<forall>q. h' q = None \<longleftrightarrow> h q = None)"
proof -
  let ?L = "vs @ us @ [a]"
  have L: "ring (get_next h) (get_prev h) ?L" using ring_rotate [of _ _ "us @ [a]" vs] r by simp
  have e': "e \<notin> set ?L" using e by auto
  note ins = ring_insert [OF L e']
  show "get_next h a = Some (hd ?L)" using ins(2) by simp
  have "hd ?L \<in> set ?L" by (rule hd_in_set) simp
  then obtain h' where h': "llist_add h e a (hd ?L) = Some h'"
    "get_next h' = (get_next h)(e \<mapsto> hd ?L, a \<mapsto> e)" "get_prev h' = (get_prev h)(hd ?L \<mapsto> e, e \<mapsto> a)"
    "\<forall>q. h' q = None \<longleftrightarrow> h q = None"
    using llist_add_ok [of h e a "hd ?L"] e(2) ring_alloc [OF L] by auto
  then have "ring (get_next h') (get_prev h') (vs @ us @ [a, e])" using ins(1) by simp
  then show "\<exists>h'. llist_add h e a (hd ?L) = Some h' \<and>
       ring (get_next h') (get_prev h') (us @ a # e # vs) \<and> (\<forall>q. h' q = None \<longleftrightarrow> h q = None)"
    using h' ring_rotate [of _ _ vs "us @ [a, e]"] by auto
qed

lemma llist_insert_after_ring:
  assumes "ring (get_next h) (get_prev h) (us @ a # vs)" "e \<notin> set (us @ a # vs)" "h e \<noteq> None"
  shows "\<exists>h'. llist_insert_after h a e = Some h' \<and> ring (get_next h') (get_prev h') (us @ a # e # vs) \<and>
    (\<forall>q. h' q = None \<longleftrightarrow> h q = None)"
  using llist_add_ring [OF assms] by (simp add: llist_insert_after_def)

lemma llist_append_ring:
  assumes r: "llist_repr h head xs" and e: "e \<notin> set (head # xs)" "h e \<noteq> None"
  shows "\<exists>h'. llist_append h head e = Some h' \<and> llist_repr h' head (xs @ [e]) \<and>
    (\<forall>q. h' q = None \<longleftrightarrow> h q = None)"
proof -
  have L: "ring (get_next h) (get_prev h) (head # xs)" using r by (simp add: llist_repr_def)
  obtain us l where eq: "head # xs = us @ [l]" by (metis rev_exhaust list.distinct(1))
  have "last (head # xs) = l" unfolding eq by simp
  then have "get_prev h head = Some l" using ring_insert(3) [OF L e(1)] by simp
  moreover have "hd (us @ [l]) = head" unfolding eq [symmetric] by simp
  moreover have snoc: "us @ [l, e] = head # xs @ [e]"
    using arg_cong [OF eq, of "\<lambda>L. L @ [e]"] by simp
  ultimately show ?thesis
    using llist_add_ring(2) [of h us l "[]" e] L e unfolding eq
    by (simp add: llist_append_def llist_repr_def snoc)
qed

lemma llist_delete_ring:
  assumes r: "ring (get_next h) (get_prev h) (us @ x # vs)" and ne: "us @ vs \<noteq> []"
  shows "\<exists>h'. llist_delete h x = Some h' \<and> ring (get_next h') (get_prev h') (us @ vs) \<and>
    ring (get_next h') (get_prev h') [x] \<and> (\<forall>q. h' q = None \<longleftrightarrow> h q = None)"
proof -
  let ?M = "vs @ us"
  have L: "ring (get_next h) (get_prev h) (?M @ [x])" using ring_rotate [of _ _ "us @ [x]" vs] r by simp
  have M: "?M \<noteq> []" using ne by auto
  note rem = ring_remove [OF L M]
  have x: "x \<notin> set ?M" using L by (auto simp: ring_def)
  have in_M: "hd ?M \<in> set ?M" "last ?M \<in> set ?M" 
    by (rule hd_in_set [OF M], rule last_in_set [OF M])
  then have alloc: "h x \<noteq> None" "h (hd ?M) \<noteq> None" "h (last ?M) \<noteq> None" and
    nx: "hd ?M \<noteq> x" "last ?M \<noteq> x"
    using ring_alloc [OF L] x by auto
  obtain h1 where h1: "set_next h (last ?M) (hd ?M) = Some h1"
    "get_next h1 = (get_next h)(last ?M \<mapsto> hd ?M)" "get_prev h1 = get_prev h"
    "\<forall>q. h1 q = None \<longleftrightarrow> h q = None"
    using set_next_ok [of h "last ?M" "hd ?M"] alloc(3) by blast
  obtain h2 where h2: "set_prev h1 (hd ?M) (last ?M) = Some h2"
    "get_prev h2 = (get_prev h1)(hd ?M \<mapsto> last ?M)" "get_next h2 = get_next h1"
    "\<forall>q. h2 q = None \<longleftrightarrow> h1 q = None"
    using set_prev_ok [of h1 "hd ?M" "last ?M"] h1(4) alloc(2) by auto
  obtain h3 where h3: "set_prev h2 x x = Some h3" "get_prev h3 = (get_prev h2)(x \<mapsto> x)"
    "get_next h3 = get_next h2" "\<forall>q. h3 q = None \<longleftrightarrow> h2 q = None"
    using set_prev_ok [of h2 x x] h1(4) h2(4) alloc(1) by auto
  obtain h4 where h4: "set_next h3 x x = Some h4" "get_next h4 = (get_next h3)(x \<mapsto> x)"
    "get_prev h4 = get_prev h3" "\<forall>q. h4 q = None \<longleftrightarrow> h3 q = None"
    using set_next_ok [of h3 x x] h1(4) h2(4) h3(4) alloc(1) by auto
  have "ring (get_next h4) (get_prev h4) ?M \<longleftrightarrow>
      ring ((get_next h)(last ?M \<mapsto> hd ?M)) ((get_prev h)(hd ?M \<mapsto> last ?M)) ?M"
    using x by (intro ring_cong) (auto simp: h1 h2 h3 h4)
  then have "ring (get_next h4) (get_prev h4) (us @ vs)" using rem(1) ring_rotate by blast
  moreover have "llist_delete h x = Some h4"
    using rem(2,3) h1 h2 h3 h4 nx by (simp add: llist_delete_def)
  moreover have "ring (get_next h4) (get_prev h4) [x]" by (simp add: ring_one h1 h2 h3 h4)
  ultimately show ?thesis using h1(4) h2(4) h3(4) h4(4) by auto
qed

lemma for_each_path:
  assumes "path (get_next h) pos xs head" "head \<notin> set xs" "get_next h head \<noteq> None"
    "get_next h pos = Some n"
  shows "llist_for_each_from h head pos n = Some xs"
  using assms
proof (induction xs arbitrary: pos n)
  case Nil
  then show ?case by (subst llist_for_each_from.simps) simp
next
  case (Cons x xs)
  then have n: "pos = x" "path (get_next h) n xs head" by auto
  obtain n' where n': "get_next h n = Some n'"
    using n(2) Cons.prems(3) by (cases xs) auto
  then show ?case
    using Cons.IH [OF n(2)] Cons.prems n by (subst llist_for_each_from.simps) auto
qed

lemma llist_for_each_repr:
  assumes "llist_repr h head xs" shows "llist_for_each h head = Some xs"
proof -
  obtain f where f: "get_next h head = Some f" "path (get_next h) f xs head" "head \<notin> set xs"
    using assms by (auto simp: llist_repr_def ring_def)
  then have "get_next h f \<noteq> None" by (cases xs) auto
  then show ?thesis using f for_each_path [of h f xs head] by (auto simp: llist_for_each_def)
qed

lemma llist_empty_repr: "llist_repr h head xs \<Longrightarrow> llist_empty h head = Some (xs = [])"
  by (cases xs rule: rev_cases) (auto simp: llist_repr_def ring_def llist_empty_def)

subsection \<open>Histories of a list\<close>

datatype llist_op = L_append ptr | L_prepend ptr | L_insert_after ptr ptr | L_delete ptr

fun op_elem :: "llist_op \<Rightarrow> ptr" where
  "op_elem (L_append e) = e"
| "op_elem (L_prepend e) = e"
| "op_elem (L_insert_after a e) = e"
| "op_elem (L_delete e) = e"

fun llist_step :: "ptr \<Rightarrow> llist_op \<Rightarrow> llist_heap \<Rightarrow> llist_heap option" where
  "llist_step head (L_append e) h = llist_append h head e"
| "llist_step head (L_prepend e) h = llist_prepend h head e"
| "llist_step head (L_insert_after a e) h = llist_insert_after h a e"
| "llist_step head (L_delete e) h = llist_delete h e"

fun insert_behind :: "ptr \<Rightarrow> ptr \<Rightarrow> ptr list \<Rightarrow> ptr list" where
  "insert_behind a e [] = []"
| "insert_behind a e (x # xs) = (if x = a then x # e # xs else x # insert_behind a e xs)"

text \<open>
  The same operation on a sequence, \<open>None\<close> where the caller breaks its contract: inserting an
  element that is already linked, deleting one that is not.
\<close>

fun list_step :: "llist_op \<Rightarrow> ptr list \<Rightarrow> ptr list option" where
  "list_step (L_append e) xs = (if e \<in> set xs then None else Some (xs @ [e]))"
| "list_step (L_prepend e) xs = (if e \<in> set xs then None else Some (e # xs))"
| "list_step (L_insert_after a e) xs =
     (if e \<in> set xs \<or> a \<notin> set xs then None else Some (insert_behind a e xs))"
| "list_step (L_delete e) xs = (if e \<in> set xs then Some (remove1 e xs) else None)"

fun run_steps :: "('op \<Rightarrow> 's \<Rightarrow> 's option) \<Rightarrow> 'op list \<Rightarrow> 's \<Rightarrow> 's option" where
  "run_steps step [] s = Some s"
| "run_steps step (op # ops) s = do { s \<leftarrow> step op s; run_steps step ops s }"

lemma insert_behind_split:
  "a \<notin> set us \<Longrightarrow> insert_behind a e (us @ a # vs) = us @ a # e # vs"
  by (induction us) auto

lemma llist_step_repr:
  assumes r: "llist_repr h head xs" and s: "list_step op xs = Some ys"
    and e: "h (op_elem op) \<noteq> None" "op_elem op \<noteq> head"
  shows "\<exists>h'. llist_step head op h = Some h' \<and> llist_repr h' head ys \<and>
    (\<forall>q. h' q = None \<longleftrightarrow> h q = None)"
proof (cases op)
  case (L_append x)
  then show ?thesis using llist_append_ring [OF r] s e by (auto split: if_splits)
next
  case (L_prepend x)
  then show ?thesis
    using llist_insert_after_ring [of h "[]" head xs x] r s e
    by (auto simp: llist_repr_def llist_prepend_def llist_insert_after_def split: if_splits)
next
  case (L_insert_after a x)
  then have a: "a \<in> set xs" "x \<notin> set xs" "ys = insert_behind a x xs" using s by (auto split: if_splits)
  then obtain us vs where xs: "xs = us @ a # vs" "a \<notin> set us" by (metis split_list_first)
  then show ?thesis
    using llist_insert_after_ring [of h "head # us" a vs x] r a e L_insert_after
    by (auto simp: llist_repr_def insert_behind_split)
next
  case (L_delete x)
  then have x: "x \<in> set xs" "ys = remove1 x xs" using s by (auto split: if_splits)
  then obtain us vs where xs: "xs = us @ x # vs" "x \<notin> set us" by (metis split_list_first)
  then show ?thesis
    using llist_delete_ring [of h "head # us" x vs] r x L_delete
    by (auto simp: llist_repr_def remove1_append)
qed

lemma llist_init_head_repr:
  assumes "h head \<noteq> None"
  shows "\<exists>h'. llist_init_head h head = Some h' \<and> llist_repr h' head [] \<and>
    (\<forall>q. h' q = None \<longleftrightarrow> h q = None)"
proof -
  obtain h1 where h1: "set_next h head head = Some h1" "get_next h1 = (get_next h)(head \<mapsto> head)"
    "\<forall>q. h1 q = None \<longleftrightarrow> h q = None"
    using set_next_ok [of h head head] assms by blast
  moreover obtain h2 where "set_prev h1 head head = Some h2"
    "get_prev h2 = (get_prev h1)(head \<mapsto> head)" "get_next h2 = get_next h1"
    "\<forall>q. h2 q = None \<longleftrightarrow> h1 q = None"
    using set_prev_ok [of h1 head head] h1(3) assms by auto
  ultimately show ?thesis by (auto simp: llist_init_head_def llist_repr_def ring_one)
qed

lemma run_steps_repr:
  assumes "llist_repr h head xs" "run_steps list_step ops xs = Some ys"
    and "\<forall>op \<in> set ops. h (op_elem op) \<noteq> None \<and> op_elem op \<noteq> head"
  shows "\<exists>h'. run_steps (llist_step head) ops h = Some h' \<and> llist_repr h' head ys"
  using assms
proof (induction ops arbitrary: h xs)
  case (Cons op ops)
  obtain zs where zs: "list_step op xs = Some zs" "run_steps list_step ops zs = Some ys"
    using Cons.prems(2) by (auto simp: bind_eq_Some_conv)
  obtain h1 where h1: "llist_step head op h = Some h1" "llist_repr h1 head zs"
    "\<forall>q. h1 q = None \<longleftrightarrow> h q = None"
    using llist_step_repr [OF Cons.prems(1) zs(1)] Cons.prems(3) by auto
  show ?case using Cons.IH [OF h1(2) zs(2)] h1 Cons.prems(3) by auto
qed auto

subsection \<open>Chains\<close>

text \<open>The chain that starts in the pointer cell \<open>a\<close>; each node's \<open>pprev\<close> is the cell that points to it.\<close>

primrec hchain :: "hlist_mem \<Rightarrow> ptr \<Rightarrow> ptr list \<Rightarrow> bool" where
  "hchain m a [] = (hl_cell m a = Some 0)"
| "hchain m a (x # xs) = (hl_cell m a = Some x \<and> x \<noteq> 0 \<and> hl_pprev m x = Some a \<and> hchain m x xs)"

definition hlist_repr :: "hlist_mem \<Rightarrow> ptr \<Rightarrow> ptr list \<Rightarrow> bool" where
  "hlist_repr m head xs = (hchain m head xs \<and> distinct (head # xs) \<and> head \<noteq> 0)"

lemma hchain_cong:
  "(\<And>x. x \<in> set (a # xs) \<Longrightarrow> hl_cell m' x = hl_cell m x) \<Longrightarrow>
   (\<And>x. x \<in> set xs \<Longrightarrow> hl_pprev m' x = hl_pprev m x) \<Longrightarrow> hchain m' a xs = hchain m a xs"
  by (induction xs arbitrary: a) auto

lemma hlist_add_repr:
  assumes r: "hlist_repr m head xs"
    and node: "node \<notin> set (head # xs)" "node \<noteq> 0" "hl_cell m node \<noteq> None" "hl_pprev m node \<noteq> None"
  shows "\<exists>m'. hlist_add m head node = Some m' \<and> hlist_repr m' head (node # xs)"
proof (cases xs)
  case Nil
  then show ?thesis
    using r node by (auto simp: hlist_repr_def hlist_add_def hl_set_cell_def hl_set_pprev_def)
next
  case (Cons x ys)
  let ?m = "m\<lparr>hl_cell := (hl_cell m)(node \<mapsto> x, head \<mapsto> node),
             hl_pprev := (hl_pprev m)(x \<mapsto> node, node \<mapsto> head)\<rparr>"
  have "hchain ?m x ys = hchain m x ys"
    using r node Cons by (intro hchain_cong) (auto simp: hlist_repr_def)
  then have "hlist_repr ?m head (node # xs)" using r node Cons by (auto simp: hlist_repr_def)
  moreover have "hlist_add m head node = Some ?m"
    using r node Cons by (auto simp: hlist_repr_def hlist_add_def hl_set_cell_def hl_set_pprev_def)
  ultimately show ?thesis by blast
qed

lemma hchain_links:
  assumes "hchain m a xs" "x \<in> set xs" "distinct (a # xs)"
  shows "\<exists>p n. hl_pprev m x = Some p \<and> p \<in> set (a # xs) \<and> hl_cell m p = Some x \<and>
    hl_cell m x = Some n \<and> (n = 0 \<or> n \<in> set xs \<and> hl_pprev m n = Some x) \<and> p \<noteq> x \<and> n \<noteq> x"
  using assms
proof (induction xs arbitrary: a)
  case (Cons y ys)
  show ?case
  proof (cases "x = y")
    case True
    then show ?thesis using Cons.prems by (cases ys) auto
  next
    case False
    then have "x \<in> set ys" "hchain m y ys" "distinct (y # ys)" using Cons.prems by auto
    then show ?thesis using Cons.IH [of y] by auto
  qed
qed simp

definition hl_unlink :: "hlist_mem \<Rightarrow> ptr \<Rightarrow> ptr \<Rightarrow> ptr \<Rightarrow> hlist_mem" where
  "hl_unlink m x p n =
     m\<lparr>hl_cell := (hl_cell m)(p \<mapsto> n, x \<mapsto> 0),
       hl_pprev := (if n \<noteq> 0 then (hl_pprev m)(n \<mapsto> p) else hl_pprev m)(x \<mapsto> 0)\<rparr>"

lemma hchain_unlink:
  assumes "hchain m a xs" "distinct (a # xs)" "0 \<notin> set xs" "x \<in> set xs"
    "hl_pprev m x = Some p" "hl_cell m x = Some n"
  shows "hchain (hl_unlink m x p n) a (remove1 x xs)"
  using assms
proof (induction xs arbitrary: a)
  case (Cons y ys)
  show ?case
  proof (cases "x = y")
    case True
    show ?thesis
    proof (cases ys)
      case Nil
      then show ?thesis using Cons.prems True by (auto simp: hl_unlink_def)
    next
      case (Cons z zs)
      have "hchain (hl_unlink m x p n) z zs = hchain m z zs"
        using Cons.prems True Cons by (intro hchain_cong) (auto simp: hl_unlink_def)
      then show ?thesis using Cons.prems True Cons by (auto simp: hl_unlink_def)
    qed
  next
    case False
    then have y: "hchain m y ys" "x \<in> set ys" using Cons.prems by auto
    then have "p \<in> set (y # ys)" "n = 0 \<or> n \<in> set ys"
      using hchain_links [OF y] Cons.prems(2,5,6) by auto
    then have "hl_cell (hl_unlink m x p n) a = Some y" "hl_pprev (hl_unlink m x p n) y = Some a"
      using Cons.prems y False by (auto simp: hl_unlink_def)
    then show ?thesis using Cons.IH [OF y(1)] Cons.prems y False by simp
  qed
qed simp

lemma hlist_delete_repr:
  assumes r: "hlist_repr m head xs" and x: "x \<in> set xs"
  shows "\<exists>m'. hlist_delete m x = Some m' \<and> hlist_repr m' head (remove1 x xs) \<and>
    hl_pprev m' x = Some 0"
proof -
  have c: "hchain m head xs" "distinct (head # xs)" "head \<noteq> 0" using r by (auto simp: hlist_repr_def)
  have nz: "0 \<notin> set xs" using c(1) by (induction xs arbitrary: head) auto
  obtain p n where pn: "hl_pprev m x = Some p" "p \<in> set (head # xs)" "hl_cell m p = Some x"
    "hl_cell m x = Some n" "n = 0 \<or> n \<in> set xs \<and> hl_pprev m n = Some x"
    "p \<noteq> x" "n \<noteq> x"
    using hchain_links [OF c(1) x c(2)] by blast
  have ne: "p \<noteq> 0" using pn(2) nz c(3) by auto
  have "hlist_delete m x = Some (hl_unlink m x p n)"
    using pn ne by (auto simp: hlist_delete_def hl_set_cell_def hl_set_pprev_def hl_unlink_def)
  moreover have "hlist_repr (hl_unlink m x p n) head (remove1 x xs)"
    using hchain_unlink [OF c(1,2) nz x pn(1,4)] c set_remove1_subset [of x xs]
    by (auto simp: hlist_repr_def)
  ultimately show ?thesis by (auto simp: hl_unlink_def)
qed

text \<open>
  C14.  The circular lists behave as sequences.  From an initialised head, any history of appends,
  prepends, insertions and deletions that respects the contract (insert only unlinked elements,
  delete only linked ones) runs without touching memory outside the list, and a traversal then
  visits exactly the elements of the abstract sequence in order.
\<close>

theorem llist_history:
  assumes "h head \<noteq> None" "run_steps list_step ops [] = Some ys"
    and "\<forall>op \<in> set ops. h (op_elem op) \<noteq> None \<and> op_elem op \<noteq> head"
  shows "\<exists>h1 h2. llist_init_head h head = Some h1 \<and> run_steps (llist_step head) ops h1 = Some h2 \<and>
    llist_for_each h2 head = Some ys \<and> llist_empty h2 head = Some (ys = [])"
proof -
  obtain h1 where h1: "llist_init_head h head = Some h1" "llist_repr h1 head []"
    "\<forall>q. h1 q = None \<longleftrightarrow> h q = None"
    using llist_init_head_repr [of h head] assms(1) by blast
  moreover obtain h2 where "run_steps (llist_step head) ops h1 = Some h2" "llist_repr h2 head ys"
    using run_steps_repr [OF h1(2) assms(2)] assms(3) h1(3) by auto
  ultimately show ?thesis using llist_for_each_repr llist_empty_repr by blast
qed

theorem llist_history_witness:
  "\<exists>h1 h2. llist_init_head (\<lambda>p. Some \<lparr>ll_prev = 0, ll_next = 0\<rparr>) 8 = Some h1 \<and>
     run_steps (llist_step 8) [L_append 16, L_prepend 24, L_insert_after 24 32, L_delete 16] h1 = Some h2 \<and>
     llist_for_each h2 8 = Some [24, 32] \<and> llist_empty h2 8 = Some False"
  using llist_history [of "\<lambda>p. Some \<lparr>ll_prev = 0, ll_next = 0\<rparr>" 8
      "[L_append 16, L_prepend 24, L_insert_after 24 32, L_delete 16]" "[24, 32]"]
  by simp

end
