(* ===== verification/Llist_Queue.thy ===== *)
theory Llist_Queue
  imports Prelude
begin

text \<open>
  The queue of \<open>libs/llist_queue.c\<close>: a doubly linked list of nodes with a data pointer, used for
  event and handle lists.  Each operation runs under the queue's spinlock and is one step here.
  \<open>malloc\<close> and \<open>calloc\<close> are arguments: the addresses they return, 0 when they fail.
\<close>

subsection \<open>State\<close>

record list_node =
  ln_prev :: ptr
  ln_next :: ptr
  ln_data :: ptr

record list_queue =
  lq_head :: ptr
  lq_tail :: ptr
  lq_size :: size_t

type_synonym node_heap = "ptr \<Rightarrow> list_node option"

definition node_set_prev :: "node_heap \<Rightarrow> ptr \<Rightarrow> ptr \<Rightarrow> node_heap option" where
  "node_set_prev h p v = do { n \<leftarrow> h p; Some (h(p \<mapsto> n\<lparr>ln_prev := v\<rparr>)) }"

definition node_set_next :: "node_heap \<Rightarrow> ptr \<Rightarrow> ptr \<Rightarrow> node_heap option" where
  "node_set_next h p v = do { n \<leftarrow> h p; Some (h(p \<mapsto> n\<lparr>ln_next := v\<rparr>)) }"

definition node_free :: "node_heap \<Rightarrow> ptr \<Rightarrow> node_heap option" where
  "node_free h p = do { _ \<leftarrow> h p; Some (h(p := None)) }"

subsection \<open>Operations\<close>

text \<open>\<open>calloc(1, sizeof(list_queue_t))\<close>: a zeroed queue if \<open>calloc\<close> succeeds.\<close>

definition create_llist_queue :: "bool \<Rightarrow> list_queue option" where
  "create_llist_queue calloc_ok =
     (if calloc_ok then Some \<lparr>lq_head = 0, lq_tail = 0, lq_size = 0\<rparr> else None)"

text \<open>\<open>list_enqueue\<close> with \<open>new_node\<close> the address from \<open>malloc\<close>; the returned pointer comes first.\<close>

definition list_enqueue ::
  "node_heap \<Rightarrow> list_queue \<Rightarrow> ptr \<Rightarrow> ptr \<Rightarrow> (ptr \<times> node_heap \<times> list_queue) option" where
  "list_enqueue h q new_node data =
     (if new_node = 0 then Some (0, h, q)
      else do {
        (h, q) \<leftarrow>
          (if lq_size q = 0
           then Some (h(new_node \<mapsto> \<lparr>ln_prev = 0, ln_next = 0, ln_data = data\<rparr>),
                      q\<lparr>lq_head := new_node, lq_tail := new_node\<rparr>)
           else do {
             let h = h(new_node \<mapsto> \<lparr>ln_prev = lq_tail q, ln_next = 0, ln_data = data\<rparr>);
             h \<leftarrow> node_set_next h (lq_tail q) new_node;
             Some (h, q\<lparr>lq_tail := new_node\<rparr>) });
        Some (new_node, h, q\<lparr>lq_size := lq_size q + 1\<rparr>) })"

definition list_remove_node ::
  "node_heap \<Rightarrow> list_queue \<Rightarrow> ptr \<Rightarrow> (node_heap \<times> list_queue) option" where
  "list_remove_node h q node_to_remove =
     (if node_to_remove = 0 then Some (h, q)
      else do {
        n \<leftarrow> h node_to_remove;
        (h, q) \<leftarrow> (if ln_prev n \<noteq> 0
                   then do { h \<leftarrow> node_set_next h (ln_prev n) (ln_next n); Some (h, q) }
                   else Some (h, q\<lparr>lq_head := ln_next n\<rparr>));
        n \<leftarrow> h node_to_remove;
        (h, q) \<leftarrow> (if ln_next n \<noteq> 0
                   then do { h \<leftarrow> node_set_prev h (ln_next n) (ln_prev n); Some (h, q) }
                   else Some (h, q\<lparr>lq_tail := ln_prev n\<rparr>));
        h \<leftarrow> node_free h node_to_remove;
        Some (h, q\<lparr>lq_size := lq_size q - 1\<rparr>) })"

text \<open>
  The loop of \<open>free_llist_queue\<close>.  \<open>free_func\<close> says whether a function was given; the calls
  \<open>data_free_func(data, arg)\<close> are recorded by their data pointers.
\<close>

partial_function (option) free_nodes ::
  "bool \<Rightarrow> node_heap \<Rightarrow> ptr \<Rightarrow> (node_heap \<times> ptr list) option" where
  "free_nodes free_func h current =
     (if current = 0 then Some (h, [])
      else do {
        n \<leftarrow> h current;
        let calls = (if free_func \<and> ln_data n \<noteq> 0 then [ln_data n] else []);
        h \<leftarrow> node_free h current;
        (h, calls') \<leftarrow> free_nodes free_func h (ln_next n);
        Some (h, calls @ calls') })"

definition free_llist_queue ::
  "node_heap \<Rightarrow> list_queue \<Rightarrow> bool \<Rightarrow> (node_heap \<times> ptr list) option" where
  "free_llist_queue h q free_func = free_nodes free_func h (lq_head q)"

text \<open>
  The loop of \<open>copy_list_queue\<close>.  \<open>mallocs\<close> are the addresses successive calls of \<open>malloc\<close> return; a
  call beyond them fails.  \<open>None\<close> in the second result is the failure path, which has freed the
  nodes made so far.
\<close>

partial_function (option) copy_nodes ::
  "(ptr \<Rightarrow> ptr) \<Rightarrow> ptr list \<Rightarrow> node_heap \<Rightarrow> list_queue \<Rightarrow> ptr \<Rightarrow> ptr \<Rightarrow>
   (node_heap \<times> list_queue option) option" where
  "copy_nodes copy mallocs h new_queue prev_new current_src =
     (if current_src = 0 then Some (h, Some new_queue)
      else
        let new_node = (case mallocs of [] \<Rightarrow> 0 | a # _ \<Rightarrow> a)
        in if new_node = 0
           then do { (h, _) \<leftarrow> free_nodes False h (lq_head new_queue); Some (h, None) }
           else do {
             src \<leftarrow> h current_src;
             let h = h(new_node \<mapsto> \<lparr>ln_prev = prev_new, ln_next = 0, ln_data = copy (ln_data src)\<rparr>);
             (h, new_queue) \<leftarrow>
               (if lq_size new_queue = 0 \<or> prev_new = 0
                then Some (h, new_queue\<lparr>lq_head := new_node\<rparr>)
                else do { h \<leftarrow> node_set_next h prev_new new_node; Some (h, new_queue) });
             src \<leftarrow> h current_src;
             copy_nodes copy (tl mallocs) h
               (new_queue\<lparr>lq_tail := new_node, lq_size := lq_size new_queue + 1\<rparr>)
               new_node (ln_next src) })"

definition copy_list_queue ::
  "(ptr \<Rightarrow> ptr) \<Rightarrow> bool \<Rightarrow> ptr list \<Rightarrow> node_heap \<Rightarrow> list_queue \<Rightarrow>
   (node_heap \<times> list_queue option) option" where
  "copy_list_queue copy calloc_ok mallocs h src_queue =
     (case create_llist_queue calloc_ok of
        None \<Rightarrow> Some (h, None)
      | Some new_queue \<Rightarrow> copy_nodes copy mallocs h new_queue 0 (lq_head src_queue))"

declare free_nodes.simps [code] copy_nodes.simps [code]

subsection \<open>The list a queue stands for\<close>

definition lq_next :: "node_heap \<Rightarrow> ptr \<Rightarrow> ptr option" where
  "lq_next h p = map_option ln_next (h p)"

definition lq_prev :: "node_heap \<Rightarrow> ptr \<Rightarrow> ptr option" where
  "lq_prev h p = map_option ln_prev (h p)"

definition data_of :: "node_heap \<Rightarrow> ptr \<Rightarrow> ptr option" where
  "data_of h p = map_option ln_data (h p)"

definition lq_repr :: "node_heap \<Rightarrow> list_queue \<Rightarrow> ptr list \<Rightarrow> bool" where
  "lq_repr h q xs =
     (h 0 = None \<and> path (lq_next h) (lq_head q) xs 0 \<and> path (lq_prev h) (lq_tail q) (rev xs) 0 \<and>
      unat (lq_size q) = length xs)"

lemma lq_links [simp]:
  "lq_next (h(p \<mapsto> n)) = (lq_next h)(p \<mapsto> ln_next n)"
  "lq_prev (h(p \<mapsto> n)) = (lq_prev h)(p \<mapsto> ln_prev n)"
  "data_of (h(p \<mapsto> n)) = (data_of h)(p \<mapsto> ln_data n)"
  "lq_next (h(p := None)) = (lq_next h)(p := None)"
  "lq_prev (h(p := None)) = (lq_prev h)(p := None)"
  "data_of (h(p := None)) = (data_of h)(p := None)"
  by (auto simp: lq_next_def lq_prev_def data_of_def)

lemma lq_next_Some: "lq_next h p = Some z \<longleftrightarrow> (\<exists>n. h p = Some n \<and> ln_next n = z)"
  by (auto simp: lq_next_def)

lemma lq_reprD:
  assumes "lq_repr h q xs"
  shows "h 0 = None" "path (lq_next h) (lq_head q) xs 0" "path (lq_prev h) (lq_tail q) (rev xs) 0"
    "distinct xs" "0 \<notin> set xs" "\<And>p. p \<in> set xs \<Longrightarrow> h p \<noteq> None" "lq_size q = 0 \<longleftrightarrow> xs = []"
proof -
  show h: "h 0 = None" "path (lq_next h) (lq_head q) xs 0"
    "path (lq_prev h) (lq_tail q) (rev xs) 0"
    using assms by (simp_all add: lq_repr_def)
  then have n: "lq_next h 0 = None" by (simp add: lq_next_def)
  show "distinct xs" "0 \<notin> set xs"
    using path_distinct [OF h(2) n] path_end_not_in [OF h(2) n] by blast+
  show "h p \<noteq> None" if "p \<in> set xs" for p
    using path_defined [OF h(2) that] by (simp add: lq_next_def)
  show "lq_size q = 0 \<longleftrightarrow> xs = []" using assms by (auto simp: lq_repr_def unsigned_eq_0_iff)
qed

lemma lq_tail_last: "lq_repr h q xs \<Longrightarrow> lq_tail q = (if xs = [] then 0 else last xs)"
  using path_start [of "lq_prev h" "lq_tail q" "rev xs" 0]
  by (auto simp: lq_repr_def hd_rev)

lemma list_enqueue_repr:
  assumes r: "lq_repr h q xs" and new: "new_node \<noteq> 0" "h new_node = None"
  shows "\<exists>h' q'. list_enqueue h q new_node d = Some (new_node, h', q') \<and>
    lq_repr h' q' (xs @ [new_node]) \<and> data_of h' = (data_of h)(new_node \<mapsto> d) \<and>
    lq_next h' new_node = Some 0 \<and> (\<forall>p. p \<notin> set xs \<longrightarrow> p \<noteq> new_node \<longrightarrow> h' p = h p)"
proof -
  note rd = lq_reprD [OF r]
  have fresh: "new_node \<notin> set xs" using new(2) rd(6) [of new_node] by auto
  have "length (new_node # xs) < 2 ^ 64" using rd fresh new by (intro length_ptrs) auto
  then have size: "unat (lq_size q + 1) = length xs + 1"
    using r by (subst unat_inc_u64) (auto simp: lq_repr_def)
  show ?thesis
  proof (cases xs rule: rev_cases)
    case Nil
    then show ?thesis using r new size rd by (auto simp: list_enqueue_def lq_repr_def)
  next
    case (snoc ys t)
    have t: "lq_tail q = t" "t \<noteq> new_node" "t \<noteq> 0" "t \<notin> set ys"
      using lq_tail_last [OF r] rd snoc fresh by auto
    obtain nt where nt: "h t = Some nt" using rd(6) [of t] snoc by auto
    let ?h = "h(new_node \<mapsto> \<lparr>ln_prev = t, ln_next = 0, ln_data = d\<rparr>, t \<mapsto> nt\<lparr>ln_next := new_node\<rparr>)"
    have "list_enqueue h q new_node d =
        Some (new_node, ?h, q\<lparr>lq_tail := new_node, lq_size := lq_size q + 1\<rparr>)"
      using new t nt rd(7) snoc by (simp add: list_enqueue_def node_set_next_def Let_def)
    moreover have "lq_repr ?h (q\<lparr>lq_tail := new_node, lq_size := lq_size q + 1\<rparr>) (xs @ [new_node])"
      using r rd new t nt fresh size snoc unfolding lq_repr_def
      by (auto simp: lq_prev_def)
    moreover have "data_of ?h = (data_of h)(new_node \<mapsto> d)" "lq_next ?h new_node = Some 0"
      "\<forall>p. p \<notin> set xs \<longrightarrow> p \<noteq> new_node \<longrightarrow> ?h p = h p"
      using t nt snoc by (auto simp: data_of_def)
    ultimately show ?thesis by blast
  qed
qed

text \<open>Unlinking a node between its neighbours.\<close>

lemma list_remove_node_repr:
  assumes r: "lq_repr h q (us @ x # vs)"
  shows "\<exists>h' q'. list_remove_node h q x = Some (h', q') \<and> lq_repr h' q' (us @ vs) \<and> h' x = None \<and>
    (\<forall>p. p \<noteq> x \<longrightarrow> data_of h' p = data_of h p)"
proof -
  note rd = lq_reprD [OF r]
  obtain n where n: "h x = Some n" using rd(6) [of x] by auto
  have x: "x \<noteq> 0" "x \<notin> set us" "x \<notin> set vs" "set us \<inter> set vs = {}" using rd by auto
  have nxt: "path (lq_next h) (lq_head q) us x" "path (lq_next h) (ln_next n) vs 0"
    using rd(2) n by (auto simp: lq_next_def)
  have prv: "path (lq_prev h) (lq_tail q) (rev vs) x" "path (lq_prev h) (ln_prev n) (rev us) 0"
    using rd(3) n by (auto simp: lq_prev_def)
  have size: "unat (lq_size q - 1) = length (us @ vs)"
    using r by (subst unat_sub_le) (auto simp: lq_repr_def word_le_iff_unat)
  show ?thesis
  proof (cases us rule: rev_cases)
    case Nil
    then have p0: "ln_prev n = 0" using prv(2) by simp
    show ?thesis
    proof (cases vs)
      case Nil
      then show ?thesis
        using \<open>us = []\<close> p0 n x nxt size rd(1)
        by (auto simp: list_remove_node_def node_free_def lq_repr_def)
    next
      case (Cons b ws)
      then obtain nb where b: "ln_next n = b" "h b = Some nb" "b \<noteq> 0" "b \<noteq> x" "b \<notin> set ws"
        using nxt(2) rd x by (auto simp: lq_next_def)
      then show ?thesis
        using Cons \<open>us = []\<close> p0 n x nxt prv size rd(1)
        by (auto simp: list_remove_node_def node_free_def node_set_prev_def lq_repr_def data_of_def
            lq_next_def)
    qed
  next
    case (snoc ws a)
    then obtain na where a: "ln_prev n = a" "h a = Some na" "a \<noteq> 0" "a \<noteq> x" "a \<notin> set ws"
      using prv(2) rd x by (auto simp: lq_prev_def)
    show ?thesis
    proof (cases vs)
      case Nil
      then show ?thesis
        using snoc a n x nxt prv size rd(1)
        by (auto simp: list_remove_node_def node_free_def node_set_next_def lq_repr_def data_of_def
            lq_prev_def)
    next
      case (Cons b zs)
      then obtain nb where b: "ln_next n = b" "h b = Some nb" "b \<noteq> 0" "b \<noteq> x" "b \<notin> set zs"
        using nxt(2) rd x by (auto simp: lq_next_def)
      moreover have "a \<noteq> b" "a \<notin> set zs" "b \<notin> set ws" using x(4) snoc Cons by auto
      ultimately show ?thesis
        using snoc Cons a n x nxt prv size rd(1)
        by (auto simp: list_remove_node_def node_free_def node_set_next_def node_set_prev_def
            lq_repr_def data_of_def lq_prev_def lq_next_def)
    qed
  qed
qed

subsection \<open>Freeing and copying\<close>

definition free_call :: "bool \<Rightarrow> node_heap \<Rightarrow> ptr \<Rightarrow> ptr list" where
  "free_call free_func h p =
     (case h p of None \<Rightarrow> [] | Some n \<Rightarrow> if free_func \<and> ln_data n \<noteq> 0 then [ln_data n] else [])"

definition without :: "node_heap \<Rightarrow> ptr list \<Rightarrow> node_heap" where
  "without h xs = (\<lambda>p. if p \<in> set xs then None else h p)"

lemma without_simps: "without h [] = h" "without (h(p := None)) xs = without h (p # xs)"
  by (auto simp: without_def)

lemma free_nodes_path:
  assumes "path (lq_next h) current xs 0" "h 0 = None"
  shows "free_nodes free_func h current = Some (without h xs, concat (map (free_call free_func h) xs))"
  using assms
proof (induction xs arbitrary: h current)
  case Nil
  then show ?case by (subst free_nodes.simps) (simp add: without_simps)
next
  case (Cons x xs)
  have "lq_next h 0 = None" using Cons.prems(2) by (simp add: lq_next_def)
  then have x: "x \<noteq> 0" "x \<notin> set xs" "current = x"
    using path_distinct [OF Cons.prems(1)] path_end_not_in [OF Cons.prems(1)] Cons.prems(1) by auto
  obtain n where n: "h x = Some n" "path (lq_next h) (ln_next n) xs 0"
    using Cons.prems(1) by (auto simp: lq_next_Some)
  have calls: "map (free_call free_func (h(x := None))) xs = map (free_call free_func h) xs"
    using x(2) by (auto simp: free_call_def)
  have h': "path (lq_next (h(x := None))) (ln_next n) xs 0" "(h(x := None)) 0 = None"
    using n x Cons.prems(2) by simp_all
  have "free_nodes free_func (h(x := None)) (ln_next n) =
      Some (without h (x # xs), concat (map (free_call free_func h) xs))"
    using Cons.IH [OF h'] unfolding without_simps calls .
  then show ?case
    using n(1) x by (subst free_nodes.simps) (simp add: node_free_def free_call_def)
qed

lemma free_llist_queue_repr:
  assumes "lq_repr h q xs"
  shows "free_llist_queue h q free_func = Some (without h xs, concat (map (free_call free_func h) xs))"
  unfolding free_llist_queue_def using lq_reprD [OF assms] by (intro free_nodes_path)

text \<open>One round of the copying loop is an enqueue on the new queue.\<close>

lemma copy_nodes_step:
  assumes r: "lq_repr h nq ys" and src: "current \<noteq> 0" "h current = Some src" "current \<notin> set ys"
    and new: "new \<noteq> 0" "h new = None"
    and enq: "list_enqueue h nq new (copy (ln_data src)) = Some (new, h1, nq1)"
  shows "copy_nodes copy (new # ms) h nq (lq_tail nq) current = copy_nodes copy ms h1 nq1 new (ln_next src)"
proof -
  note rd = lq_reprD [OF r]
  have ne: "current \<noteq> new" using src new by auto
  show ?thesis
  proof (cases "ys = []")
    case True
    then have "lq_tail nq = 0" "lq_size nq = 0" using rd lq_tail_last [OF r] by auto
    then show ?thesis
      using src new enq ne by (subst copy_nodes.simps) (auto simp: list_enqueue_def)
  next
    case False
    then have t: "lq_tail nq = last ys" "lq_size nq \<noteq> 0" "last ys \<in> set ys"
      using rd lq_tail_last [OF r] by auto
    then have "lq_tail nq \<noteq> 0" "lq_tail nq \<noteq> current" using rd(5) src(3) by metis+
    then show ?thesis
      using src new enq ne t
      by (subst copy_nodes.simps) (auto simp: list_enqueue_def node_set_next_def bind_eq_Some_conv)
  qed
qed

lemma copy_nodes_repr:
  assumes "lq_repr h nq ys" "path (lq_next h) current xs 0" "set xs \<inter> set ys = {}"
    and "distinct ms" "\<forall>m \<in> set ms. m \<noteq> 0 \<and> h m = None"
  shows "\<exists>h'. if length xs \<le> length ms
     then \<exists>nq'. copy_nodes copy ms h nq (lq_tail nq) current = Some (h', Some nq') \<and>
       lq_repr h' nq' (ys @ take (length xs) ms) \<and>
       (\<forall>p. p \<notin> set ys \<longrightarrow> p \<notin> set ms \<longrightarrow> h' p = h p) \<and>
       map (data_of h') (ys @ take (length xs) ms) =
         map (data_of h) ys @ map (map_option copy \<circ> data_of h) xs
     else copy_nodes copy ms h nq (lq_tail nq) current = Some (without h ys, None)"
  using assms
proof (induction xs arbitrary: h nq ys ms current)
  case Nil
  then show ?case by (subst copy_nodes.simps) auto
next
  case (Cons x xs)
  note rd = lq_reprD [OF Cons.prems(1)]
  have n0: "lq_next h 0 = None" using rd(1) by (simp add: lq_next_def)
  have x: "current = x" "x \<noteq> 0" "x \<notin> set xs" "x \<notin> set ys"
    using path_distinct [OF Cons.prems(2) n0] path_end_not_in [OF Cons.prems(2) n0] Cons.prems(2,3)
    by auto
  obtain src where src: "h x = Some src" "path (lq_next h) (ln_next src) xs 0"
    using Cons.prems(2) by (auto simp: lq_next_Some)
  show ?case
  proof (cases ms)
    case Nil
    then show ?thesis
      using x free_nodes_path [OF rd(2,1)] by (subst copy_nodes.simps) simp
  next
    case (Cons m ms')
    have m: "m \<noteq> 0" "h m = None" "m \<notin> set ms'" using Cons.prems(4,5) Cons by auto
    then have my: "m \<notin> set ys" using rd(6) [of m] by auto
    obtain h1 nq1 where enq: "list_enqueue h nq m (copy (ln_data src)) = Some (m, h1, nq1)"
      "lq_repr h1 nq1 (ys @ [m])" "data_of h1 = (data_of h)(m \<mapsto> copy (ln_data src))"
      "\<forall>p. p \<notin> set ys \<longrightarrow> p \<noteq> m \<longrightarrow> h1 p = h p"
      using list_enqueue_repr [OF Cons.prems(1) m(1,2)] by blast
    have step: "copy_nodes copy ms h nq (lq_tail nq) current =
        copy_nodes copy ms' h1 nq1 (lq_tail nq1) (ln_next src)"
      using copy_nodes_step [of h nq ys x src m copy h1 nq1 ms'] Cons.prems(1) x src(1) m enq(1) Cons
        lq_tail_last [OF enq(2)] by simp
    have xs: "\<And>p. p \<in> set xs \<Longrightarrow> p \<noteq> m \<and> p \<notin> set ys \<and> h1 p = h p"
      using path_defined [OF src(2)] Cons.prems(3) enq(4) m(2) by (fastforce simp: lq_next_def)
    have path1: "path (lq_next h1) (ln_next src) xs 0"
      using src(2) xs path_cong [of xs "lq_next h1" "lq_next h"] by (simp add: lq_next_def)
    have dj: "set xs \<inter> set (ys @ [m]) = {}" using xs by auto
    have ms': "distinct ms'" "\<forall>p \<in> set ms'. p \<noteq> 0 \<and> h1 p = None"
      using Cons.prems(4,5) Cons enq(4) m rd(6) by fastforce+
    have dat: "map (map_option copy \<circ> data_of h1) xs = map (map_option copy \<circ> data_of h) xs"
      "map (data_of h1) ys = map (data_of h) ys"
      using xs enq(3) my by (auto simp: data_of_def)
    have wo: "without h1 (ys @ [m]) = without h ys" using enq(4) m(2) by (auto simp: without_def)
    have "\<exists>h'. if length xs \<le> length ms'
     then \<exists>nq'. copy_nodes copy ms' h1 nq1 (lq_tail nq1) (ln_next src) = Some (h', Some nq') \<and>
       lq_repr h' nq' ((ys @ [m]) @ take (length xs) ms') \<and>
       (\<forall>p. p \<notin> set (ys @ [m]) \<longrightarrow> p \<notin> set ms' \<longrightarrow> h' p = h1 p) \<and>
       map (data_of h') ((ys @ [m]) @ take (length xs) ms') =
         map (data_of h1) (ys @ [m]) @ map (map_option copy \<circ> data_of h1) xs
     else copy_nodes copy ms' h1 nq1 (lq_tail nq1) (ln_next src) = Some (without h1 (ys @ [m]), None)"
      by (rule Cons.IH [OF enq(2) path1 dj ms'])
    then show ?thesis
      unfolding step dat wo map_append using Cons src enq(3,4)
      by (auto simp: data_of_def split: if_splits)
  qed
qed

text \<open>A queue of two nodes with data 0x100 and 0x200.\<close>

definition two_nodes :: node_heap where
  "two_nodes = [8 \<mapsto> \<lparr>ln_prev = 0, ln_next = 16, ln_data = 0x100\<rparr>,
                16 \<mapsto> \<lparr>ln_prev = 8, ln_next = 0, ln_data = 0x200\<rparr>]"

definition two_queue :: list_queue where
  "two_queue = \<lparr>lq_head = 8, lq_tail = 16, lq_size = 2\<rparr>"

lemma two_repr: "lq_repr two_nodes two_queue [8, 16]"
  by (simp add: lq_repr_def two_nodes_def two_queue_def lq_next_def lq_prev_def)

text \<open>
  C15.  \<open>list_remove_node\<close> takes a node out of any position of the queue: head, middle, tail or the
  only one.  The other nodes keep their order and data, both link directions and the size stay
  consistent, and the node is freed.
\<close>

theorem list_remove_node_unlinks:
  assumes "lq_repr h q (us @ x # vs)"
  shows "\<exists>h' q'. list_remove_node h q x = Some (h', q') \<and> lq_repr h' q' (us @ vs) \<and> h' x = None \<and>
    (\<forall>p. p \<noteq> x \<longrightarrow> data_of h' p = data_of h p)"
  using assms by (rule list_remove_node_repr)

theorem list_remove_node_unlinks_witness:
  "\<exists>h' q'. list_remove_node two_nodes two_queue 8 = Some (h', q') \<and> lq_repr h' q' [16] \<and> h' 8 = None \<and>
    (\<forall>p. p \<noteq> 8 \<longrightarrow> data_of h' p = data_of two_nodes p)"
  using list_remove_node_unlinks [of two_nodes two_queue "[]" 8 "[16]"] two_repr by simp

text \<open>
  C16.  \<open>copy_list_queue\<close> is all or nothing.  If every allocation succeeds it returns a queue of the
  new nodes, in order, holding the copied data, and leaves the source queue as it was.  If any
  allocation fails it returns \<open>NULL\<close> and the heap is exactly what it was before.
\<close>

theorem copy_list_queue_all_or_nothing:
  assumes r: "lq_repr h q xs" and ms: "distinct ms" "\<forall>m \<in> set ms. m \<noteq> 0 \<and> h m = None"
  shows "if calloc_ok \<and> length xs \<le> length ms
    then \<exists>h' q'. copy_list_queue copy calloc_ok ms h q = Some (h', Some q') \<and>
      lq_repr h' q' (take (length xs) ms) \<and> lq_repr h' q xs \<and>
      map (data_of h') (take (length xs) ms) = map (map_option copy \<circ> data_of h) xs
    else copy_list_queue copy calloc_ok ms h q = Some (h, None)"
proof -
  note rd = lq_reprD [OF r]
  let ?nq = "\<lparr>lq_head = 0, lq_tail = 0, lq_size = 0\<rparr>"
  have nq: "lq_repr h ?nq []" using rd(1) by (simp add: lq_repr_def)
  have eq: "copy_list_queue copy calloc_ok ms h q =
    (if calloc_ok then copy_nodes copy ms h ?nq (lq_tail ?nq) (lq_head q) else Some (h, None))"
    by (simp add: copy_list_queue_def create_llist_queue_def)
  have keep: "lq_repr h' q xs" if "\<forall>p. p \<notin> set ms \<longrightarrow> h' p = h p" for h'
  proof -
    have "h' p = h p" if "p \<in> set xs" for p using that rd(6) ms(2) \<open>\<forall>p. p \<notin> set ms \<longrightarrow> h' p = h p\<close> by metis
    moreover have "h' 0 = None" using rd(1) ms(2) that by metis
    ultimately show ?thesis
      using r path_cong [of xs "lq_next h'" "lq_next h"] path_cong [of "rev xs" "lq_prev h'" "lq_prev h"]
      by (simp add: lq_repr_def lq_next_def lq_prev_def)
  qed
  show ?thesis
    using copy_nodes_repr [OF nq rd(2) _ ms, of copy] keep unfolding eq
    by (auto simp: without_simps split: if_splits)
qed

theorem copy_list_queue_all_or_nothing_witness:
  "(\<exists>h' q'. copy_list_queue (\<lambda>d. d + 1) True [24, 32] two_nodes two_queue = Some (h', Some q') \<and>
      lq_repr h' q' [24, 32] \<and> map (data_of h') [24, 32] = [Some 0x101, Some 0x201]) \<and>
   copy_list_queue (\<lambda>d. d + 1) True [24] two_nodes two_queue = Some (two_nodes, None)"
  using copy_list_queue_all_or_nothing [OF two_repr, of "[24, 32]" True "\<lambda>d. d + 1"]
    copy_list_queue_all_or_nothing [OF two_repr, of "[24]" True "\<lambda>d. d + 1"]
  by (auto simp: two_nodes_def data_of_def)

end
