(* ===== verification/Klibc_Mem.thy ===== *)
theory Klibc_Mem
  imports Prelude
begin

text \<open>
  The memory functions of \<open>libs/klibc.c\<close>: \<open>memcpy\<close>, \<open>memset\<close>, \<open>memmove\<close>, \<open>memcmp\<close>, \<open>memchr\<close>.
  Memory is a partial map from byte addresses; an access to an address outside its domain is
  \<open>None\<close>.  Addresses and sizes are natural numbers (pointer arithmetic that leaves the address space is
  undefined in C); where the source computes with wrap-around, in the overlap test of \<open>memmove\<close> and the
  zero-byte test of \<open>memchr\<close>, 64-bit words are used.  Word-sized accesses are little-endian.
\<close>

subsection \<open>Byte memory\<close>

type_synonym bmem = "nat \<Rightarrow> u8 option"

definition store8 :: "bmem \<Rightarrow> nat \<Rightarrow> u8 \<Rightarrow> bmem option" where
  "store8 m a v = (case m a of None \<Rightarrow> None | Some _ \<Rightarrow> Some (m(a \<mapsto> v)))"

primrec load_bytes :: "bmem \<Rightarrow> nat \<Rightarrow> nat \<Rightarrow> u8 list option" where
  "load_bytes m a 0 = Some []"
| "load_bytes m a (Suc k) = do { b \<leftarrow> m a; bs \<leftarrow> load_bytes m (a + 1) k; Some (b # bs) }"

primrec store_bytes :: "bmem \<Rightarrow> nat \<Rightarrow> u8 list \<Rightarrow> bmem option" where
  "store_bytes m a [] = Some m"
| "store_bytes m a (b # bs) = do { m \<leftarrow> store8 m a b; store_bytes m (a + 1) bs }"

text \<open>The bytes of a word in memory order, and the word of eight bytes.\<close>

definition bytes_of :: "nat \<Rightarrow> nat \<Rightarrow> u8 list" where
  "bytes_of k v = map (\<lambda>i. of_nat (v div 256 ^ i)) [0..<k]"

primrec nat_of_bytes :: "u8 list \<Rightarrow> nat" where
  "nat_of_bytes [] = 0"
| "nat_of_bytes (b # bs) = unat b + 256 * nat_of_bytes bs"

definition store32 :: "bmem \<Rightarrow> nat \<Rightarrow> u32 \<Rightarrow> bmem option" where
  "store32 m a v = store_bytes m a (bytes_of 4 (unat v))"

definition store64 :: "bmem \<Rightarrow> nat \<Rightarrow> u64 \<Rightarrow> bmem option" where
  "store64 m a v = store_bytes m a (bytes_of 8 (unat v))"

definition load64 :: "bmem \<Rightarrow> nat \<Rightarrow> u64 option" where
  "load64 m a = do { bs \<leftarrow> load_bytes m a 8; Some (of_nat (nat_of_bytes bs)) }"

text \<open>An assignment \<open>*(T *)d = *(T *)s\<close> for a type of \<open>k\<close> bytes.\<close>

definition copy_word :: "nat \<Rightarrow> bmem \<Rightarrow> nat \<Rightarrow> nat \<Rightarrow> bmem option" where
  "copy_word k m d s = do { bs \<leftarrow> load_bytes m s k; store_bytes m d bs }"

subsection \<open>\<open>memcpy\<close>\<close>

fun copy_align :: "bmem \<Rightarrow> nat \<Rightarrow> nat \<Rightarrow> nat \<Rightarrow> (bmem \<times> nat \<times> nat \<times> nat) option" where
  "copy_align m d s n =
     (if s mod 8 \<noteq> 0 \<and> n \<noteq> 0
      then do { m \<leftarrow> copy_word 1 m d s; copy_align m (d + 1) (s + 1) (n - 1) }
      else Some (m, d, s, n))"

declare copy_align.simps [simp del]

fun copy_blocks :: "bmem \<Rightarrow> nat \<Rightarrow> nat \<Rightarrow> nat \<Rightarrow> (bmem \<times> nat \<times> nat \<times> nat) option" where
  "copy_blocks m d s n =
     (if n \<ge> 32
      then do { m \<leftarrow> copy_word 8 m (d + 0) (s + 0);
                m \<leftarrow> copy_word 8 m (d + 8) (s + 8);
                m \<leftarrow> copy_word 8 m (d + 16) (s + 16);
                m \<leftarrow> copy_word 8 m (d + 24) (s + 24);
                copy_blocks m (d + 32) (s + 32) (n - 32) }
      else Some (m, d, s, n))"

declare copy_blocks.simps [simp del]

primrec copy_bytes :: "bmem \<Rightarrow> nat \<Rightarrow> nat \<Rightarrow> nat \<Rightarrow> bmem option" where
  "copy_bytes m d s 0 = Some m"
| "copy_bytes m d s (Suc n) = do { m \<leftarrow> copy_word 1 m d s; copy_bytes m (d + 1) (s + 1) n }"

text \<open>The conditional copies of the last 31 bytes at most.\<close>

definition memcpy_tail :: "bmem \<Rightarrow> nat \<Rightarrow> nat \<Rightarrow> nat \<Rightarrow> bmem option" where
  "memcpy_tail m d s n =
     do { (m, d, s) \<leftarrow> (if bit n 4
                        then do { m \<leftarrow> copy_word 8 m (d + 0) (s + 0);
                                  m \<leftarrow> copy_word 8 m (d + 8) (s + 8);
                                  Some (m, d + 16, s + 16) }
                        else Some (m, d, s));
          (m, d, s) \<leftarrow> (if bit n 3
                        then do { m \<leftarrow> copy_word 8 m (d + 0) (s + 0); Some (m, d + 8, s + 8) }
                        else Some (m, d, s));
          (m, d, s) \<leftarrow> (if bit n 2
                        then do { m \<leftarrow> copy_word 4 m (d + 0) (s + 0); Some (m, d + 4, s + 4) }
                        else Some (m, d, s));
          (m, d, s) \<leftarrow> (if bit n 1
                        then do { m \<leftarrow> copy_word 1 m d s;
                                  m \<leftarrow> copy_word 1 m (d + 1) (s + 1);
                                  Some (m, d + 2, s + 2) }
                        else Some (m, d, s));
          if bit n 0 then copy_word 1 m d s else Some m }"

definition memcpy :: "bmem \<Rightarrow> nat \<Rightarrow> nat \<Rightarrow> nat \<Rightarrow> bmem option" where
  "memcpy m dest src n =
     do { (m, d, s, n) \<leftarrow> copy_align m dest src n;
          if d mod 8 = 0
          then do {
            (m, d, s, n) \<leftarrow> copy_blocks m d s n;
            memcpy_tail m d s n }
          else copy_bytes m d s n }"

subsection \<open>\<open>memset\<close>\<close>

fun set_blocks :: "bmem \<Rightarrow> nat \<Rightarrow> u64 \<Rightarrow> nat \<Rightarrow> bmem option" where
  "set_blocks m s c64 n =
     (if n \<ge> 32
      then do { m \<leftarrow> store64 m (s + 0) c64;
                m \<leftarrow> store64 m (s + 8) c64;
                m \<leftarrow> store64 m (s + 16) c64;
                m \<leftarrow> store64 m (s + 24) c64;
                set_blocks m (s + 32) c64 (n - 32) }
      else Some m)"

declare set_blocks.simps [simp del]

text \<open>
  The word-wise part of \<open>memset\<close>, entered for more than eight bytes with \<open>s\<close> four-byte aligned and
  \<open>n\<close> a multiple of four.
\<close>

definition set_words :: "bmem \<Rightarrow> nat \<Rightarrow> u32 \<Rightarrow> nat \<Rightarrow> bmem option" where
  "set_words m s c32 n =
     do { m \<leftarrow> store32 m (s + 0) c32;
          m \<leftarrow> store32 m (s + n - 4) c32;
          if n \<le> 8 then Some m
          else do {
            m \<leftarrow> store32 m (s + 4) c32;
            m \<leftarrow> store32 m (s + 8) c32;
            m \<leftarrow> store32 m (s + n - 12) c32;
            m \<leftarrow> store32 m (s + n - 8) c32;
            if n \<le> 24 then Some m
            else do {
              m \<leftarrow> store32 m (s + 12) c32;
              m \<leftarrow> store32 m (s + 16) c32;
              m \<leftarrow> store32 m (s + 20) c32;
              m \<leftarrow> store32 m (s + 24) c32;
              m \<leftarrow> store32 m (s + n - 28) c32;
              m \<leftarrow> store32 m (s + n - 24) c32;
              m \<leftarrow> store32 m (s + n - 20) c32;
              m \<leftarrow> store32 m (s + n - 16) c32;
              let k = 24 + (if bit s 2 then 4 else 0);
              let c64 = (ucast c32 OR push_bit 32 (ucast c32) :: u64);
              set_blocks m (s + k) c64 (n - k) } } }"

definition memset :: "bmem \<Rightarrow> nat \<Rightarrow> u8 \<Rightarrow> nat \<Rightarrow> bmem option" where
  "memset m dest c n =
     (if n = 0 then Some m
      else do {
        m \<leftarrow> store8 m (dest + 0) c;
        m \<leftarrow> store8 m (dest + (n - 1)) c;
        if n \<le> 2 then Some m
        else do {
          m \<leftarrow> store8 m (dest + 1) c;
          m \<leftarrow> store8 m (dest + 2) c;
          m \<leftarrow> store8 m (dest + (n - 2)) c;
          m \<leftarrow> store8 m (dest + (n - 3)) c;
          if n \<le> 6 then Some m
          else do {
            m \<leftarrow> store8 m (dest + 3) c;
            m \<leftarrow> store8 m (dest + (n - 4)) c;
            if n \<le> 8 then Some m
            else do {
              let k = (4 - dest mod 4) mod 4;
              let n = (n - k) div 4 * 4;
              let c32 = ((- 1) div 255 * ucast c :: u32);
              set_words m (dest + k) c32 n } } } })"

subsection \<open>\<open>memmove\<close>\<close>

text \<open>The alignment loop of the forward branch; the flag says that the copy ended inside it.\<close>

fun move_align_up :: "bmem \<Rightarrow> nat \<Rightarrow> nat \<Rightarrow> nat \<Rightarrow> (bool \<times> bmem \<times> nat \<times> nat \<times> nat) option" where
  "move_align_up m d s n =
     (if d mod 8 \<noteq> 0
      then if n = 0 then Some (True, m, d, s, n)
           else do { m \<leftarrow> copy_word 1 m d s; move_align_up m (d + 1) (s + 1) (n - 1) }
      else Some (False, m, d, s, n))"

declare move_align_up.simps [simp del]

fun move_words_up :: "bmem \<Rightarrow> nat \<Rightarrow> nat \<Rightarrow> nat \<Rightarrow> (bmem \<times> nat \<times> nat \<times> nat) option" where
  "move_words_up m d s n =
     (if n \<ge> 8
      then do { m \<leftarrow> copy_word 8 m d s; move_words_up m (d + 8) (s + 8) (n - 8) }
      else Some (m, d, s, n))"

declare move_words_up.simps [simp del]

fun move_align_down :: "bmem \<Rightarrow> nat \<Rightarrow> nat \<Rightarrow> nat \<Rightarrow> (bool \<times> bmem \<times> nat) option" where
  "move_align_down m d s n =
     (if (d + n) mod 8 \<noteq> 0
      then if n = 0 then Some (True, m, n)
           else do { m \<leftarrow> copy_word 1 m (d + (n - 1)) (s + (n - 1)); move_align_down m d s (n - 1) }
      else Some (False, m, n))"

declare move_align_down.simps [simp del]

fun move_words_down :: "bmem \<Rightarrow> nat \<Rightarrow> nat \<Rightarrow> nat \<Rightarrow> (bmem \<times> nat) option" where
  "move_words_down m d s n =
     (if n \<ge> 8
      then do { m \<leftarrow> copy_word 8 m (d + (n - 8)) (s + (n - 8)); move_words_down m d s (n - 8) }
      else Some (m, n))"

declare move_words_down.simps [simp del]

primrec copy_bytes_down :: "bmem \<Rightarrow> nat \<Rightarrow> nat \<Rightarrow> nat \<Rightarrow> bmem option" where
  "copy_bytes_down m d s 0 = Some m"
| "copy_bytes_down m d s (Suc n) = do { m \<leftarrow> copy_word 1 m (d + n) (s + n); copy_bytes_down m d s n }"

definition no_overlap :: "nat \<Rightarrow> nat \<Rightarrow> nat \<Rightarrow> bool" where
  "no_overlap d s n =
     ((of_nat s - of_nat d - of_nat n :: u64) \<le> - 2 * of_nat n)"

definition memmove :: "bmem \<Rightarrow> nat \<Rightarrow> nat \<Rightarrow> nat \<Rightarrow> bmem option" where
  "memmove m d s n =
     (if d = s then Some m
      else if no_overlap d s n then memcpy m d s n
      else if d < s then
        do { (done, m, d, s, n) \<leftarrow>
               (if s mod 8 = d mod 8
                then do { (done, m, d, s, n) \<leftarrow> move_align_up m d s n;
                          if done then Some (True, m, d, s, n)
                          else do { (m, d, s, n) \<leftarrow> move_words_up m d s n;
                                    Some (False, m, d, s, n) } }
                else Some (False, m, d, s, n));
             if done then Some m else copy_bytes m d s n }
      else
        do { (done, m, n) \<leftarrow>
               (if s mod 8 = d mod 8
                then do { (done, m, n) \<leftarrow> move_align_down m d s n;
                          if done then Some (True, m, n)
                          else do { (m, n) \<leftarrow> move_words_down m d s n; Some (False, m, n) } }
                else Some (False, m, n));
             if done then Some m else copy_bytes_down m d s n })"

subsection \<open>\<open>memcmp\<close> and \<open>memchr\<close>\<close>

primrec memcmp :: "bmem \<Rightarrow> nat \<Rightarrow> nat \<Rightarrow> nat \<Rightarrow> int option" where
  "memcmp m p1 p2 0 = Some 0"
| "memcmp m p1 p2 (Suc n) =
     do { a \<leftarrow> m p1;
          b \<leftarrow> m p2;
          if a \<noteq> b then Some (if a < b then - 1 else 1) else memcmp m (p1 + 1) (p2 + 1) n }"

definition ONES :: u64 where "ONES = (- 1) div 255"

definition HIGHS :: u64 where "HIGHS = ONES * (255 div 2 + 1)"

definition HASZERO :: "u64 \<Rightarrow> bool" where
  "HASZERO x = ((x - ONES) AND (NOT x AND HIGHS) \<noteq> 0)"

text \<open>
  A byte loop \<open>for (; guard && n && *s != c; s++, n--)\<close>; the guard of the first one looks at the
  address.
\<close>

fun chr_bytes :: "(nat \<Rightarrow> bool) \<Rightarrow> bmem \<Rightarrow> u8 \<Rightarrow> nat \<Rightarrow> nat \<Rightarrow> (nat \<times> nat) option" where
  "chr_bytes guard m c s n =
     (if guard s \<and> n \<noteq> 0
      then do { b \<leftarrow> m s;
                if b \<noteq> c then chr_bytes guard m c (s + 1) (n - 1) else Some (s, n) }
      else Some (s, n))"

declare chr_bytes.simps [simp del]

fun chr_words :: "bmem \<Rightarrow> u64 \<Rightarrow> nat \<Rightarrow> nat \<Rightarrow> (nat \<times> nat) option" where
  "chr_words m k w n =
     (if n \<ge> 8
      then do { x \<leftarrow> load64 m w;
                if \<not> HASZERO (x XOR k) then chr_words m k (w + 8) (n - 8) else Some (w, n) }
      else Some (w, n))"

declare chr_words.simps [simp del]

text \<open>The result is the address found, \<open>None\<close> inside for \<open>NULL\<close>.\<close>

definition memchr :: "bmem \<Rightarrow> nat \<Rightarrow> u8 \<Rightarrow> nat \<Rightarrow> nat option option" where
  "memchr m src c n =
     do { (s, n) \<leftarrow> chr_bytes (\<lambda>s. bit s 3) m c src n;
          (s, n) \<leftarrow> (if n = 0 then Some (s, n)
                     else do { b \<leftarrow> m s;
                               if b \<noteq> c
                               then do { (s, n) \<leftarrow> chr_words m (ONES * ucast c) s n;
                                         chr_bytes (\<lambda>_. True) m c s n }
                               else Some (s, n) });
          Some (if n \<noteq> 0 then Some s else None) }"

subsection \<open>Accesses to a range\<close>

definition acc :: "bmem \<Rightarrow> nat \<Rightarrow> nat \<Rightarrow> bool" where
  "acc m a n = (\<forall>x. a \<le> x \<and> x < a + n \<longrightarrow> m x \<noteq> None)"

text \<open>The memory in which \<open>n\<close> bytes at \<open>d\<close> have the values the bytes at \<open>s\<close> had.\<close>

definition copied :: "bmem \<Rightarrow> nat \<Rightarrow> nat \<Rightarrow> nat \<Rightarrow> bmem" where
  "copied m d s n = (\<lambda>x. if d \<le> x \<and> x < d + n then m (s + (x - d)) else m x)"

lemma acc_sub: "acc m a n \<Longrightarrow> a \<le> b \<Longrightarrow> b + k \<le> a + n \<Longrightarrow> acc m b k"
  by (auto simp: acc_def)

lemma accD: "acc m a n \<Longrightarrow> a \<le> x \<Longrightarrow> x < a + n \<Longrightarrow> m x \<noteq> None"
  by (simp add: acc_def)

lemma copied_0 [simp]: "copied m d s 0 = m"
  by (auto simp: copied_def fun_eq_iff)

lemma copied_None:
  assumes "acc m d n" "acc m s n" shows "copied m d s n x = None \<longleftrightarrow> m x = None"
proof (cases "d \<le> x \<and> x < d + n")
  case True
  then have "s + (x - d) < s + n" by linarith
  then show ?thesis
    using True accD [OF assms(1), of x] accD [OF assms(2), of "s + (x - d)"]
    by (simp add: copied_def del: diff_add_assoc diff_add_assoc2 add_diff_assoc add_diff_assoc2) auto
qed (auto simp: copied_def)

lemma acc_copied: "acc m d n \<Longrightarrow> acc m s n \<Longrightarrow> acc (copied m d s n) a k = acc m a k"
  unfolding acc_def [of "copied m d s n"] acc_def [of m a k] by (simp only: copied_None)

lemma load_bytes_acc: "acc m a k \<Longrightarrow> load_bytes m a k = Some (map (\<lambda>i. the (m (a + i))) [0..<k])"
proof (induction k arbitrary: a)
  case (Suc k)
  have "acc m (a + 1) k" "m a \<noteq> None" using Suc.prems by (auto simp: acc_def)
  moreover have "map (\<lambda>i. the (m (a + i))) [0..<Suc k] =
      the (m a) # map (\<lambda>i. the (m (a + 1 + i))) [0..<k]"
    by (simp add: map_upt_Suc del: upt_Suc)
  ultimately show ?case using Suc.IH [of "a + 1"] by (auto simp del: upt_Suc)
qed simp

lemma store_bytes_acc:
  "acc m a (length bs) \<Longrightarrow>
   store_bytes m a bs = Some (\<lambda>x. if a \<le> x \<and> x < a + length bs then Some (bs ! (x - a)) else m x)"
proof (induction bs arbitrary: m a)
  case (Cons b bs)
  have a: "m a \<noteq> None" "acc (m(a \<mapsto> b)) (a + 1) (length bs)" using Cons.prems by (auto simp: acc_def)
  have "store_bytes m a (b # bs) = store_bytes (m(a \<mapsto> b)) (a + 1) bs"
    using a(1) by (auto simp: store8_def)
  also have "\<dots> = Some (\<lambda>x. if a \<le> x \<and> x < a + length (b # bs) then Some ((b # bs) ! (x - a)) else m x)"
    unfolding Cons.IH [OF a(2)] by (auto simp: nth_Cons' fun_eq_iff)
  finally show ?case .
qed (auto simp: fun_eq_iff)

lemma copy_word_acc:
  assumes "acc m d k" "acc m s k" shows "copy_word k m d s = Some (copied m d s k)"
proof -
  have "Some (the (m (s + (x - d)))) = m (s + (x - d))" if "d \<le> x" "x < d + k" for x
    using accD [OF assms(2), of "s + (x - d)"] that by auto
  then show ?thesis
    using assms
    by (auto simp: copy_word_def load_bytes_acc store_bytes_acc copied_def fun_eq_iff)
qed

subsection \<open>Copying upwards\<close>

text \<open>Copying from low to high addresses is safe if the source is above or apart.\<close>

definition up_ok :: "bmem \<Rightarrow> nat \<Rightarrow> nat \<Rightarrow> nat \<Rightarrow> bool" where
  "up_ok m d s n = (acc m d n \<and> acc m s n \<and> (d \<le> s \<or> s + n \<le> d))"

lemma up_ok_word: "up_ok m d s n \<Longrightarrow> k \<le> n \<Longrightarrow> copy_word k m d s = Some (copied m d s k)"
  by (rule copy_word_acc) (auto simp: up_ok_def intro: acc_sub)

lemma up_ok_next:
  assumes "up_ok m d s n" "k \<le> n"
  shows "up_ok (copied m d s k) (d + k) (s + k) (n - k)"
    "copied (copied m d s k) (d + k) (s + k) (n - k) = copied m d s n"
proof -
  have a: "acc m d k" "acc m s k" "acc m (d + k) (n - k)" "acc m (s + k) (n - k)"
    using assms by (auto simp: up_ok_def intro: acc_sub)
  then show "up_ok (copied m d s k) (d + k) (s + k) (n - k)"
    using assms by (auto simp: up_ok_def acc_copied)
  show "copied (copied m d s k) (d + k) (s + k) (n - k) = copied m d s n"
  proof
    fix x
    show "copied (copied m d s k) (d + k) (s + k) (n - k) x = copied m d s n x"
    proof (cases "d + k \<le> x \<and> x < d + n")
      case True
      then have "s + k + (x - (d + k)) = s + (x - d)" "\<not> (d \<le> s + (x - d) \<and> s + (x - d) < d + k)"
        using assms by (auto simp: up_ok_def)
      then show ?thesis using True assms(2) by (auto simp: copied_def)
    next
      case False
      then show ?thesis using assms(2) by (auto simp: copied_def)
    qed
  qed
qed

text \<open>\<open>reaches m d s n m' d' s' n'\<close>: the rest of the copy from the second state is the copy from the first.\<close>

definition reaches ::
  "bmem \<Rightarrow> nat \<Rightarrow> nat \<Rightarrow> nat \<Rightarrow> bmem \<Rightarrow> nat \<Rightarrow> nat \<Rightarrow> nat \<Rightarrow> bool" where
  "reaches m d s n m' d' s' n' =
     (up_ok m' d' s' n' \<and> copied m' d' s' n' = copied m d s n \<and>
      (\<exists>k. d' = d + k \<and> s' = s + k \<and> n = n' + k))"

lemma reaches_refl: "up_ok m d s n \<Longrightarrow> reaches m d s n m d s n"
  by (simp add: reaches_def)

lemma reaches_trans:
  "reaches m d s n m1 d1 s1 n1 \<Longrightarrow> reaches m1 d1 s1 n1 m2 d2 s2 n2 \<Longrightarrow> reaches m d s n m2 d2 s2 n2"
  unfolding reaches_def by (elim conjE exE, intro conjI exI) auto

lemma reaches_step:
  "up_ok m d s n \<Longrightarrow> k \<le> n \<Longrightarrow> reaches m d s n (copied m d s k) (d + k) (s + k) (n - k)"
  using up_ok_next [of m d s n k] by (auto simp: reaches_def intro!: exI [of _ k])

lemma copy_bytes_up: "up_ok m d s n \<Longrightarrow> copy_bytes m d s n = Some (copied m d s n)"
proof (induction n arbitrary: m d s)
  case (Suc n)
  then show ?case
    using Suc.IH [of "copied m d s 1" "d + 1" "s + 1"] up_ok_word [OF Suc.prems, of 1]
      up_ok_next [OF Suc.prems, of 1] by simp
qed simp

lemma copy_align_up:
  assumes "up_ok m d s n"
  shows "\<exists>m' d' s' n'. copy_align m d s n = Some (m', d', s', n') \<and> reaches m d s n m' d' s' n'"
  using assms
proof (induction m d s n rule: copy_align.induct)
  case (1 m d s n)
  show ?case
  proof (cases "s mod 8 \<noteq> 0 \<and> n \<noteq> 0")
    case True
    have r: "reaches m d s n (copied m d s 1) (d + 1) (s + 1) (n - 1)"
      using reaches_step [OF 1(2), of 1] True by simp
    moreover have "copy_word 1 m d s = Some (copied m d s 1)" using up_ok_word [OF 1(2)] True by simp
    moreover have "up_ok (copied m d s 1) (d + 1) (s + 1) (n - 1)" using r by (simp add: reaches_def)
    ultimately show ?thesis
      using 1(1) [OF True] True reaches_trans [OF r] by (subst copy_align.simps) auto
  next
    case False
    then have "copy_align m d s n = Some (m, d, s, n)" by (subst copy_align.simps) auto
    then show ?thesis using reaches_refl [OF 1(2)] by blast
  qed
qed

lemma copy_word_chain:
  assumes "up_ok m d s n" "j + k \<le> n"
  shows "copy_word k (copied m d s j) (d + j) (s + j) = Some (copied m d s (j + k))"
proof -
  have ok: "up_ok m d s (j + k)"
    using assms by (auto simp: up_ok_def intro: acc_sub)
  show ?thesis
    using up_ok_next [OF ok, of j] up_ok_word [of "copied m d s j" "d + j" "s + j" k k] by simp
qed

lemma copy_blocks_up:
  assumes "up_ok m d s n"
  shows "\<exists>m' d' s' n'. copy_blocks m d s n = Some (m', d', s', n') \<and> n' < 32 \<and>
    reaches m d s n m' d' s' n'"
  using assms
proof (induction m d s n rule: copy_blocks.induct)
  case (1 m d s n)
  show ?case
  proof (cases "n \<ge> 32")
    case True
    have r: "reaches m d s n (copied m d s 32) (d + 32) (s + 32) (n - 32)"
      by (rule reaches_step [OF 1(2) True])
    have w: "copy_word 8 m d s = Some (copied m d s 8)"
      "copy_word 8 (copied m d s 8) (d + 8) (s + 8) = Some (copied m d s 16)"
      "copy_word 8 (copied m d s 16) (d + 16) (s + 16) = Some (copied m d s 24)"
      "copy_word 8 (copied m d s 24) (d + 24) (s + 24) = Some (copied m d s 32)"
      using copy_word_chain [OF 1(2), of 8 8] copy_word_chain [OF 1(2), of 16 8]
        copy_word_chain [OF 1(2), of 24 8] up_ok_word [OF 1(2), of 8] True by simp_all
    have "up_ok (copied m d s 32) (d + 32) (s + 32) (n - 32)" using r by (simp add: reaches_def)
    then obtain m' d' s' n' where
      "copy_blocks (copied m d s 32) (d + 32) (s + 32) (n - 32) = Some (m', d', s', n')" "n' < 32"
      "reaches (copied m d s 32) (d + 32) (s + 32) (n - 32) m' d' s' n'"
      using 1(1) [OF True, of "copied m d s 8" "copied m d s 16" "copied m d s 24" "copied m d s 32"] w
      by auto
    then show ?thesis
      using True w reaches_trans [OF r] by (subst copy_blocks.simps) auto
  next
    case False
    then show ?thesis using 1(2) by (subst copy_blocks.simps) (simp add: reaches_refl)
  qed
qed

text \<open>One of the conditional copies after the block loop, for bit \<open>i\<close> of the remaining count.\<close>

lemma mod_bit: "n mod 2 ^ Suc i = (if bit n i then 2 ^ i else 0) + n mod 2 ^ i" for n :: nat
  using take_bit_Suc_from_most [of i n] by (simp add: take_bit_eq_mod)

lemma tail_bit:
  assumes "up_ok m d s (n mod 2 ^ Suc i)" "copied m d s (n mod 2 ^ Suc i) = c"
    and "bit n i \<Longrightarrow> f = Some (copied m d s (2 ^ i), d + 2 ^ i, s + 2 ^ i)"
  shows "\<exists>m' d' s'. (if bit n i then f else Some (m, d, s)) = Some (m', d', s') \<and>
    up_ok m' d' s' (n mod 2 ^ i) \<and> copied m' d' s' (n mod 2 ^ i) = c"
proof (cases "bit n i")
  case True
  then have "2 ^ i \<le> n mod 2 ^ Suc i" "n mod 2 ^ Suc i - 2 ^ i = n mod 2 ^ i"
    unfolding mod_bit by simp_all
  then show ?thesis using True assms up_ok_next [OF assms(1), of "2 ^ i"] by simp
next
  case False
  then have "n mod 2 ^ Suc i = n mod 2 ^ i" unfolding mod_bit by simp
  then show ?thesis using False assms by (simp only: if_False) blast
qed

lemma bit_le_mod: "bit n i \<Longrightarrow> 2 ^ i \<le> n mod 2 ^ Suc i" for n :: nat
  unfolding mod_bit by simp

lemma tail_bit_bind:
  assumes "up_ok m d s (n mod 2 ^ Suc i)" "copied m d s (n mod 2 ^ Suc i) = c"
    and "bit n i \<Longrightarrow> f = Some (copied m d s (2 ^ i), d + 2 ^ i, s + 2 ^ i)"
    and "\<And>m' d' s'. up_ok m' d' s' (n mod 2 ^ i) \<Longrightarrow> copied m' d' s' (n mod 2 ^ i) = c \<Longrightarrow>
           g (m', d', s') = Some c"
  shows "(if bit n i then f else Some (m, d, s)) \<bind> g = Some c"
  using tail_bit [OF assms(1-3)] assms(4) by auto

lemma copy_two:
  assumes "up_ok m d s n" "j + k \<le> n"
  shows "do { m \<leftarrow> copy_word j m d s; m \<leftarrow> copy_word k m (d + j) (s + j); Some (m, x) } =
    Some (copied m d s (j + k), x)"
  using up_ok_word [OF assms(1), of j] copy_word_chain [OF assms] assms(2) by simp

lemma memcpy_tail_up:
  assumes "up_ok m d s (n mod 2 ^ Suc 4)" "copied m d s (n mod 2 ^ Suc 4) = c"
  shows "memcpy_tail m d s n = Some c"
  unfolding memcpy_tail_def
proof (rule tail_bit_bind [OF assms], goal_cases)
  case 1
  then show ?case using copy_two [OF assms(1), of 8 8 "(d + 16, s + 16)"] bit_le_mod [of n 4] by simp
next
  case (2 m d s)
  then have ok: "up_ok m d s (n mod 2 ^ Suc 3)" "copied m d s (n mod 2 ^ Suc 3) = c" by simp_all
  have f: "bit n 3 \<Longrightarrow> copy_word 8 m d s = Some (copied m d s 8)"
    using up_ok_word [OF ok(1), of 8] bit_le_mod [of n 3] by simp
  show ?case unfolding prod.case
  proof (rule tail_bit_bind [OF ok], goal_cases)
    case (2 m d s)
    then have ok: "up_ok m d s (n mod 2 ^ Suc 2)" "copied m d s (n mod 2 ^ Suc 2) = c" by simp_all
    have f: "bit n 2 \<Longrightarrow> copy_word 4 m d s = Some (copied m d s 4)"
      using up_ok_word [OF ok(1), of 4] bit_le_mod [of n 2] by simp
    show ?case unfolding prod.case
    proof (rule tail_bit_bind [OF ok], goal_cases)
      case (2 m d s)
      then have ok: "up_ok m d s (n mod 2 ^ Suc 1)" "copied m d s (n mod 2 ^ Suc 1) = c" by simp_all
      show ?case unfolding prod.case
      proof (rule tail_bit_bind [OF ok], goal_cases)
        case 1
        then show ?case
          using copy_two [OF ok(1), of 1 1 "(d + 2, s + 2)"] bit_le_mod [of n 1]
          by (simp add: numeral_2_eq_2)
      next
        case (2 m d s)
        then show ?case using up_ok_word [of m d s 1 1] by (auto simp: bit_0 mod_2_eq_odd)
      qed
    qed (use f in simp)
  qed (use f in simp)
qed

lemma memcpy_up:
  assumes "up_ok m d s n" shows "memcpy m d s n = Some (copied m d s n)"
proof -
  obtain m1 d1 s1 n1 where 1: "copy_align m d s n = Some (m1, d1, s1, n1)"
    "reaches m d s n m1 d1 s1 n1"
    using copy_align_up [OF assms] by blast
  then have ok1: "up_ok m1 d1 s1 n1" "copied m1 d1 s1 n1 = copied m d s n" by (simp_all add: reaches_def)
  show ?thesis
  proof (cases "d1 mod 8 = 0")
    case False
    then show ?thesis using 1(1) copy_bytes_up [OF ok1(1)] ok1(2) by (simp add: memcpy_def)
  next
    case True
    obtain m2 d2 s2 n2 where 2: "copy_blocks m1 d1 s1 n1 = Some (m2, d2, s2, n2)" "n2 < 32"
      "reaches m1 d1 s1 n1 m2 d2 s2 n2"
      using copy_blocks_up [OF ok1(1)] by blast
    have "n2 mod 2 ^ Suc 4 = n2" using 2(2) by simp
    then have ok2: "up_ok m2 d2 s2 (n2 mod 2 ^ Suc 4)"
      "copied m2 d2 s2 (n2 mod 2 ^ Suc 4) = copied m d s n"
      using 2(3) ok1(2) by (simp_all add: reaches_def)
    have "do { (m, d, s, n) \<leftarrow> Some (m2, d2, s2, n2); memcpy_tail m d s n } = Some (copied m d s n)"
      using memcpy_tail_up [OF ok2] by simp
    then show ?thesis using 1(1) 2(1) True by (simp add: memcpy_def memcpy_tail_def)
  qed
qed

subsection \<open>Copying downwards\<close>

definition down_ok :: "bmem \<Rightarrow> nat \<Rightarrow> nat \<Rightarrow> nat \<Rightarrow> bool" where
  "down_ok m d s n = (acc m d n \<and> acc m s n \<and> (s \<le> d \<or> d + n \<le> s))"

lemma down_ok_word:
  assumes "down_ok m d s n" "k \<le> n"
  shows "copy_word k m (d + (n - k)) (s + (n - k)) = Some (copied m (d + (n - k)) (s + (n - k)) k)"
  by (rule copy_word_acc) (use assms in \<open>auto simp: down_ok_def intro: acc_sub\<close>)

lemma down_ok_next:
  assumes "down_ok m d s n" "k \<le> n"
  shows "down_ok (copied m (d + (n - k)) (s + (n - k)) k) d s (n - k)"
    "copied (copied m (d + (n - k)) (s + (n - k)) k) d s (n - k) = copied m d s n"
proof -
  let ?m = "copied m (d + (n - k)) (s + (n - k)) k"
  have a: "acc m (d + (n - k)) k" "acc m (s + (n - k)) k" "acc m d (n - k)" "acc m s (n - k)"
    using assms by (auto simp: down_ok_def intro: acc_sub)
  then show "down_ok ?m d s (n - k)"
    using assms by (auto simp: down_ok_def acc_copied)
  show "copied ?m d s (n - k) = copied m d s n"
  proof
    fix x
    consider "d \<le> x" "x < d + (n - k)" | "d + (n - k) \<le> x" "x < d + n" | "x < d" | "d + n \<le> x"
      by linarith
    then show "copied ?m d s (n - k) x = copied m d s n x"
    proof cases
      case 1
      then have "\<not> (d + (n - k) \<le> s + (x - d) \<and> s + (x - d) < d + (n - k) + k)"
        using assms by (auto simp: down_ok_def)
      then show ?thesis using 1 assms(2) by (auto simp: copied_def)
    next
      case 2
      then have "s + (n - k) + (x - (d + (n - k))) = s + (x - d)" using assms(2) by simp
      then show ?thesis using 2 assms(2) by (auto simp: copied_def)
    qed (use assms(2) in \<open>auto simp: copied_def\<close>)
  qed
qed

lemma copy_bytes_down_ok: "down_ok m d s n \<Longrightarrow> copy_bytes_down m d s n = Some (copied m d s n)"
proof (induction n arbitrary: m)
  case (Suc n)
  then show ?case
    using down_ok_word [OF Suc.prems, of 1] down_ok_next [OF Suc.prems, of 1] by simp
qed simp

lemma move_align_down_ok:
  assumes "down_ok m d s n"
  shows "\<exists>fin m' n'. move_align_down m d s n = Some (fin, m', n') \<and> down_ok m' d s n' \<and>
    copied m' d s n' = copied m d s n \<and> (fin \<longrightarrow> n' = 0)"
  using assms
proof (induction m d s n rule: move_align_down.induct)
  case (1 m d s n)
  show ?case
  proof (cases "(d + n) mod 8 \<noteq> 0 \<and> n \<noteq> 0")
    case True
    then show ?thesis
      using 1(1) [of "copied m (d + (n - 1)) (s + (n - 1)) 1"] down_ok_word [OF 1(2), of 1]
        down_ok_next [OF 1(2), of 1] by (subst move_align_down.simps) auto
  next
    case False
    then show ?thesis using 1(2) by (subst move_align_down.simps) auto
  qed
qed

lemma move_words_down_ok:
  assumes "down_ok m d s n"
  shows "\<exists>m' n'. move_words_down m d s n = Some (m', n') \<and> down_ok m' d s n' \<and>
    copied m' d s n' = copied m d s n"
  using assms
proof (induction m d s n rule: move_words_down.induct)
  case (1 m d s n)
  show ?case
  proof (cases "n \<ge> 8")
    case True
    then show ?thesis
      using 1(1) [of "copied m (d + (n - 8)) (s + (n - 8)) 8"] down_ok_word [OF 1(2), of 8]
        down_ok_next [OF 1(2), of 8] by (subst move_words_down.simps) auto
  next
    case False
    then show ?thesis using 1(2) by (subst move_words_down.simps) auto
  qed
qed

lemma move_align_up_ok:
  assumes "up_ok m d s n"
  shows "\<exists>fin m' d' s' n'. move_align_up m d s n = Some (fin, m', d', s', n') \<and>
    up_ok m' d' s' n' \<and> copied m' d' s' n' = copied m d s n \<and> (fin \<longrightarrow> n' = 0)"
  using assms
proof (induction m d s n rule: move_align_up.induct)
  case (1 m d s n)
  show ?case
  proof (cases "d mod 8 \<noteq> 0 \<and> n \<noteq> 0")
    case True
    then show ?thesis
      using 1(1) [of "copied m d s 1"] up_ok_word [OF 1(2), of 1] up_ok_next [OF 1(2), of 1]
      by (subst move_align_up.simps) auto
  next
    case False
    then show ?thesis using 1(2) by (subst move_align_up.simps) auto
  qed
qed

lemma move_words_up_ok:
  assumes "up_ok m d s n"
  shows "\<exists>m' d' s' n'. move_words_up m d s n = Some (m', d', s', n') \<and> up_ok m' d' s' n' \<and>
    copied m' d' s' n' = copied m d s n"
  using assms
proof (induction m d s n rule: move_words_up.induct)
  case (1 m d s n)
  show ?case
  proof (cases "n \<ge> 8")
    case True
    then show ?thesis
      using 1(1) [of "copied m d s 8"] up_ok_word [OF 1(2), of 8] up_ok_next [OF 1(2), of 8]
      by (subst move_words_up.simps) auto
  next
    case False
    then show ?thesis using 1(2) by (subst move_words_up.simps) auto
  qed
qed

text \<open>The wrap-around test of \<open>memmove\<close> holds only if the two ranges do not overlap.\<close>

lemma mod_neg_once: "- m \<le> a \<Longrightarrow> a < 0 \<Longrightarrow> a mod m = a + m" for a m :: int
  using mod_add_self2 [of a m] mod_pos_pos_trivial [of "a + m" m] by simp

lemma no_overlap_apart:
  assumes "no_overlap d s n" "n < 2 ^ 63" "d < 2 ^ 64" "s < 2 ^ 64" "d \<noteq> s"
  shows "d + n \<le> s \<or> s + n \<le> d"
proof -
  have "uint (of_nat s - of_nat d - of_nat n :: u64) = (int s - int d - int n) mod 2 ^ 64"
    using assms(2-4) by (simp add: uint_word_ariths unsigned_of_nat take_bit_eq_mod mod_simps)
  moreover have "uint (- 2 * of_nat n :: u64) = (- 2 * int n) mod 2 ^ 64"
    using assms(2) by (simp add: uint_word_ariths unsigned_of_nat take_bit_eq_mod mod_simps)
  ultimately have le: "(int s - int d - int n) mod 2 ^ 64 \<le> (- 2 * int n) mod 2 ^ 64"
    using assms(1) unfolding no_overlap_def word_le_def by simp
  show ?thesis
  proof (cases "n = 0")
    case False
    have "(- 2 * int n) mod 2 ^ 64 = 2 ^ 64 - 2 * int n"
      using assms(2) False by (subst mod_neg_once) auto
    moreover have "(int s - int d - int n) mod 2 ^ 64 = int s - int d - int n + 2 ^ 64"
      if "\<not> d + n \<le> s" "\<not> s + n \<le> d"
      using that assms(2) by (subst mod_neg_once) auto
    ultimately show ?thesis using le by linarith
  qed auto
qed

lemma memmove_copied:
  assumes a: "acc m d n" "acc m s n" and n: "n < 2 ^ 63" "d < 2 ^ 64" "s < 2 ^ 64"
  shows "memmove m d s n = Some (copied m d s n)"
proof -
  consider "d = s" | "d \<noteq> s" "no_overlap d s n" | "d < s" "\<not> no_overlap d s n"
    | "s < d" "\<not> no_overlap d s n" by linarith
  then show ?thesis
  proof cases
    case 1
    then have "copied m d s n = m" by (auto simp: copied_def)
    then show ?thesis using 1 by (simp add: memmove_def)
  next
    case 2
    then have "up_ok m d s n" using no_overlap_apart [OF 2(2) n 2(1)] a by (auto simp: up_ok_def)
    then show ?thesis using 2 by (simp add: memmove_def memcpy_up)
  next
    case 3
    then have ok: "up_ok m d s n" using a by (simp add: up_ok_def)
    then obtain fin m1 d1 s1 n1 where 1: "move_align_up m d s n = Some (fin, m1, d1, s1, n1)"
      "up_ok m1 d1 s1 n1" "copied m1 d1 s1 n1 = copied m d s n" "fin \<longrightarrow> n1 = 0"
      using move_align_up_ok by blast
    then show ?thesis
      using 3 copy_bytes_up [OF ok] move_words_up_ok [OF 1(2)]
      by (auto simp: memmove_def copy_bytes_up)
  next
    case 4
    then have ok: "down_ok m d s n" using a by (simp add: down_ok_def)
    then obtain fin m1 n1 where 1: "move_align_down m d s n = Some (fin, m1, n1)"
      "down_ok m1 d s n1" "copied m1 d s n1 = copied m d s n" "fin \<longrightarrow> n1 = 0"
      using move_align_down_ok by blast
    then show ?thesis
      using 4 copy_bytes_down_ok [OF ok] move_words_down_ok [OF 1(2)]
      by (auto simp: memmove_def copy_bytes_down_ok)
  qed
qed

subsection \<open>Filling\<close>

definition filled :: "bmem \<Rightarrow> nat set \<Rightarrow> u8 \<Rightarrow> bmem" where
  "filled m W c = (\<lambda>x. if x \<in> W then Some c else m x)"

lemma store8_filled:
  "m a \<noteq> None \<Longrightarrow> store8 (filled m W c) a c = Some (filled m (insert a W) c)"
  by (auto simp: store8_def filled_def fun_eq_iff split: option.splits)

lemma store_bytes_filled:
  assumes "acc m a k" shows "store_bytes (filled m W c) a (replicate k c) = Some (filled m (W \<union> {a..<a + k}) c)"
proof -
  have "acc (filled m W c) a (length (replicate k c))" using assms by (auto simp: acc_def filled_def)
  from store_bytes_acc [OF this] show ?thesis by (auto simp: filled_def fun_eq_iff)
qed

lemma of_nat_u8: "of_nat x = (c :: u8) \<longleftrightarrow> x mod 256 = unat c"
proof -
  have "unat (of_nat x :: u8) = x mod 256" by (simp add: unsigned_of_nat take_bit_eq_mod)
  then show ?thesis by (metis word_eq_iff_unsigned)
qed

lemma nat_of_bytes_nth:
  "i < length bs \<Longrightarrow> nat_of_bytes bs div 256 ^ i mod 256 = unat (bs ! i)"
proof (induction bs arbitrary: i)
  case (Cons b bs)
  have b: "(unat b + 256 * x) div 256 = x" "(unat b + 256 * x) mod 256 = unat b" for x
    using unat8_lt [of b] by simp_all
  show ?case
  proof (cases i)
    case (Suc j)
    then show ?thesis using Cons b(1) by (simp add: div_mult2_eq)
  qed (use b in simp)
qed simp

text \<open>Storing the number that a list of bytes denotes stores these bytes.\<close>

lemma bytes_of_nat_of_bytes: "bytes_of (length bs) (nat_of_bytes bs) = bs"
  by (rule nth_equalityI) (simp_all add: bytes_of_def of_nat_u8 nat_of_bytes_nth)

lemma replicate_4_8:
  "nat_of_bytes (replicate 4 c) = 16843009 * unat c"
  "nat_of_bytes (replicate 8 c) = 16843009 * unat c + 4294967296 * (16843009 * unat c)"
proof -
  have "replicate 4 c = [c, c, c, c]" "replicate 8 c = [c, c, c, c, c, c, c, c]"
    by (simp_all add: eval_nat_numeral)
  then show "nat_of_bytes (replicate 4 c) = 16843009 * unat c"
    "nat_of_bytes (replicate 8 c) = 16843009 * unat c + 4294967296 * (16843009 * unat c)"
    by simp_all
qed

lemma bytes_c32:
  fixes c :: u8
  defines "c32 \<equiv> (- 1) div 255 * ucast c :: u32"
  shows "unat c32 = 16843009 * unat c" "bytes_of 4 (unat c32) = replicate 4 c"
proof -
  have "unat ((- 1) div 255 :: u32) = 16843009"
    by (simp add: unat_div unsigned_minus_1_eq_mask mask_eq_exp_minus_1)
  moreover have "unat (ucast c :: u32) = unat c"
    using unat8_lt [of c] by (simp add: unsigned_ucast_eq take_bit_nat_eq_self)
  ultimately show u: "unat c32 = 16843009 * unat c"
    unfolding c32_def using unat8_lt [of c] by (simp add: unat_word_ariths)
  show "bytes_of 4 (unat c32) = replicate 4 c"
    using bytes_of_nat_of_bytes [of "replicate 4 c"] unfolding u by (simp add: replicate_4_8)
qed

lemma bytes_c64:
  fixes c32 :: u32 and c :: u8
  assumes "unat c32 = 16843009 * unat c"
  shows "bytes_of 8 (unat (ucast c32 OR push_bit 32 (ucast c32) :: u64)) = replicate 8 c"
proof -
  have "ucast c32 OR push_bit 32 (ucast c32) = (ucast c32 + push_bit 32 (ucast c32) :: u64)"
    by (rule sym, rule disjunctive_add) (auto simp: bit_simps dest: bit_imp_le_length)
  moreover have "unat (ucast c32 :: u64) = unat c32"
    using unat32_lt [of c32] by (simp add: unsigned_ucast_eq take_bit_nat_eq_self)
  ultimately have "unat (ucast c32 OR push_bit 32 (ucast c32) :: u64) = unat c32 + 2 ^ 32 * unat c32"
    using unat32_lt [of c32] by (simp add: unat_word_ariths push_bit_eq_mult)
  then show ?thesis
    using bytes_of_nat_of_bytes [of "replicate 8 c"] assms by (simp add: replicate_4_8)
qed

lemma store32_filled:
  assumes "bytes_of 4 (unat c32) = replicate 4 c" "acc m a 4"
  shows "store32 (filled m W c) a c32 = Some (filled m (W \<union> {a..<a + 4}) c)"
  unfolding store32_def assms(1) by (rule store_bytes_filled [OF assms(2)])

lemma store64_filled:
  assumes "bytes_of 8 (unat c64) = replicate 8 c" "acc m a 8"
  shows "store64 (filled m W c) a c64 = Some (filled m (W \<union> {a..<a + 8}) c)"
  unfolding store64_def assms(1) by (rule store_bytes_filled [OF assms(2)])

lemma filled_cong: "W = V \<Longrightarrow> filled m W c = filled m V c"
  by simp

lemma set_blocks_filled:
  assumes "bytes_of 8 (unat c64) = replicate 8 c" "acc m s n"
  shows "set_blocks (filled m W c) s c64 n = Some (filled m (W \<union> {s..<s + (n - n mod 32)}) c)"
  using assms(2)
proof (induction n arbitrary: s W rule: less_induct)
  case (less n)
  show ?case
  proof (cases "n \<ge> 32")
    case False
    then show ?thesis by (subst set_blocks.simps) simp
  next
    case True
    have a: "acc m s 8" "acc m (s + 8) 8" "acc m (s + 16) 8" "acc m (s + 24) 8" "acc m (s + 32) (n - 32)"
      using True less.prems by (auto intro: acc_sub)
    let ?W = "W \<union> {s..<s + 8} \<union> {s + 8..<s + 8 + 8} \<union> {s + 16..<s + 16 + 8} \<union> {s + 24..<s + 24 + 8}"
    have "set_blocks (filled m W c) s c64 n = set_blocks (filled m ?W c) (s + 32) c64 (n - 32)"
      using True a by (subst set_blocks.simps) (simp add: store64_filled [OF assms(1)])
    also have "\<dots> = Some (filled m (?W \<union> {s + 32..<s + 32 + (n - 32 - (n - 32) mod 32)}) c)"
      using less.IH [of "n - 32" "s + 32" ?W] True a by simp
    also have "?W \<union> {s + 32..<s + 32 + (n - 32 - (n - 32) mod 32)} = W \<union> {s..<s + (n - n mod 32)}"
    proof -
      have r: "(n - 32) mod 32 = n mod 32" using True by (metis le_mod_geq)
      have "1 \<le> n div 32" using True div_le_mono [of 32 n 32] by simp
      then obtain l where "n - n mod 32 = l" "32 \<le> l" by (simp add: minus_mod_eq_mult_div)
      then show ?thesis unfolding r using True by auto
    qed
    finally show ?thesis .
  qed
qed

lemma mod32_le: "x mod 4 = 0 \<Longrightarrow> x mod 32 \<le> 28" for x :: nat
proof -
  assume "x mod 4 = 0"
  then obtain q where "x = 4 * q" by (auto simp: mod_eq_0_iff_dvd)
  moreover have "4 * q mod (4 * 8) = 4 * (q mod 8)" by (rule mod_mult_mult1)
  moreover have "q mod 8 \<le> 7" using mod_less_divisor [of 8 q] by linarith
  ultimately show ?thesis by simp
qed

lemma set_words_filled:
  assumes b4: "bytes_of 4 (unat c32) = replicate 4 c"
    and b8: "bytes_of 8 (unat (ucast c32 OR push_bit 32 (ucast c32) :: u64)) = replicate 8 c"
    and a: "acc m s n" and n: "n mod 4 = 0" "4 \<le> n"
  shows "set_words (filled m W c) s c32 n = Some (filled m (W \<union> {s..<s + n}) c)"
proof -
  note st = store32_filled [OF b4]
  have acc4: "acc m (s + i) 4" if "i + 4 \<le> n" for i using that a by (auto intro: acc_sub)
  have acc4': "acc m (s + n - i) 4" if "4 \<le> i" "i \<le> n" for i using that a by (auto intro: acc_sub)
  consider "n \<le> 8" | "8 < n" "n \<le> 24" | "24 < n" by linarith
  then show ?thesis
  proof cases
    case 1
    then show ?thesis
      using n acc4 [of 0] acc4' [of 4]
      by (simp add: set_words_def st) (rule filled_cong; auto)
  next
    case 2
    then have n12: "12 \<le> n" using n(1) by presburger
    have eq: "{s..<s + n} = {s..<s + 4} \<union> {s + n - 4..<s + n - 4 + 4} \<union> {s + 4..<s + 4 + 4} \<union>
        {s + 8..<s + 8 + 4} \<union> {s + n - 12..<s + n - 12 + 4} \<union> {s + n - 8..<s + n - 8 + 4}"
      using 2 n12 by auto
    show ?thesis
      using 2 n12 acc4 [of 0] acc4 [of 4] acc4 [of 8] acc4' [of 4] acc4' [of 8] acc4' [of 12]
      unfolding eq by (simp add: set_words_def st Un_assoc)
  next
    case 3
    then have n28: "28 \<le> n" using n(1) by presburger
    define k where "k = 24 + (if bit s 2 then 4 else 0 :: nat)"
    have k: "24 \<le> k" "k \<le> 28" by (simp_all add: k_def)
    define U where "U = {s..<s + 4} \<union> {s + n - 4..<s + n - 4 + 4} \<union> {s + 4..<s + 4 + 4} \<union>
        {s + 8..<s + 8 + 4} \<union> {s + n - 12..<s + n - 12 + 4} \<union> {s + n - 8..<s + n - 8 + 4} \<union>
        {s + 12..<s + 12 + 4} \<union> {s + 16..<s + 16 + 4} \<union> {s + 20..<s + 20 + 4} \<union>
        {s + 24..<s + 24 + 4} \<union> {s + n - 28..<s + n - 28 + 4} \<union> {s + n - 24..<s + n - 24 + 4} \<union>
        {s + n - 20..<s + n - 20 + 4} \<union> {s + n - 16..<s + n - 16 + 4}"
    have U: "U = {s..<s + 28} \<union> {s + n - 28..<s + n}" unfolding U_def using n28 by auto
    have "set_words (filled m W c) s c32 n =
        set_blocks (filled m (W \<union> U) c) (s + k) (ucast c32 OR push_bit 32 (ucast c32)) (n - k)"
      using 3 n28 acc4 [of 0] acc4 [of 4] acc4 [of 8] acc4 [of 12] acc4 [of 16] acc4 [of 20] acc4 [of 24]
        acc4' [of 4] acc4' [of 8] acc4' [of 12] acc4' [of 16] acc4' [of 20] acc4' [of 24] acc4' [of 28]
      unfolding U_def by (simp add: set_words_def st Un_assoc k_def [symmetric] split del: if_split)
    also have "\<dots> = Some (filled m (W \<union> U \<union> {s + k..<s + k + (n - k - (n - k) mod 32)}) c)"
      using k n28 a by (intro set_blocks_filled [OF b8]) (auto intro: acc_sub)
    also have "W \<union> U \<union> {s + k..<s + k + (n - k - (n - k) mod 32)} = W \<union> {s..<s + n}"
    proof -
      have "(n - k) mod 4 = 0" using n(1) k by (auto simp: k_def mod_eq_0_iff_dvd dvd_diff_nat)
      then obtain r where r: "(n - k) mod 32 = r" "r \<le> 28" by (metis mod32_le)
      show ?thesis unfolding U r(1) using k n28 r(2) by auto
    qed
    finally show ?thesis .
  qed
qed

text \<open>The bytes \<open>memset\<close> writes one by one at both ends.\<close>

definition ends2 :: "nat \<Rightarrow> nat \<Rightarrow> nat set" where
  "ends2 a n = {a + (n - 1), a + 0}"

definition ends6 :: "nat \<Rightarrow> nat \<Rightarrow> nat set" where
  "ends6 a n = insert (a + (n - 3)) (insert (a + (n - 2)) (insert (a + 2) (insert (a + 1) (ends2 a n))))"

definition ends8 :: "nat \<Rightarrow> nat \<Rightarrow> nat set" where
  "ends8 a n = insert (a + (n - 4)) (insert (a + 3) (ends6 a n))"

lemma ends_small:
  "n = 1 \<or> n = 2 \<Longrightarrow> ends2 a n = {a..<a + n}"
  "n = 3 \<or> n = 4 \<or> n = 5 \<or> n = 6 \<Longrightarrow> ends6 a n = {a..<a + n}"
  "n = 7 \<or> n = 8 \<Longrightarrow> ends8 a n = {a..<a + n}"
  unfolding ends8_def ends6_def ends2_def by (elim disjE; auto)+

lemma ends_middle:
  assumes "8 < n" "k \<le> 3" "k + l \<le> n" "n < k + l + 4"
  shows "ends8 a n \<union> {a + k..<a + k + l} = {a..<a + n}"
proof -
  obtain j where n: "n = j + 4" "4 < j" using assms(1) by (intro that [of "n - 4"]) simp_all
  have four: "{b..<b + 4} = {b, b + 1, b + 2, b + 3}" for b :: nat by auto
  have "ends8 a n = {a..<a + 4} \<union> {a + j..<a + j + 4}"
    unfolding ends8_def ends6_def ends2_def n(1) four by (simp add: ac_simps) blast
  moreover have "{a..<a + 4} \<union> {a + j..<a + j + 4} \<union> {a + k..<a + k + l} = {a..<a + j + 4}"
    if "k \<le> 3" "k + l \<le> j + 4" "j < k + l" for k l using that by auto
  ultimately show ?thesis using assms n by (simp add: add.assoc)
qed

lemma memset_filled:
  assumes a: "acc m dest n" shows "memset m dest c n = Some (filled m {dest..<dest + n} c)"
proof -
  have m: "m = filled m {} c" by (simp add: filled_def)
  have at: "m (dest + i) \<noteq> None" if "i < n" for i using a that by (auto simp: acc_def)
  note st = store8_filled [where m = m and c = c]
  note at8 = at [of 0] at [of 1] at [of 2] at [of 3] at [of "n - 1"] at [of "n - 2"] at [of "n - 3"]
    at [of "n - 4"]
  consider "n = 0" | "n = 1 \<or> n = 2" | "n = 3 \<or> n = 4 \<or> n = 5 \<or> n = 6" | "n = 7 \<or> n = 8" | "8 < n"
    by linarith
  then show ?thesis
  proof cases
    case 1
    then show ?thesis using m by (simp add: memset_def)
  next
    case 2
    then have "memset m dest c n = Some (filled m (ends2 dest n) c)"
      unfolding ends2_def using at8 by (subst m) (auto simp add: memset_def st)
    then show ?thesis using ends_small(1) [OF 2] by simp
  next
    case 3
    then have "2 < n" "n \<le> 6" by linarith+
    then have "memset m dest c n = Some (filled m (ends6 dest n) c)"
      unfolding ends6_def ends2_def using at8 by (subst m) (simp add: memset_def st)
    then show ?thesis using ends_small(2) [OF 3] by simp
  next
    case 4
    then have "6 < n" "n \<le> 8" by linarith+
    then have "memset m dest c n = Some (filled m (ends8 dest n) c)"
      unfolding ends8_def ends6_def ends2_def using at8 by (subst m) (simp add: memset_def st)
    then show ?thesis using ends_small(3) [OF 4] by simp
  next
    case 5
    define k where "k = (4 - dest mod 4) mod 4"
    define l where "l = (n - k) div 4 * 4"
    have k: "k \<le> 3" by (simp add: k_def)
    have "l + (n - k) mod 4 = n - k" "(n - k) mod 4 < 4" by (simp_all add: l_def)
    moreover have "1 \<le> (n - k) div 4" using k 5 div_le_mono [of 4 "n - k" 4] by simp
    then have "4 \<le> l" "l mod 4 = 0" by (simp_all add: l_def)
    ultimately have l: "l mod 4 = 0" "4 \<le> l" "k + l \<le> n" "n < k + l + 4" using k 5 by linarith+
    have "memset m dest c n = set_words (filled m (ends8 dest n) c) (dest + k) ((- 1) div 255 * ucast c) l"
      using 5 at8 unfolding ends8_def ends6_def ends2_def k_def l_def
      by (subst m) (simp add: memset_def st Let_def)
    also have "\<dots> = Some (filled m (ends8 dest n \<union> {dest + k..<dest + k + l}) c)"
      by (intro set_words_filled bytes_c32 bytes_c64 acc_sub [OF a]) (use l k in simp_all)
    also have "ends8 dest n \<union> {dest + k..<dest + k + l} = {dest..<dest + n}"
      by (rule ends_middle [OF 5 k l(3,4)])
    finally show ?thesis .
  qed
qed

subsection \<open>Comparing and searching\<close>

lemma memcmp_spec:
  assumes "acc m p n" "acc m q n"
  shows "\<exists>r. memcmp m p q n = Some r \<and> (r = 0 \<longleftrightarrow> (\<forall>i < n. m (p + i) = m (q + i))) \<and>
    (\<forall>i < n. (\<forall>j < i. m (p + j) = m (q + j)) \<and> m (p + i) \<noteq> m (q + i) \<longrightarrow>
       r = (if the (m (p + i)) < the (m (q + i)) then - 1 else 1))"
  using assms
proof (induction n arbitrary: p q)
  case (Suc n)
  obtain a b where ab: "m p = Some a" "m q = Some b" using Suc.prems by (fastforce simp: acc_def)
  show ?case
  proof (cases "a = b")
    case False
    have "i = 0" if "\<forall>j < i. m (p + j) = m (q + j)" for i
      using that [rule_format, of 0] ab False by auto
    then have "the (m (p + i)) = a \<and> the (m (q + i)) = b" if "\<forall>j < i. m (p + j) = m (q + j)" for i
      using that ab by fastforce
    then show ?thesis using ab False by (intro exI [of _ "if a < b then - 1 else 1"]) auto
  next
    case True
    have "acc m (p + 1) n" "acc m (q + 1) n" using Suc.prems by (auto intro: acc_sub)
    from Suc.IH [OF this] obtain r where r: "memcmp m (p + 1) (q + 1) n = Some r"
      "r = 0 \<longleftrightarrow> (\<forall>i < n. m (p + 1 + i) = m (q + 1 + i))"
      "\<forall>i < n. (\<forall>j < i. m (p + 1 + j) = m (q + 1 + j)) \<and> m (p + 1 + i) \<noteq> m (q + 1 + i) \<longrightarrow>
         r = (if the (m (p + 1 + i)) < the (m (q + 1 + i)) then - 1 else 1)"
      by blast
    have "(\<forall>i < Suc n. m (p + i) = m (q + i)) \<longleftrightarrow> (\<forall>i < n. m (p + 1 + i) = m (q + 1 + i))"
      using ab True by (simp add: All_less_Suc2)
    moreover have "r = (if the (m (p + i)) < the (m (q + i)) then - 1 else 1)"
      if "i < Suc n" "\<forall>j < i. m (p + j) = m (q + j)" "m (p + i) \<noteq> m (q + i)" for i
    proof (cases i)
      case 0
      then show ?thesis using that ab True by simp
    next
      case (Suc i')
      then show ?thesis using that r(3) [rule_format, of i'] by (auto simp: All_less_Suc2)
    qed
    ultimately show ?thesis using r(1,2) ab True by auto
  qed
qed simp

lemma nat_of_bytes_append:
  "nat_of_bytes (as @ bs) = nat_of_bytes as + 256 ^ length as * nat_of_bytes bs"
  by (induction as) (simp_all add: algebra_simps)

lemma nat_of_bytes_less: "nat_of_bytes bs < 256 ^ length bs"
proof (induction bs)
  case (Cons b bs)
  then show ?case using unat8_lt [of b] by simp
qed simp

lemma nat_of_bytes_ones: "0 \<notin> set bs \<Longrightarrow> nat_of_bytes (replicate (length bs) 1) \<le> nat_of_bytes bs"
proof (induction bs)
  case (Cons b bs)
  then have "1 \<le> unat b" by (auto simp: Suc_le_eq unat_gt_0)
  then show ?case using Cons by simp
qed simp

lemma unat_ONES: "unat ONES = nat_of_bytes (replicate 8 1)"
  unfolding ONES_def replicate_4_8
  by (simp add: unat_div unsigned_minus_1_eq_mask mask_eq_exp_minus_1)

lemma bit_ge: "2 ^ p \<le> y mod 2 ^ Suc p \<Longrightarrow> bit y p" for y :: int
proof (rule ccontr)
  assume le: "2 ^ p \<le> y mod 2 ^ Suc p" and "\<not> bit y p"
  then have "y mod 2 ^ Suc p = y mod 2 ^ p"
    using take_bit_Suc_from_most [of p y] by (simp add: take_bit_eq_mod)
  also have "\<dots> < 2 ^ p" by simp
  finally show False using le by simp
qed

text \<open>
  The zero-byte test.  Below the first zero byte no byte borrows, so subtracting one from it
  leaves its top bit set.
\<close>

lemma bit_minus_ONES:
  assumes bs: "length bs = 8" "j < 8" "bs ! j = 0" "0 \<notin> set (take j bs)"
  shows "bit (of_nat (nat_of_bytes bs) - ONES) (8 * j + 7)"
proof -
  define B where "B = (256 :: int) ^ j"
  define L where "L = int (nat_of_bytes (take j bs))"
  define R where "R = int (nat_of_bytes (replicate j 1))"
  have len: "length (take j bs) = j" using bs by simp
  have L: "R \<le> L" "L < B" "0 \<le> R"
    using nat_of_bytes_ones [OF bs(4)] nat_of_bytes_less [of "take j bs"] len
    by (simp_all add: L_def R_def B_def)
  have "bs = take j bs @ 0 # drop (Suc j) bs" using bs id_take_nth_drop by metis
  then have "nat_of_bytes bs = nat_of_bytes (take j bs) + 256 ^ j * (256 * nat_of_bytes (drop (Suc j) bs))"
    using nat_of_bytes_append [of "take j bs" "0 # drop (Suc j) bs"] len by simp
  then have w: "int (nat_of_bytes bs) = L + 256 * B * int (nat_of_bytes (drop (Suc j) bs))"
    by (simp add: L_def B_def)
  have "replicate 8 (1 :: u8) = replicate j 1 @ 1 # replicate (7 - j) 1"
    using bs(2) replicate_add [of j "Suc (7 - j)" "1 :: u8"] by simp
  then have o: "int (unat ONES) = R + B + 256 * B * int (nat_of_bytes (replicate (7 - j) 1))"
    unfolding unat_ONES using nat_of_bytes_append [of "replicate j 1" "1 # replicate (7 - j) 1"]
    by (simp add: R_def B_def algebra_simps)
  let ?y = "int (nat_of_bytes bs) - int (unat ONES)"
  have "?y mod (256 * B) = (L - R - B) mod (256 * B)"
    unfolding w o by (simp add: mod_eq_dvd_iff algebra_simps)
  also have "\<dots> = L - R - B + 256 * B"
    using L by (intro mod_neg_once) simp_all
  finally have "2 ^ (8 * j + 7) \<le> ?y mod 2 ^ Suc (8 * j + 7)"
    using L by (simp add: B_def power_add power_mult)
  then have "bit ?y (8 * j + 7)" by (rule bit_ge)
  moreover have "of_nat (nat_of_bytes bs) - ONES = (of_int ?y :: u64)"
    by simp
  ultimately show ?thesis using bs(2) by (simp only: bit_word_of_int_iff) simp
qed

lemma ONES_eq: "ONES = 0x0101010101010101"
  by (rule word_unat_eq_iff [THEN iffD2]) (simp add: unat_ONES replicate_4_8)

lemma bit_HIGHS: "j < 8 \<Longrightarrow> bit HIGHS (8 * j + 7)"
proof -
  assume "j < 8"
  then consider "j = 0" | "j = 1" | "j = 2" | "j = 3" | "j = 4" | "j = 5" | "j = 6" | "j = 7" by linarith
  then show ?thesis unfolding HIGHS_def ONES_eq by cases (simp_all add: bit_numeral_rec)
qed

lemma not_bit_zero_byte:
  assumes "j < length bs" "bs ! j = 0" shows "\<not> bit (nat_of_bytes bs) (8 * j + 7)"
proof -
  have "nat_of_bytes bs div 256 ^ j mod 256 = 0" using nat_of_bytes_nth [OF assms(1)] assms(2) by simp
  then obtain q where "nat_of_bytes bs div 256 ^ j = 256 * q" by (auto simp: mod_eq_0_iff_dvd)
  moreover have "nat_of_bytes bs div 2 ^ (8 * j + 7) = nat_of_bytes bs div 256 ^ j div 128"
    by (simp add: power_add power_mult div_mult2_eq)
  ultimately show ?thesis by (simp add: bit_iff_odd)
qed

lemma HASZERO_bytes:
  assumes "length bs = 8" "0 \<in> set bs" shows "HASZERO (of_nat (nat_of_bytes bs))"
proof -
  obtain us vs where split: "bs = us @ 0 # vs" "0 \<notin> set us" using split_list_first [OF assms(2)] by auto
  define j where "j = length us"
  have j: "j < 8" "bs ! j = 0" "0 \<notin> set (take j bs)" using split assms(1) by (auto simp: j_def)
  let ?w = "of_nat (nat_of_bytes bs) :: u64"
  have "\<not> bit ?w (8 * j + 7)"
    using not_bit_zero_byte [of j bs] j assms(1) by (simp add: bit_of_nat_iff)
  then have "bit ((?w - ONES) AND (NOT ?w AND HIGHS)) (8 * j + 7)"
    using bit_minus_ONES [OF assms(1) j] bit_HIGHS [OF j(1)] j(1)
    by (simp add: bit_and_iff bit_not_iff)
  then show ?thesis unfolding HASZERO_def by (metis bit_0_eq bot_apply bot_bool_def)
qed

lemma xor_byte:
  assumes "a < 256" "b < (256 :: nat)"
  shows "(a + 256 * n) XOR (b + 256 * k) = (a XOR b) + 256 * (n XOR k)"
proof -
  let ?z = "(a + 256 * n) XOR (b + 256 * k)"
  have "?z mod 256 = a XOR b"
    using take_bit_xor [of 8 "a + 256 * n" "b + 256 * k"] take_bit_xor [of 8 a b] assms
    by (simp add: take_bit_eq_mod)
  moreover have "?z div 256 = n XOR k"
    using drop_bit_xor [of 8 "a + 256 * n" "b + 256 * k"] assms by (simp add: drop_bit_eq_div)
  ultimately show ?thesis by (metis mod_mult_div_eq)
qed

lemma nat_of_bytes_xor:
  "nat_of_bytes bs XOR nat_of_bytes (replicate (length bs) c) = nat_of_bytes (map (\<lambda>b. b XOR c) bs)"
proof (induction bs)
  case (Cons b bs)
  have "unat (b XOR c) = unat b XOR unat c" by (simp add: unsigned_xor_eq)
  then show ?case using Cons xor_byte [of "unat b" "unat c"] unat8_lt by simp
qed simp

lemma ONES_mult: "ONES * ucast (c :: u8) = of_nat (nat_of_bytes (replicate 8 c))"
proof -
  have "of_nat (16843009 * unat c + 4294967296 * (16843009 * unat c)) =
      (0x0101010101010101 * of_nat (unat c) :: u64)"
    by (simp only: of_nat_add of_nat_mult of_nat_numeral) (simp add: algebra_simps)
  then show ?thesis unfolding replicate_4_8 ONES_eq by simp
qed

text \<open>A word that fails the test contains no byte \<open>c\<close>.\<close>

lemma no_match_word:
  assumes "acc m w 8" "load64 m w = Some x" "\<not> HASZERO (x XOR ONES * ucast c)" "i < 8"
  shows "m (w + i) \<noteq> Some c"
proof
  assume c: "m (w + i) = Some c"
  define bs where "bs = map (\<lambda>i. the (m (w + i))) [0..<8]"
  have x: "x = of_nat (nat_of_bytes bs)" "length bs = 8"
    using assms(2) load_bytes_acc [OF assms(1)] by (simp_all add: load64_def bs_def)
  have "bs ! i = c" "i < length bs" using c assms(4) by (simp_all add: bs_def)
  then have "map (\<lambda>b. b XOR c) bs ! i = 0" by simp
  then have "0 \<in> set (map (\<lambda>b. b XOR c) bs)" using \<open>i < length bs\<close> by (metis length_map nth_mem)
  then have "HASZERO (of_nat (nat_of_bytes (map (\<lambda>b. b XOR c) bs)))"
    using x(2) by (intro HASZERO_bytes) simp_all
  then show False
    using assms(3) unfolding ONES_mult x(1) of_nat_xor_eq [symmetric]
      nat_of_bytes_xor [of bs c, unfolded x(2), symmetric] by simp
qed

text \<open>\<open>skips m c s n s' n'\<close>: the search moved from \<open>s\<close> to \<open>s'\<close> and passed no byte \<open>c\<close>.\<close>

definition skips :: "bmem \<Rightarrow> u8 \<Rightarrow> nat \<Rightarrow> nat \<Rightarrow> nat \<Rightarrow> nat \<Rightarrow> bool" where
  "skips m c s n s' n' = (s \<le> s' \<and> s' + n' = s + n \<and> (\<forall>x. s \<le> x \<and> x < s' \<longrightarrow> m x \<noteq> Some c))"

lemma skips_trans: "skips m c s n s1 n1 \<Longrightarrow> skips m c s1 n1 s2 n2 \<Longrightarrow> skips m c s n s2 n2"
  unfolding skips_def by (metis le_trans not_less)

lemma skips_acc: "skips m c s n s' n' \<Longrightarrow> acc m s n \<Longrightarrow> acc m s' n'"
  by (auto simp: skips_def intro: acc_sub)

lemma chr_bytes_spec:
  assumes "acc m s n"
  shows "\<exists>s' n'. chr_bytes guard m c s n = Some (s', n') \<and> skips m c s n s' n' \<and>
    (guard = (\<lambda>_. True) \<longrightarrow> n' = 0 \<or> m s' = Some c)"
  using assms
proof (induction guard m c s n rule: chr_bytes.induct)
  case (1 guard m c s n)
  show ?case
  proof (cases "guard s \<and> n \<noteq> 0")
    case False
    then have "chr_bytes guard m c s n = Some (s, n)" by (subst chr_bytes.simps) auto
    then show ?thesis using False by (auto simp: skips_def)
  next
    case True
    then obtain b where b: "m s = Some b" using 1(2) by (fastforce simp: acc_def)
    show ?thesis
    proof (cases "b = c")
      case True
      then have "chr_bytes guard m c s n = Some (s, n)"
        using b \<open>guard s \<and> n \<noteq> 0\<close> by (subst chr_bytes.simps) simp
      then show ?thesis using b True by (auto simp: skips_def)
    next
      case False
      have "skips m c s n (s + 1) (n - 1)" using b False True by (auto simp: skips_def less_Suc_eq_le)
      moreover have "chr_bytes guard m c s n = chr_bytes guard m c (s + 1) (n - 1)"
        using b False True by (subst chr_bytes.simps) simp
      ultimately show ?thesis
        using 1(1) [OF True b False] skips_acc [OF _ 1(2)] skips_trans by metis
    qed
  qed
qed

lemma chr_words_spec:
  assumes "acc m w n"
  shows "\<exists>w' n'. chr_words m (ONES * ucast c) w n = Some (w', n') \<and> skips m c w n w' n'"
  using assms
proof (induction n arbitrary: w rule: less_induct)
  case (less n)
  show ?case
  proof (cases "8 \<le> n")
    case False
    then show ?thesis by (subst chr_words.simps) (auto simp: skips_def)
  next
    case True
    then have a8: "acc m w 8" using less.prems by (auto intro: acc_sub)
    obtain x where x: "load64 m w = Some x" using load_bytes_acc [OF a8] by (auto simp: load64_def)
    show ?thesis
    proof (cases "HASZERO (x XOR ONES * ucast c)")
      case True
      then show ?thesis using x \<open>8 \<le> n\<close> by (subst chr_words.simps) (auto simp: skips_def)
    next
      case False
      have "m y \<noteq> Some c" if "w \<le> y" "y < w + 8" for y
        using no_match_word [OF a8 x False, of "y - w"] that by auto
      then have sk: "skips m c w n (w + 8) (n - 8)" using True by (simp add: skips_def)
      have "chr_words m (ONES * ucast c) w n = chr_words m (ONES * ucast c) (w + 8) (n - 8)"
        using x False True by (subst chr_words.simps) simp
      moreover obtain w' n' where "chr_words m (ONES * ucast c) (w + 8) (n - 8) = Some (w', n')"
        "skips m c (w + 8) (n - 8) w' n'"
        using less.IH [of "n - 8" "w + 8"] True skips_acc [OF sk less.prems] by auto
      ultimately show ?thesis using skips_trans [OF sk] by auto
    qed
  qed
qed

lemma memchr_first:
  assumes "acc m src n"
  shows "\<exists>r. memchr m src c n = Some r \<and>
    (case r of None \<Rightarrow> \<forall>i < n. m (src + i) \<noteq> Some c
     | Some a \<Rightarrow> \<exists>i < n. a = src + i \<and> m a = Some c \<and> (\<forall>j < i. m (src + j) \<noteq> Some c))"
proof -
  have fin: "case (if n' \<noteq> 0 then Some s' else None) of None \<Rightarrow> \<forall>i < n. m (src + i) \<noteq> Some c
     | Some a \<Rightarrow> \<exists>i < n. a = src + i \<and> m a = Some c \<and> (\<forall>j < i. m (src + j) \<noteq> Some c)"
    if "skips m c src n s' n'" "n' = 0 \<or> m s' = Some c" for s' n'
    using that by (auto simp: skips_def intro!: exI [of _ "s' - src"])
  obtain s1 n1 where 1: "chr_bytes (\<lambda>s. bit s 3) m c src n = Some (s1, n1)" "skips m c src n s1 n1"
    using chr_bytes_spec [OF assms] by blast
  show ?thesis
  proof (cases "n1 = 0 \<or> m s1 = Some c")
    case True
    have "memchr m src c n = Some (if n1 \<noteq> 0 then Some s1 else None)"
      using 1(1) True by (auto simp: memchr_def)
    then show ?thesis using fin [OF 1(2) True] by blast
  next
    case False
    have a1: "acc m s1 n1" by (rule skips_acc [OF 1(2) assms])
    then obtain b where b: "m s1 = Some b" "b \<noteq> c" using False by (fastforce simp: acc_def)
    obtain s2 n2 where 2: "chr_words m (ONES * ucast c) s1 n1 = Some (s2, n2)" "skips m c s1 n1 s2 n2"
      using chr_words_spec [OF a1] by blast
    obtain s3 n3 where 3: "chr_bytes (\<lambda>_. True) m c s2 n2 = Some (s3, n3)" "skips m c s2 n2 s3 n3"
      "n3 = 0 \<or> m s3 = Some c"
      using chr_bytes_spec [OF skips_acc [OF 2(2) a1], of "\<lambda>_. True" c] by blast
    have "memchr m src c n = Some (if n3 \<noteq> 0 then Some s3 else None)"
      using 1(1) 2(1) 3(1) b False by (simp add: memchr_def)
    then show ?thesis using fin [OF skips_trans [OF 1(2) skips_trans [OF 2(2) 3(2)]] 3(3)] by blast
  qed
qed

text \<open>A memory of 64 bytes, the byte at address \<open>a\<close> being \<open>a\<close>.\<close>

definition mem64 :: bmem where
  "mem64 = (\<lambda>a. if a < 64 then Some (of_nat a) else None)"

lemma acc_mem64: "a + n \<le> 64 \<Longrightarrow> acc mem64 a n"
  by (auto simp: acc_def mem64_def)

text \<open>
  C17.  \<open>memmove\<close> and \<open>memcpy\<close>.  For any alignment and any overlap \<open>memmove\<close> leaves in the destination
  exactly the bytes the source held before, and changes nothing else; its wrap-around comparison
  sends only ranges that do not overlap to \<open>memcpy\<close>, which is right for these.
\<close>

theorem memmove_moves:
  assumes "acc m d n" "acc m s n" "n < 2 ^ 63" "d < 2 ^ 64" "s < 2 ^ 64"
  shows "memmove m d s n = Some (\<lambda>x. if d \<le> x \<and> x < d + n then m (s + (x - d)) else m x) \<and>
    (d + n \<le> s \<or> s + n \<le> d \<longrightarrow> memcpy m d s n = memmove m d s n)"
proof -
  have "up_ok m d s n" if "d + n \<le> s \<or> s + n \<le> d" using that assms by (auto simp: up_ok_def)
  then show ?thesis using memmove_copied [OF assms] memcpy_up by (auto simp: copied_def)
qed

theorem memmove_moves_witness:
  "memmove mem64 3 1 40 = Some (\<lambda>x. if 3 \<le> x \<and> x < 43 then mem64 (1 + (x - 3)) else mem64 x)"
  using memmove_moves [of mem64 3 40 1] acc_mem64 [of 3 40] acc_mem64 [of 1 40] by simp

text \<open>
  C18.  \<open>memset\<close> is equivalent to a byte loop: for every size and alignment it fills exactly the
  requested range with the byte, though it writes some bytes twice, in words of four and eight
  bytes, from both ends.
\<close>

theorem memset_fills:
  assumes "acc m dest n"
  shows "memset m dest c n = Some (\<lambda>x. if dest \<le> x \<and> x < dest + n then Some c else m x)"
  using memset_filled [OF assms] by (simp add: filled_def)

theorem memset_fills_witness:
  "memset mem64 5 7 50 = Some (\<lambda>x. if 5 \<le> x \<and> x < 55 then Some 7 else mem64 x)"
  using memset_fills [of mem64 5 50 7] acc_mem64 [of 5 50] by simp

text \<open>
  C19.  \<open>memchr\<close> finds the first occurrence: its word loop, which skips eight bytes at a time with the
  carry trick, never skips a matching byte.
\<close>

theorem memchr_finds_first:
  assumes "acc m src n"
  shows "\<exists>r. memchr m src c n = Some r \<and>
    (case r of None \<Rightarrow> \<forall>i < n. m (src + i) \<noteq> Some c
     | Some a \<Rightarrow> \<exists>i < n. a = src + i \<and> m a = Some c \<and> (\<forall>j < i. m (src + j) \<noteq> Some c))"
  using assms by (rule memchr_first)

theorem memchr_finds_first_witness:
  "\<exists>r. memchr mem64 1 30 60 = Some r \<and>
    (case r of None \<Rightarrow> \<forall>i < 60. mem64 (1 + i) \<noteq> Some 30
     | Some a \<Rightarrow> \<exists>i < 60. a = 1 + i \<and> mem64 a = Some 30 \<and> (\<forall>j < i. mem64 (1 + j) \<noteq> Some 30))"
  by (rule memchr_finds_first [OF acc_mem64]) simp

end
