(* ===== verification/Klibc_Str.thy ===== *)
theory Klibc_Str
  imports Prelude "HOL-Library.List_Lexorder"
begin

text \<open>
  The string functions of \<open>libs/klibc.h\<close> and \<open>strtoul\<close> of \<open>libs/klibc.c\<close>.  A \<open>char *\<close> argument is the
  list of bytes from the pointer to the end of the object it points into; reading or writing past
  the end is \<open>None\<close>.  A returned pointer is an index into the argument, \<open>None\<close> inside the result
  standing for \<open>NULL\<close>.  The checks for \<open>NULL\<close> arguments are left out.
\<close>

subsection \<open>Copying\<close>

fun strcpy_loop :: "u8 list \<Rightarrow> nat \<Rightarrow> u8 list \<Rightarrow> u8 list option" where
  "strcpy_loop dest d [] = None"
| "strcpy_loop dest d (c # src) =
     (if c \<noteq> 0 then do { dest \<leftarrow> array_set dest d c; strcpy_loop dest (d + 1) src }
      else array_set dest d 0)"

definition strcpy :: "u8 list \<Rightarrow> u8 list \<Rightarrow> u8 list option" where
  "strcpy dest src = strcpy_loop dest 0 src"

text \<open>
  The loop \<open>while ((size-- > 0) && (*s))\<close>; \<open>size\<close> is decremented by the failing test too.  The result
  is the buffer, the offset of \<open>d\<close> and the final \<open>size\<close>.
\<close>

fun strncpy_loop :: "u8 list \<Rightarrow> nat \<Rightarrow> u8 list \<Rightarrow> int \<Rightarrow> (u8 list \<times> nat \<times> int) option" where
  "strncpy_loop dest d [] sz = (if sz > 0 then None else Some (dest, d, sz - 1))"
| "strncpy_loop dest d (c # src) sz =
     (if sz > 0 \<and> c \<noteq> 0
      then do { dest \<leftarrow> array_set dest d c; strncpy_loop dest (d + 1) src (sz - 1) }
      else Some (dest, d, sz - 1))"

definition strncpy :: "u8 list \<Rightarrow> u8 list \<Rightarrow> int \<Rightarrow> u8 list option" where
  "strncpy dest src sz =
     (if sz = 0 then Some dest
      else do { (dest, d, sz) \<leftarrow> strncpy_loop dest 0 src sz;
                if sz = 0 then (if d = 0 then None else array_set dest (d - 1) 0)
                else array_set dest d 0 })"

subsection \<open>Lengths and comparison\<close>

fun strlen_loop :: "u8 list \<Rightarrow> int \<Rightarrow> int option" where
  "strlen_loop [] len = None"
| "strlen_loop (c # cs) len = (if c \<noteq> 0 then strlen_loop cs (len + 1) else Some len)"

definition strlen :: "u8 list \<Rightarrow> int option" where
  "strlen str = strlen_loop str 0"

fun strnlen_loop :: "u8 list \<Rightarrow> nat \<Rightarrow> nat \<Rightarrow> nat option" where
  "strnlen_loop p maxlen len =
     (if maxlen > 0
      then do { c \<leftarrow> array_get p len;
                if c \<noteq> 0 then strnlen_loop p (maxlen - 1) (len + 1) else Some len }
      else Some len)"

declare strnlen_loop.simps [simp del]

definition strnlen :: "u8 list \<Rightarrow> nat \<Rightarrow> nat option" where
  "strnlen str maxlen = strnlen_loop str maxlen 0"

text \<open>The loop of \<open>strncmp\<close> and the value it returns at the first difference or end.\<close>

fun strncmp :: "u8 list \<Rightarrow> u8 list \<Rightarrow> int \<Rightarrow> int option" where
  "strncmp (a # s1) (b # s2) sz =
     (if a \<noteq> 0 \<and> b \<noteq> 0 \<and> a = b \<and> sz \<noteq> 0 then strncmp s1 s2 (sz - 1)
      else Some (if a = 0 \<or> b = 0 \<or> sz = 0 \<or> a = b then 0 else 1))"
| "strncmp s1 s2 sz = None"

fun strcmp :: "u8 list \<Rightarrow> u8 list \<Rightarrow> int option" where
  "strcmp (a # s1) (b # s2) =
     (let ret = uint a - uint b
      in if ret = 0 \<and> a \<noteq> 0 then strcmp s1 s2
         else Some (if ret < 0 then - 1 else if ret > 0 then 1 else 0))"
| "strcmp s1 s2 = None"

subsection \<open>Concatenation and search\<close>

fun find_nul :: "u8 list \<Rightarrow> nat \<Rightarrow> nat option" where
  "find_nul [] n = None"
| "find_nul (c # cs) n = (if c \<noteq> 0 then find_nul cs (n + 1) else Some n)"

definition strcat :: "u8 list \<Rightarrow> u8 list \<Rightarrow> u8 list option" where
  "strcat dest src = do { dest_len \<leftarrow> find_nul dest 0; strcpy_loop dest dest_len src }"

fun strchr_from :: "u8 list \<Rightarrow> u8 \<Rightarrow> nat \<Rightarrow> nat option option" where
  "strchr_from [] c i = None"
| "strchr_from (b # s) c i =
     (if b = c then Some (Some i) else if b \<noteq> 0 then strchr_from s c (i + 1) else Some None)"

definition strchr :: "u8 list \<Rightarrow> u8 \<Rightarrow> nat option option" where
  "strchr s c = strchr_from s c 0"

fun strrchr_from :: "u8 list \<Rightarrow> u8 \<Rightarrow> nat \<Rightarrow> nat option \<Rightarrow> nat option option" where
  "strrchr_from [] c i found = None"
| "strrchr_from (b # s) c i found =
     (let found = (if b = c then Some i else found)
      in if b \<noteq> 0 then strrchr_from s c (i + 1) found else Some found)"

definition strrchr :: "u8 list \<Rightarrow> u8 \<Rightarrow> nat option option" where
  "strrchr s c = strrchr_from s c 0 None"

text \<open>The inner loop of \<open>strstr\<close>: the first \<open>j\<close> at which needle and haystack differ, or the length.\<close>

function match_from :: "u8 list \<Rightarrow> u8 list \<Rightarrow> nat \<Rightarrow> nat \<Rightarrow> nat \<Rightarrow> nat option" where
  "match_from haystack needle needle_len i j =
     (if j < needle_len
      then do { a \<leftarrow> array_get haystack (i + j);
                b \<leftarrow> array_get needle j;
                if a \<noteq> b then Some j else match_from haystack needle needle_len i (j + 1) }
      else Some j)"
  by pat_completeness auto

termination
  by (relation "measure (\<lambda>(h, n, nl, i, j). nl - j)") auto

declare match_from.simps [simp del]

function strstr_from :: "u8 list \<Rightarrow> u8 list \<Rightarrow> nat \<Rightarrow> nat \<Rightarrow> nat \<Rightarrow> nat option option" where
  "strstr_from haystack needle needle_len haystack_len i =
     (if i + needle_len \<le> haystack_len
      then do { a \<leftarrow> array_get haystack i;
                b \<leftarrow> array_get needle 0;
                if a \<noteq> b then strstr_from haystack needle needle_len haystack_len (i + 1)
                else do { j \<leftarrow> match_from haystack needle needle_len i 0;
                          if j = needle_len then Some (Some i)
                          else strstr_from haystack needle needle_len haystack_len (i + 1) } }
      else Some None)"
  by pat_completeness auto

termination
  by (relation "measure (\<lambda>(h, n, nl, hl, i). hl + 1 - i)") auto

declare strstr_from.simps [simp del]

definition strstr :: "u8 list \<Rightarrow> u8 list \<Rightarrow> nat option option" where
  "strstr haystack needle =
     do { b \<leftarrow> array_get needle 0;
          if b = 0 then Some (Some 0)
          else do { needle_len \<leftarrow> strlen needle;
                    haystack_len \<leftarrow> strlen haystack;
                    strstr_from haystack needle (nat needle_len) (nat haystack_len) 0 } }"

subsection \<open>\<open>strtoul\<close>\<close>

definition TOLOWER :: "u8 \<Rightarrow> u8" where "TOLOWER x = x OR 0x20"

definition isdigit :: "u8 \<Rightarrow> bool" where "isdigit c = (48 \<le> c \<and> c \<le> 57)"

definition isxdigit :: "u8 \<Rightarrow> bool" where
  "isxdigit c = ((48 \<le> c \<and> c \<le> 57) \<or> (97 \<le> c \<and> c \<le> 102) \<or> (65 \<le> c \<and> c \<le> 70))"

definition digit_value :: "u8 \<Rightarrow> u64" where
  "digit_value c = (if isdigit c then ucast c - 48 else ucast (TOLOWER c) - 97 + 10)"

text \<open>The digit loop; the second result is the number of characters consumed.\<close>

fun strtoul_loop :: "u8 list \<Rightarrow> u64 \<Rightarrow> nat \<Rightarrow> u64 \<Rightarrow> (u64 \<times> nat) option" where
  "strtoul_loop [] base i result = None"
| "strtoul_loop (c # cp) base i result =
     (if isxdigit c \<and> digit_value c < base
      then strtoul_loop cp base (i + 1) (result * base + digit_value c)
      else Some (result, i))"

definition strtoul :: "u8 list \<Rightarrow> u64 \<Rightarrow> (u64 \<times> nat) option" where
  "strtoul cp base =
     do { (i, base) \<leftarrow>
            (if base = 0
             then do { c0 \<leftarrow> array_get cp 0;
                       if c0 = 48
                       then do { c1 \<leftarrow> array_get cp 1;
                                 if TOLOWER c1 = 120
                                 then do { c2 \<leftarrow> array_get cp 2;
                                           Some (if isxdigit c2 then (2, 16) else (1, 8)) }
                                 else Some (1, 8) }
                       else Some (0, 10) }
             else if base = 16
             then do { c0 \<leftarrow> array_get cp 0;
                       if c0 = 48
                       then do { c1 \<leftarrow> array_get cp 1;
                                 Some (if TOLOWER c1 = 120 then (2, 16) else (0, 16)) }
                       else Some (0, 16) }
             else Some (0, base));
          strtoul_loop (drop i cp) base i 0 }"

subsection \<open>Writing into a buffer\<close>

text \<open>The buffer with the bytes \<open>s\<close> at offset \<open>d\<close>.\<close>

definition put :: "u8 list \<Rightarrow> nat \<Rightarrow> u8 list \<Rightarrow> u8 list" where
  "put dest d s = take d dest @ s @ drop (d + length s) dest"

lemma length_put [simp]: "d + length s \<le> length dest \<Longrightarrow> length (put dest d s) = length dest"
  by (simp add: put_def)

lemma put_Nil [simp]: "put dest d [] = dest"
  by (simp add: put_def)

lemma put_Cons:
  "d + length (c # s) \<le> length dest \<Longrightarrow> put (dest[d := c]) (d + 1) s = put dest d (c # s)"
  by (rule nth_equalityI) (auto simp: put_def nth_append nth_list_update nth_Cons' min_def)

lemma put_snoc:
  "d + length s < length dest \<Longrightarrow> (put dest d s)[d + length s := c] = put dest d (s @ [c])"
  by (rule nth_equalityI) (auto simp: put_def nth_append nth_list_update min_def)

lemma strcpy_loop_put:
  assumes "0 \<notin> set s" "d + length s < length dest"
  shows "strcpy_loop dest d (s @ 0 # r) = Some (put dest d (s @ [0]))"
  using assms
proof (induction s arbitrary: dest d)
  case Nil
  then show ?case using put_snoc [of d "[]" dest 0] by simp
next
  case (Cons c s)
  then show ?case using put_Cons [of d c "s @ [0]" dest] by (simp del: One_nat_def)
qed

lemma strcpy_put:
  "0 \<notin> set s \<Longrightarrow> length s < length dest \<Longrightarrow> strcpy dest (s @ 0 # r) = Some (put dest 0 (s @ [0]))"
  by (simp add: strcpy_def strcpy_loop_put)

lemma find_nul_at: "0 \<notin> set s \<Longrightarrow> find_nul (s @ 0 # r) n = Some (n + length s)"
  by (induction s arbitrary: n) auto

lemma strcat_put:
  assumes "0 \<notin> set s" "0 \<notin> set t" "length s + length t < length (s @ 0 # r)"
  shows "strcat (s @ 0 # r) (t @ 0 # q) = Some (s @ t @ 0 # drop (length t) r)"
  using strcpy_loop_put [OF assms(2), of "length s" "s @ 0 # r" q] assms
  by (simp add: strcat_def find_nul_at put_def)

lemma strncpy_loop_short:
  assumes "0 \<notin> set s" "d + length s \<le> length dest" "int (length s) < sz"
  shows "strncpy_loop dest d (s @ 0 # r) sz = Some (put dest d s, d + length s, sz - int (length s) - 1)"
  using assms
proof (induction s arbitrary: dest d sz)
  case (Cons c s)
  then show ?case using put_Cons [of d c s dest] by (simp del: One_nat_def)
qed simp

lemma strncpy_loop_long:
  assumes "0 \<notin> set s" "d + n \<le> length dest" "n \<le> length s"
  shows "strncpy_loop dest d (s @ 0 # r) (int n) = Some (put dest d (take n s), d + n, - 1)"
  using assms
proof (induction n arbitrary: dest d s)
  case 0
  then show ?case by (cases s) simp_all
next
  case (Suc n)
  then obtain c s' where s: "s = c # s'" by (cases s) auto
  then show ?case using Suc put_Cons [of d c "take n s'" dest] by (simp del: One_nat_def)
qed

lemma strncpy_put:
  assumes s: "0 \<notin> set s" and n: "0 < n" "n \<le> length dest"
  shows "strncpy dest (s @ 0 # r) (int n) =
    (if length s + 1 < n then Some (put dest 0 (s @ [0]))
     else if length s + 1 = n then (if s = [] then None else Some (put dest 0 (butlast s @ [0])))
     else if n < length dest then Some (put dest 0 (take n s @ [0])) else None)"
proof -
  consider "length s + 1 < n" | "length s + 1 = n" | "n \<le> length s" by linarith
  then show ?thesis
  proof cases
    case 1
    then show ?thesis
      using strncpy_loop_short [OF s, of 0 dest "int n" r] n put_snoc [of 0 s dest 0]
      by (simp add: strncpy_def)
  next
    case 2
    have "(put dest 0 s)[length s - 1 := 0] = put dest 0 (butlast s @ [0])" if "s \<noteq> []"
      using that by (cases s rule: rev_cases) (simp_all add: put_def list_update_append)
    then show ?thesis
      using strncpy_loop_short [OF s, of 0 dest "int n" r] n 2
      by (auto simp: strncpy_def)
  next
    case 3
    have "array_set (put dest 0 (take n s)) n 0 =
        (if n < length dest then Some (put dest 0 (take n s @ [0])) else None)"
      using 3 n put_snoc [of 0 "take n s" dest 0] by (auto simp: array_set_def min_absorb2)
    then show ?thesis
      using strncpy_loop_long [OF s, of 0 n dest r] 3 n by (simp add: strncpy_def)
  qed
qed

subsection \<open>Comparison and search\<close>

lemma strlen_length: "0 \<notin> set s \<Longrightarrow> strlen (s @ 0 # r) = Some (int (length s))"
proof -
  assume s: "0 \<notin> set s"
  have "strlen_loop (s @ 0 # r) n = Some (n + int (length s))" for n
    using s by (induction s arbitrary: n) auto
  then show ?thesis by (simp add: strlen_def)
qed

lemma strcmp_order:
  "0 \<notin> set s \<Longrightarrow> 0 \<notin> set t \<Longrightarrow>
   strcmp (s @ 0 # r) (t @ 0 # q) = Some (if s < t then - 1 else if t < s then 1 else 0)"
proof (induction s t rule: list_induct2')
  case (2 a s)
  then have "0 < uint a" using uint_0_iff [of a] uint_ge_0 [of a] by (simp add: order.strict_iff_order)
  then show ?case using 2 by simp
next
  case (3 b t)
  then have "0 < uint b" using uint_0_iff [of b] uint_ge_0 [of b] by (simp add: order.strict_iff_order)
  then show ?case using 3 by simp
next
  case (4 a s b t)
  consider "a = b" | "a < b" | "b < a" by (rule linorder_cases)
  then show ?case using 4 by cases (auto simp: word_less_def)
qed simp

lemma strncmp_prefix:
  "0 \<notin> set s \<Longrightarrow> 0 \<notin> set t \<Longrightarrow>
   strncmp (s @ 0 # r) (t @ 0 # q) (int n) =
     Some (if take (min n (length t)) s = take (min n (length s)) t then 0 else 1)"
proof (induction s t arbitrary: n rule: list_induct2')
  case (4 a s b t)
  then show ?case by (cases n) auto
qed auto

lemma strchr_first:
  assumes "0 \<notin> set s" "c \<noteq> 0"
  shows "strchr_from (s @ 0 # r) c i =
    Some (if c \<in> set s then Some (i + length (takeWhile (\<lambda>b. b \<noteq> c) s)) else None)"
  using assms
proof (induction s arbitrary: i)
  case (Cons b s)
  then show ?case by (cases "b = c") simp_all
qed simp

lemma match_from_eq:
  assumes "i + length t \<le> length h" "j \<le> length t" "take j t = take j (drop i h)"
  shows "\<exists>k. match_from (h @ r) (t @ q) (length t) i j = Some k \<and>
    (k = length t \<longleftrightarrow> take (length t) (drop i h) = t)"
  using assms
proof (induction "length t - j" arbitrary: j)
  case 0
  then show ?case by (subst match_from.simps) simp
next
  case (Suc x)
  then have j: "j < length t" "i + j < length h" by simp_all
  have get: "array_get (h @ r) (i + j) = Some (h ! (i + j))" "array_get (t @ q) j = Some (t ! j)"
    using j by (simp_all add: nth_append)
  show ?case
  proof (cases "h ! (i + j) = t ! j")
    case True
    then have "take (Suc j) t = take (Suc j) (drop i h)"
      using Suc.prems j by (simp add: take_Suc_conv_app_nth add.commute)
    then show ?thesis
      using Suc.hyps(1) [of "Suc j"] Suc.hyps(2) Suc.prems(1) j get True
      by (simp add: match_from.simps [of _ _ _ _ j])
  next
    case False
    moreover have "take (length t) (drop i h) ! j = h ! (i + j)" using j Suc.prems(1) by simp
    ultimately have "take (length t) (drop i h) \<noteq> t" by metis
    then show ?thesis using get False j by (simp add: match_from.simps [of _ _ _ _ j])
  qed
qed

lemma strstr_from_first:
  assumes "t \<noteq> []"
  shows "\<exists>res. strstr_from (h @ r) (t @ q) (length t) (length h) i = Some res \<and>
    (case res of
       None \<Rightarrow> \<forall>k \<ge> i. k + length t \<le> length h \<longrightarrow> take (length t) (drop k h) \<noteq> t
     | Some k \<Rightarrow> i \<le> k \<and> k + length t \<le> length h \<and> take (length t) (drop k h) = t \<and>
         (\<forall>l. i \<le> l \<and> l < k \<longrightarrow> take (length t) (drop l h) \<noteq> t))"
proof (induction "length h + 1 - i" arbitrary: i rule: less_induct)
  case less
  show ?case
  proof (cases "i + length t \<le> length h")
    case False
    then show ?thesis by (auto simp: strstr_from.simps [of _ _ _ _ i])
  next
    case True
    have i: "i < length h" using True assms by (cases t) auto
    have get: "array_get (h @ r) i = Some (h ! i)" "array_get (t @ q) 0 = Some (t ! 0)"
      using i assms by (simp_all add: nth_append)
    obtain k where k: "match_from (h @ r) (t @ q) (length t) i 0 = Some k"
      "k = length t \<longleftrightarrow> take (length t) (drop i h) = t"
      using match_from_eq [OF True, of 0 r q] by auto
    show ?thesis
    proof (cases "take (length t) (drop i h) = t")
      case True
      moreover have "take (length t) (drop i h) ! 0 = h ! i" using i assms by simp
      ultimately have "h ! i = t ! 0" by metis
      then show ?thesis
        using True get k \<open>i + length t \<le> length h\<close> by (auto simp: strstr_from.simps [of _ _ _ _ i])
    next
      case False
      have "length h + 1 - (i + 1) < length h + 1 - i" using i by arith
      from less [OF this] obtain res where res: "strstr_from (h @ r) (t @ q) (length t) (length h) (i + 1) = Some res"
        "case res of
           None \<Rightarrow> \<forall>k \<ge> i + 1. k + length t \<le> length h \<longrightarrow> take (length t) (drop k h) \<noteq> t
         | Some k \<Rightarrow> i + 1 \<le> k \<and> k + length t \<le> length h \<and> take (length t) (drop k h) = t \<and>
             (\<forall>l. i + 1 \<le> l \<and> l < k \<longrightarrow> take (length t) (drop l h) \<noteq> t)"
        by blast
      have step: "i \<le> l \<longleftrightarrow> l = i \<or> i + 1 \<le> l" for l by auto
      have "strstr_from (h @ r) (t @ q) (length t) (length h) i = Some res"
        using get k res(1) False True by (auto simp: strstr_from.simps [of _ _ _ _ i])
      then show ?thesis using res(2) False unfolding step by (auto split: option.splits)
    qed
  qed
qed

lemma strstr_first:
  assumes "0 \<notin> set h" "0 \<notin> set t" "t \<noteq> []"
  shows "\<exists>res. strstr (h @ 0 # r) (t @ 0 # q) = Some res \<and>
    (case res of
       None \<Rightarrow> \<forall>k. k + length t \<le> length h \<longrightarrow> take (length t) (drop k h) \<noteq> t
     | Some k \<Rightarrow> k + length t \<le> length h \<and> take (length t) (drop k h) = t \<and>
         (\<forall>l < k. take (length t) (drop l h) \<noteq> t))"
proof -
  have "array_get (t @ 0 # q) 0 = Some (hd t)" "hd t \<noteq> 0" using assms(2,3) by (cases t; simp)+
  then show ?thesis
    using strstr_from_first [OF assms(3), of h "0 # r" "0 # q" 0] assms(1,2)
    by (simp add: strstr_def strlen_length cong: option.case_cong)
qed

lemma strrchr_none:
  "0 \<notin> set s \<Longrightarrow> c \<noteq> 0 \<Longrightarrow> c \<notin> set s \<Longrightarrow> strrchr_from (s @ 0 # r) c i found = Some found"
  by (induction s arbitrary: i) (auto simp: Let_def)

lemma strrchr_last:
  assumes "0 \<notin> set u" "0 \<notin> set v" "c \<noteq> 0" "c \<notin> set v"
  shows "strrchr_from (u @ c # v @ 0 # r) c i found = Some (Some (i + length u))"
  using assms
  by (induction u arbitrary: i found) (auto simp: Let_def strrchr_none)

subsection \<open>Printing and reading numbers\<close>

text \<open>The usual printer, most significant digit first, in the digits \<open>strtoul\<close> accepts.\<close>

fun digits :: "nat \<Rightarrow> nat \<Rightarrow> nat list" where
  "digits b n = (if n < b \<or> b < 2 then [n] else digits b (n div b) @ [n mod b])"

declare digits.simps [simp del]

definition digit_char :: "nat \<Rightarrow> u8" where
  "digit_char d = (if d < 10 then 48 + of_nat d else 87 + of_nat d)"

lemma digit_char_value:
  assumes "d < 16"
  shows "isxdigit (digit_char d) \<and> digit_value (digit_char d) = of_nat d \<and>
    TOLOWER (digit_char d) \<noteq> 120"
proof -
  have "list_all (\<lambda>d. isxdigit (digit_char d) \<and> digit_value (digit_char d) = of_nat d \<and>
    TOLOWER (digit_char d) \<noteq> 120) [0..<16]" by code_simp
  then show ?thesis using assms by (simp add: list_all_iff)
qed

lemma digits_less: "2 \<le> b \<Longrightarrow> d \<in> set (digits b n) \<Longrightarrow> d < b"
proof (induction b n rule: digits.induct)
  case (1 b n)
  then show ?case using digits.simps [of b n] by (auto split: if_splits)
qed

lemma digits_nonempty: "digits b n \<noteq> []"
  by (subst digits.simps) simp

lemma digits_value:
  "foldl (\<lambda>x d. x * of_nat b + of_nat d) 0 (digits b n) = (of_nat n :: u64)"
proof (induction b n rule: digits.induct)
  case (1 b n)
  show ?case
  proof (cases "n < b \<or> b < 2")
    case True
    then show ?thesis by (subst digits.simps) simp
  next
    case False
    have "(of_nat (n div b) * of_nat b + of_nat (n mod b) :: u64) = of_nat (n div b * b + n mod b)"
      by (simp only: of_nat_add of_nat_mult)
    then show ?thesis using False 1 by (subst digits.simps) simp
  qed
qed

lemma strtoul_loop_digits:
  assumes "\<forall>d \<in> set ds. d < b" "b \<le> 16"
  shows "strtoul_loop (map digit_char ds @ 0 # r) (of_nat b) i res =
    Some (foldl (\<lambda>x d. x * of_nat b + of_nat d) res ds, i + length ds)"
  using assms
proof (induction ds arbitrary: i res)
  case Nil
  then show ?case by (simp add: isxdigit_def)
next
  case (Cons d ds)
  then have d: "d < 16" by simp
  have "(of_nat d :: u64) < of_nat b"
    using Cons.prems by (simp add: word_less_nat_alt unat_of_nat)
  then show ?case using Cons digit_char_value [OF d] by simp
qed

lemma strtoul_prefix:
  assumes "2 \<le> b" "b \<le> 16"
  shows "strtoul (map digit_char (digits b n) @ 0 # r) (of_nat b) =
    strtoul_loop (map digit_char (digits b n) @ 0 # r) (of_nat b) 0 0"
proof -
  have "unat (of_nat b :: u64) = b" using assms by (simp add: unat_of_nat)
  then have b: "(of_nat b :: u64) \<noteq> 0" using assms by auto
  obtain d ds where ds: "digits b n = d # ds" using digits_nonempty by (cases "digits b n") auto
  have "\<forall>d \<in> set (d # ds). d < 16"
    using digits_less [OF assms(1), of _ n] assms(2) unfolding ds by (auto intro: order.strict_trans2)
  then have "TOLOWER ((map digit_char (d # ds) @ 0 # r) ! 1) \<noteq> 120"
    using digit_char_value by (cases ds) (auto simp: TOLOWER_def)
  then show ?thesis unfolding ds strtoul_def using b by (auto split: bind_splits)
qed

subsection \<open>The properties\<close>

text \<open>
  C20.  What \<open>strncpy\<close> does with a buffer of at least \<open>size\<close> bytes, on every branch.  A string of
  at most \<open>size - 2\<close> characters is copied with its terminator and nothing else of the buffer
  changes.  A string of exactly \<open>size - 1\<close> characters, which would fit, loses its last character;
  when \<open>size\<close> is 1 the write is at \<open>dest[-1]\<close>.  A longer string fills \<open>size\<close> bytes and the
  terminator is written at \<open>dest[size]\<close>: outside the buffer when it has exactly \<open>size\<close> bytes.
\<close>

theorem strncpy_cases:
  assumes "0 \<notin> set s" "0 < n" "n \<le> length dest"
  shows "strncpy dest (s @ 0 # r) (int n) =
    (if length s + 1 < n then Some (s @ 0 # drop (length s + 1) dest)
     else if length s + 1 = n
     then (if s = [] then None else Some (butlast s @ 0 # drop (length s) dest))
     else if n < length dest then Some (take n s @ 0 # drop (n + 1) dest) else None)"
  using strncpy_put [OF assms, of r] assms(2) by (auto simp: put_def min_absorb2)

theorem strncpy_cases_witness:
  "strncpy [9, 9, 9, 9] ([1, 2] @ 0 # []) (int 4) = Some [1, 2, 0, 9] \<and>
   strncpy [9, 9, 9] ([1, 2] @ 0 # []) (int 3) = Some [1, 0, 9] \<and>
   strncpy [9, 9] ([1, 2] @ 0 # []) (int 2) = None"
  using strncpy_cases [of "[1, 2]" 4 "[9, 9, 9, 9]" "[]"] strncpy_cases [of "[1, 2]" 3 "[9, 9, 9]" "[]"]
    strncpy_cases [of "[1, 2]" 2 "[9, 9]" "[]"]
  by simp

text \<open>
  C21.  \<open>strcmp\<close> computes the lexicographic order of the two strings by unsigned bytes: it returns
  -1, 0 or 1 as the first is smaller than, equal to or greater than the second, and never reads
  past either terminator.
\<close>

theorem strcmp_lexicographic:
  assumes "0 \<notin> set s" "0 \<notin> set t"
  shows "strcmp (s @ 0 # r) (t @ 0 # q) = Some (if s < t then - 1 else if s = t then 0 else 1)"
  using strcmp_order [OF assms, of r q] by auto

theorem strcmp_lexicographic_witness:
  "strcmp ([97, 200] @ 0 # []) ([97] @ 0 # [5]) = Some 1 \<and> \<not> [97, 200] < [97 :: u8]"
  using strcmp_lexicographic [of "[97, 200]" "[97]" "[]" "[5]"] by simp

text \<open>
  C22.  Reading back a printed number: for every base from 2 to 16 \<open>strtoul\<close> returns the number
  whose digits precede the terminator, reduced modulo \<open>2 ^ 64\<close>, and leaves \<open>endp\<close> at the
  terminator; in particular numbers below \<open>2 ^ 64\<close> are read back exactly.
\<close>

theorem strtoul_round_trip:
  assumes "2 \<le> b" "b \<le> 16"
  shows "strtoul (map digit_char (digits b n) @ 0 # r) (of_nat b) =
      Some (of_nat n, length (digits b n)) \<and>
    (n < 2 ^ 64 \<longrightarrow> unat (of_nat n :: u64) = n)"
proof -
  have "\<forall>d \<in> set (digits b n). d < b" using digits_less [OF assms(1)] by blast
  then show ?thesis
    using strtoul_prefix [OF assms] strtoul_loop_digits [OF _ assms(2)] digits_value [of b n]
    by (simp add: unat_of_nat)
qed

theorem strtoul_round_trip_witness:
  "strtoul (map digit_char [15, 10] @ 0 # []) 16 = Some (250, 2)"
proof -
  have "digits 16 250 = [15, 10]" by (simp add: digits.simps)
  then show ?thesis using strtoul_round_trip [of 16 250 "[]"] by simp
qed

end
