(* ===== verification/Klibc_Sort.thy ===== *)
theory Klibc_Sort
  imports Prelude "HOL-Library.Multiset"
begin

text \<open>
  \<open>qsort\<close> of \<open>libs/klibc.h\<close>.  The array of \<open>nitems\<close> elements of \<open>size\<close> bytes is the list of its
  elements, and a pointer into it is the index of an element; indices are integers because the code
  forms \<open>low - size\<close> before the first element.  The comparison function is a parameter.
\<close>

subsection \<open>The model\<close>

definition elem_get :: "'a list \<Rightarrow> int \<Rightarrow> 'a option" where
  "elem_get xs i = (if i < 0 then None else array_get xs (nat i))"

definition elem_set :: "'a list \<Rightarrow> int \<Rightarrow> 'a \<Rightarrow> 'a list option" where
  "elem_set xs i x = (if i < 0 then None else array_set xs (nat i) x)"

definition qsort_swap :: "'a list \<Rightarrow> int \<Rightarrow> int \<Rightarrow> 'a list option" where
  "qsort_swap xs a b =
     do { tmp \<leftarrow> elem_get xs a;
          y \<leftarrow> elem_get xs b;
          xs \<leftarrow> elem_set xs a y;
          elem_set xs b tmp }"

text \<open>The loop \<open>for (j = low; j != high; j += size)\<close>; the results are the array and \<open>i\<close>.\<close>

partial_function (option) partition_loop ::
  "('a \<Rightarrow> 'a \<Rightarrow> int) \<Rightarrow> int \<Rightarrow> 'a list \<Rightarrow> int \<Rightarrow> int \<Rightarrow> ('a list \<times> int) option" where
  "partition_loop cmp high xs i j =
     (if j \<noteq> high
      then do { x \<leftarrow> elem_get xs j;
                pivot \<leftarrow> elem_get xs high;
                if cmp x pivot \<le> 0
                then do { xs \<leftarrow> qsort_swap xs (i + 1) j; partition_loop cmp high xs (i + 1) (j + 1) }
                else partition_loop cmp high xs i (j + 1) }
      else Some (xs, i))"

declare partition_loop.simps [code]

definition qsort_partition ::
  "('a \<Rightarrow> 'a \<Rightarrow> int) \<Rightarrow> 'a list \<Rightarrow> int \<Rightarrow> int \<Rightarrow> ('a list \<times> int) option" where
  "qsort_partition cmp xs low high =
     do { (xs, i) \<leftarrow> partition_loop cmp high xs (low - 1) low;
          xs \<leftarrow> qsort_swap xs (i + 1) high;
          Some (xs, i + 1) }"

partial_function (option) qsort_quicksort ::
  "('a \<Rightarrow> 'a \<Rightarrow> int) \<Rightarrow> 'a list \<Rightarrow> int \<Rightarrow> int \<Rightarrow> 'a list option" where
  "qsort_quicksort cmp xs low high =
     (if low < high
      then do { (xs, pi) \<leftarrow> qsort_partition cmp xs low high;
                xs \<leftarrow> qsort_quicksort cmp xs low (pi - 1);
                qsort_quicksort cmp xs (pi + 1) high }
      else Some xs)"

declare qsort_quicksort.simps [code]

definition qsort :: "'a list \<Rightarrow> nat \<Rightarrow> ('a \<Rightarrow> 'a \<Rightarrow> int) \<Rightarrow> 'a list option" where
  "qsort xs nitems cmp = qsort_quicksort cmp xs 0 (int nitems - 1)"

text \<open>The difference of two \<open>int\<close>; a signed overflow is undefined.\<close>

definition qsort_compare :: "int \<Rightarrow> int \<Rightarrow> int option" where
  "qsort_compare a b = (if - (2 ^ 31) \<le> a - b \<and> a - b < 2 ^ 31 then Some (a - b) else None)"

subsection \<open>Rearranging part of an array\<close>

text \<open>\<open>ys\<close> is a rearrangement of \<open>xs\<close> that moves only elements at indices from \<open>a\<close> to below \<open>b\<close>.\<close>

definition shuffled :: "nat \<Rightarrow> nat \<Rightarrow> 'a list \<Rightarrow> 'a list \<Rightarrow> bool" where
  "shuffled a b xs ys \<longleftrightarrow> mset ys = mset xs \<and>
     (\<forall>k < length xs. k < a \<or> b \<le> k \<longrightarrow> ys ! k = xs ! k) \<and>
     (\<forall>k. a \<le> k \<and> k < b \<longrightarrow> (\<exists>l. a \<le> l \<and> l < b \<and> ys ! k = xs ! l))"

lemma shuffled_refl [simp]: "shuffled a b xs xs"
  by (auto simp: shuffled_def)

lemma shuffled_length: "shuffled a b xs ys \<Longrightarrow> length ys = length xs"
  by (metis shuffled_def size_mset)

lemma shuffled_trans: "shuffled a b xs ys \<Longrightarrow> shuffled a b ys zs \<Longrightarrow> shuffled a b xs zs"
  using shuffled_length [of a b xs ys] unfolding shuffled_def by metis

lemma shuffled_mono:
  assumes "shuffled a b xs ys" "c \<le> a" "b \<le> d" "d \<le> length xs"
  shows "shuffled c d xs ys"
proof -
  have "\<exists>l. c \<le> l \<and> l < d \<and> ys ! k = xs ! l" if k: "c \<le> k" "k < d" for k
  proof (cases "a \<le> k \<and> k < b")
    case True
    then show ?thesis using assms unfolding shuffled_def by (meson order.strict_trans2 order_trans)
  next
    case False
    then show ?thesis using assms k unfolding shuffled_def by (meson leI order.strict_trans2)
  qed
  then show ?thesis using assms unfolding shuffled_def by auto
qed

lemma qsort_swap_shuffled:
  assumes "a \<le> k" "k < b" "a \<le> l" "l < b" "b \<le> length xs"
  shows "qsort_swap xs (int k) (int l) = Some (xs[k := xs ! l, l := xs ! k]) \<and>
    shuffled a b xs (xs[k := xs ! l, l := xs ! k])"
proof -
  have "mset (xs[k := xs ! l, l := xs ! k]) = mset xs"
    using assms by (simp add: mset_swap)
  then show ?thesis
    using assms by (auto simp: qsort_swap_def elem_get_def elem_set_def shuffled_def nth_list_update)
qed

subsection \<open>Partitioning\<close>

definition split_by :: "('a \<Rightarrow> 'a \<Rightarrow> int) \<Rightarrow> 'a \<Rightarrow> 'a list \<Rightarrow> nat \<Rightarrow> nat \<Rightarrow> nat \<Rightarrow> bool" where
  "split_by cmp p xs a i j \<longleftrightarrow> a \<le> i \<and> i \<le> j \<and>
     (\<forall>k. a \<le> k \<and> k < i \<longrightarrow> cmp (xs ! k) p \<le> 0) \<and> (\<forall>k. i \<le> k \<and> k < j \<longrightarrow> cmp (xs ! k) p > 0)"

lemma split_by_swap:
  assumes "split_by cmp p xs a i j" "cmp (xs ! j) p \<le> 0" "j < length xs"
  shows "split_by cmp p (xs[i := xs ! j, j := xs ! i]) a (i + 1) (j + 1)"
  using assms unfolding split_by_def
  by (auto simp: nth_list_update less_Suc_eq)

lemma partition_loop_spec:
  assumes "split_by cmp (xs ! h) xs a i j" "j \<le> h" "h < length xs"
  shows "\<exists>ys i'. partition_loop cmp (int h) xs (int i - 1) (int j) = Some (ys, int i' - 1) \<and>
    shuffled a h xs ys \<and> split_by cmp (xs ! h) ys a i' h"
  using assms
proof (induction "h - j" arbitrary: xs i j)
  case 0
  then show ?case by (intro exI [of _ xs] exI [of _ i]) (simp add: partition_loop.simps)
next
  case (Suc x)
  then have j: "j < h" "a \<le> i" "i \<le> j" by (auto simp: split_by_def)
  have x: "x = h - (j + 1)" using Suc.hyps(2) by arith
  have get: "elem_get xs (int j) = Some (xs ! j)" "elem_get xs (int h) = Some (xs ! h)"
    using j Suc.prems by (simp_all add: elem_get_def)
  show ?case
  proof (cases "cmp (xs ! j) (xs ! h) \<le> 0")
    case True
    let ?ys = "xs[i := xs ! j, j := xs ! i]"
    have s: "qsort_swap xs (int i) (int j) = Some ?ys" "shuffled a h xs ?ys"
      using qsort_swap_shuffled [of a i h j xs] j Suc.prems by simp_all
    have h: "?ys ! h = xs ! h" using j by simp
    have "split_by cmp (?ys ! h) ?ys a (i + 1) (j + 1)"
      using split_by_swap [OF Suc.prems(1) True] Suc.prems j unfolding h by simp
    then obtain ys i' where ys: "partition_loop cmp (int h) ?ys (int (i + 1) - 1) (int (j + 1)) = Some (ys, int i' - 1)"
      "shuffled a h ?ys ys" "split_by cmp (?ys ! h) ys a i' h"
      using Suc.hyps(1) [OF x, of ?ys "i + 1"] Suc.prems j by auto
    have "partition_loop cmp (int h) xs (int i - 1) (int j) = Some (ys, int i' - 1)"
      using ys(1) get s True j by (simp add: partition_loop.simps [of _ _ xs] add.commute)
    then show ?thesis using ys(2,3) shuffled_trans [OF s(2)] unfolding h by blast
  next
    case False
    then have "split_by cmp (xs ! h) xs a i (j + 1)"
      using Suc.prems(1) by (auto simp: split_by_def less_Suc_eq)
    then obtain ys i' where ys: "partition_loop cmp (int h) xs (int i - 1) (int (j + 1)) = Some (ys, int i' - 1)"
      "shuffled a h xs ys" "split_by cmp (xs ! h) ys a i' h"
      using Suc.hyps(1) [OF x, of xs i] Suc.prems j by auto
    have "partition_loop cmp (int h) xs (int i - 1) (int j) = Some (ys, int i' - 1)"
      using ys(1) get False j by (simp add: partition_loop.simps [of _ _ xs "int i - 1" "int j"] add.commute)
    then show ?thesis using ys(2,3) by blast
  qed
qed

lemma qsort_partition_spec:
  assumes "a < h" "h < length xs"
  shows "\<exists>ys q. qsort_partition cmp xs (int a) (int h) = Some (ys, int q) \<and> a \<le> q \<and> q \<le> h \<and>
    shuffled a (h + 1) xs ys \<and> (\<forall>k. a \<le> k \<and> k < q \<longrightarrow> cmp (ys ! k) (ys ! q) \<le> 0) \<and>
    (\<forall>k. q < k \<and> k \<le> h \<longrightarrow> cmp (ys ! k) (ys ! q) > 0)"
proof -
  have "split_by cmp (xs ! h) xs a a a" by (auto simp: split_by_def)
  then obtain ys q where ys: "partition_loop cmp (int h) xs (int a - 1) (int a) = Some (ys, int q - 1)"
    "shuffled a h xs ys" "split_by cmp (xs ! h) ys a q h"
    using partition_loop_spec [of cmp xs h a a a] assms by auto
  have q: "a \<le> q" "q \<le> h" using ys(3) by (auto simp: split_by_def)
  have len: "length ys = length xs" and h: "ys ! h = xs ! h"
    using ys(2) shuffled_length assms by (auto simp: shuffled_def)
  let ?zs = "ys[q := ys ! h, h := ys ! q]"
  have s: "qsort_swap ys (int q) (int h) = Some ?zs" "shuffled a (h + 1) ys ?zs"
    using qsort_swap_shuffled [of a q "h + 1" h ys] q assms len by simp_all
  have "shuffled a (h + 1) xs ys" using shuffled_mono [OF ys(2), of a "h + 1"] assms by simp
  then have sh: "shuffled a (h + 1) xs ?zs" using s(2) shuffled_trans by blast
  have p: "?zs ! q = xs ! h" using q len assms h by (auto simp: nth_list_update)
  have "\<forall>k. a \<le> k \<and> k < q \<longrightarrow> cmp (?zs ! k) (?zs ! q) \<le> 0"
    using ys(3) q unfolding p by (auto simp: split_by_def)
  moreover have "\<forall>k. q < k \<and> k \<le> h \<longrightarrow> cmp (?zs ! k) (?zs ! q) > 0"
    using ys(3) q assms len unfolding p by (auto simp: split_by_def nth_list_update)
  moreover have "qsort_partition cmp xs (int a) (int h) = Some (?zs, int q)"
    using ys(1) s(1) by (simp add: qsort_partition_def)
  ultimately show ?thesis using q sh by blast
qed

subsection \<open>Sorting\<close>

text \<open>What a comparison function promises: a total preorder.\<close>

definition total_preorder :: "('a \<Rightarrow> 'a \<Rightarrow> int) \<Rightarrow> bool" where
  "total_preorder cmp \<longleftrightarrow> (\<forall>x y. cmp x y \<le> 0 \<or> cmp y x \<le> 0) \<and>
     (\<forall>x y z. cmp x y \<le> 0 \<and> cmp y z \<le> 0 \<longrightarrow> cmp x z \<le> 0)"

definition ordered :: "('a \<Rightarrow> 'a \<Rightarrow> int) \<Rightarrow> 'a list \<Rightarrow> nat \<Rightarrow> nat \<Rightarrow> bool" where
  "ordered cmp xs a b \<longleftrightarrow> (\<forall>k l. a \<le> k \<and> k \<le> l \<and> l < b \<longrightarrow> cmp (xs ! k) (xs ! l) \<le> 0)"

lemma ordered_join:
  assumes p: "total_preorder cmp" and o: "ordered cmp xs a q" "ordered cmp xs (q + 1) b"
    and l: "\<forall>k. a \<le> k \<and> k < q \<longrightarrow> cmp (xs ! k) (xs ! q) \<le> 0"
    and r: "\<forall>k. q < k \<and> k < b \<longrightarrow> cmp (xs ! q) (xs ! k) \<le> 0"
  shows "ordered cmp xs a b"
  unfolding ordered_def
proof (intro allI impI)
  fix k m
  assume km: "a \<le> k \<and> k \<le> m \<and> m < b"
  have refl: "cmp x x \<le> 0" for x using p unfolding total_preorder_def by blast
  have tr: "cmp x y \<le> 0 \<Longrightarrow> cmp y z \<le> 0 \<Longrightarrow> cmp x z \<le> 0" for x y z
    using p unfolding total_preorder_def by blast
  consider "m < q" | "q < k" | "k = q" "m = q" | "k < q" "m = q" | "k = q" "q < m" | "k < q" "q < m"
    by linarith
  then show "cmp (xs ! k) (xs ! m) \<le> 0"
    using km o l r refl tr [of "xs ! k" "xs ! q" "xs ! m"]
    by cases (auto simp: ordered_def)
qed

lemma shuffled_all:
  assumes "shuffled a b xs ys" "\<forall>k. a \<le> k \<and> k < b \<longrightarrow> P (xs ! k)"
  shows "\<forall>k. a \<le> k \<and> k < b \<longrightarrow> P (ys ! k)"
  using assms unfolding shuffled_def by metis

lemma ordered_cong:
  "ordered cmp xs a b \<Longrightarrow> \<forall>k. a \<le> k \<and> k < b \<longrightarrow> ys ! k = xs ! k \<Longrightarrow> ordered cmp ys a b"
  unfolding ordered_def by simp

lemma qsort_quicksort_spec:
  assumes p: "total_preorder cmp" and "b \<le> length xs" "a \<le> b"
  shows "\<exists>ys. qsort_quicksort cmp xs (int a) (int b - 1) = Some ys \<and> shuffled a b xs ys \<and>
    ordered cmp ys a b"
  using assms(2,3)
proof (induction "b - a" arbitrary: xs a b rule: less_induct)
  case less
  show ?case
  proof (cases "a + 1 < b")
    case False
    have "cmp x x \<le> 0" for x using p unfolding total_preorder_def by blast
    moreover have "k = l" if "a \<le> k" "k \<le> l" "l < b" for k l using that False by linarith
    ultimately have "ordered cmp xs a b" unfolding ordered_def by metis
    then show ?thesis using False by (simp add: qsort_quicksort.simps [of cmp xs])
  next
    case True
    then obtain h where h: "b = h + 1" "a < h" by (cases b) auto
    then obtain ys q where ys: "qsort_partition cmp xs (int a) (int h) = Some (ys, int q)"
      "a \<le> q" "q < b" "shuffled a b xs ys"
      "\<forall>k. a \<le> k \<and> k < q \<longrightarrow> cmp (ys ! k) (ys ! q) \<le> 0" "\<forall>k. q < k \<and> k < b \<longrightarrow> cmp (ys ! k) (ys ! q) > 0"
      using qsort_partition_spec [of a h xs cmp] less.prems(1) unfolding h(1)
      by (auto simp: less_Suc_eq_le)
    have r: "\<forall>k. q + 1 \<le> k \<and> k < b \<longrightarrow> cmp (ys ! q) (ys ! k) \<le> 0"
      using ys(6) p unfolding total_preorder_def by (metis Suc_eq_plus1 Suc_le_lessD linorder_not_le)
    have ly: "length ys = length xs" using ys(4) shuffled_length by blast
    have dec: "q - a < b - a" "b - (q + 1) < b - a" using ys(2,3) by linarith+
    obtain zs where zs: "qsort_quicksort cmp ys (int a) (int q - 1) = Some zs" "shuffled a q ys zs"
      "ordered cmp zs a q" using less.hyps [OF dec(1), of ys] ys(2,3) ly less.prems by auto
    have lz: "length zs = length xs" using zs(2) shuffled_length ly by metis
    have zk: "zs ! k = ys ! k" if "q \<le> k" "k < b" for k
      using zs(2) that less.prems ly unfolding shuffled_def by auto
    have lq: "\<forall>k. a \<le> k \<and> k < q \<longrightarrow> cmp (zs ! k) (ys ! q) \<le> 0"
      by (rule shuffled_all [OF zs(2)]) (rule ys(5))
    obtain us where us: "qsort_quicksort cmp zs (int (q + 1)) (int b - 1) = Some us"
      "shuffled (q + 1) b zs us" "ordered cmp us (q + 1) b"
      using less.hyps [OF dec(2), of zs] ys(2,3) lz less.prems by auto
    have rq: "\<forall>k. q + 1 \<le> k \<and> k < b \<longrightarrow> cmp (ys ! q) (us ! k) \<le> 0"
      by (rule shuffled_all [OF us(2)]) (use r zk in auto)
    have uk: "us ! k = zs ! k" if "k \<le> q" for k
      using us(2) that ys(3) less.prems lz unfolding shuffled_def by auto
    have "ordered cmp us a q" using ordered_cong [OF zs(3), of us] uk by auto
    then have "ordered cmp us a b"
      using ordered_join [OF p _ us(3)] lq rq uk zk ys(3) by (simp add: Suc_le_eq)
    moreover have "shuffled a b xs us"
      using shuffled_trans [OF ys(4)] shuffled_trans [OF shuffled_mono [OF zs(2)]] shuffled_mono [OF us(2)]
        ys(2,3) less.prems ly lz by simp
    moreover have "qsort_quicksort cmp xs (int a) (int b - 1) = Some us"
      using ys(1) zs(1) us(1) h by (simp add: qsort_quicksort.simps [of cmp xs] add.commute)
    ultimately show ?thesis by blast
  qed
qed

text \<open>
  C23.  \<open>qsort\<close> sorts: for any array and any comparison function that is a total preorder it returns
  (its loops and recursion end and never leave the array) with a permutation of the array, in
  order.
\<close>

theorem qsort_sorts:
  assumes "total_preorder cmp"
  shows "\<exists>ys. qsort xs (length xs) cmp = Some ys \<and> mset ys = mset xs \<and>
    sorted_wrt (\<lambda>x y. cmp x y \<le> 0) ys"
proof -
  obtain ys where ys: "qsort xs (length xs) cmp = Some ys" "shuffled 0 (length xs) xs ys"
    "ordered cmp ys 0 (length xs)"
    using qsort_quicksort_spec [OF assms, of "length xs" xs 0] by (auto simp: qsort_def)
  have "sorted_wrt (\<lambda>x y. cmp x y \<le> 0) ys"
    using ys(3) shuffled_length [OF ys(2)] by (simp add: sorted_wrt_iff_nth_less ordered_def)
  then show ?thesis using ys(1,2) by (auto simp: shuffled_def)
qed

theorem qsort_sorts_witness:
  "total_preorder (-) \<and> (\<exists>ys. qsort [3, 1, 2 :: int] 3 (-) = Some ys \<and> mset ys = {#1, 2, 3#} \<and>
    sorted_wrt (\<lambda>x y. x - y \<le> 0) ys)"
proof -
  have "total_preorder ((-) :: int \<Rightarrow> int \<Rightarrow> int)" by (auto simp: total_preorder_def)
  then show ?thesis using qsort_sorts [of "(-)" "[3, 1, 2 :: int]"] by (simp add: add_mset_commute numeral_3_eq_3)
qed

lemma qsort_compare_order:
  assumes "- (2 ^ 30) \<le> a" "a < 2 ^ 30" "- (2 ^ 30) \<le> b" "b < 2 ^ 30"
  shows "\<exists>c. qsort_compare a b = Some c \<and> (c \<le> 0 \<longleftrightarrow> a \<le> b)"
  using assms by (auto simp: qsort_compare_def)

lemma qsort_compare_overflows: "qsort_compare (- (2 ^ 31)) 1 = None"
  by (simp add: qsort_compare_def)

end
