(* ===== verification/Spinlock.thy ===== *)
theory Spinlock
  imports Prelude
begin

text \<open>
  Spin locks, semaphores, reference counts and atomic counters of \<open>libs/klibc.c\<close> and \<open>libs/klibc.h\<close>.
  The lock is modelled with any number of CPUs whose atomic steps interleave: one step per access to
  the shared lock word, to the interrupt flag or to the preemption counter of the current task, in
  program order.  The memory model is sequentially consistent for the lock word, which its
  acquire and release accesses allow for a single lock.
\<close>

subsection \<open>The lock and the CPUs\<close>

record spinlock =
  lock :: u8
  irq_state :: bool

text \<open>
  The program points of \<open>spin_lock\<close>, \<open>spin_trylock\<close> and \<open>spin_unlock\<close>; the calls of the raw functions
  are expanded.  \<open>Outside\<close> is a CPU that does not use the lock, \<open>Critical\<close> one that holds it between a
  successful \<open>spin_lock\<close> or \<open>spin_trylock\<close> and \<open>spin_unlock\<close>.
\<close>

datatype point =
    Outside
  | Lock_Read_Irq | Lock_Cli | Lock_Preempt | Lock_Exchange | Lock_Spin | Lock_Save
  | Try_Read_Irq | Try_Cli | Try_Exchange | Try_Restore | Try_Preempt | Try_Save
  | Critical
  | Unlock_Read | Unlock_Store | Unlock_Preempt | Unlock_Restore

text \<open>
  A CPU: its interrupt flag, whether it has a current task and that task's \<open>preempt_count\<close>, and the
  local variables \<open>irq_state\<close> of the locking and of the unlocking function.  \<open>ret\<close> is the value
  the last \<open>spin_trylock\<close> returned.
\<close>

record cpu =
  pc :: point
  irq_enabled :: bool
  has_task :: bool
  preempt_count :: u64
  lock_irq :: bool
  unlock_irq :: bool
  ret :: bool

definition spin_init :: "spinlock \<Rightarrow> spinlock" where
  "spin_init sl = \<lparr>lock = 0, irq_state = False\<rparr>"

definition preempt_enable :: "cpu \<Rightarrow> cpu" where
  "preempt_enable p = (if has_task p then p\<lparr>preempt_count := preempt_count p + 1\<rparr> else p)"

definition preempt_disable :: "cpu \<Rightarrow> cpu" where
  "preempt_disable p = (if has_task p then p\<lparr>preempt_count := preempt_count p - 1\<rparr> else p)"

text \<open>One step of \<open>spin_lock\<close>, with \<open>raw_spin_lock\<close> expanded: an exchange, then shared reads.\<close>

fun spin_lock_step :: "spinlock \<Rightarrow> cpu \<Rightarrow> spinlock \<times> cpu" where
  "spin_lock_step sl p =
     (case pc p of
        Lock_Read_Irq \<Rightarrow> (sl, p\<lparr>lock_irq := irq_enabled p, pc := Lock_Cli\<rparr>)
      | Lock_Cli \<Rightarrow> (sl, p\<lparr>irq_enabled := False, pc := Lock_Preempt\<rparr>)
      | Lock_Preempt \<Rightarrow> (sl, (preempt_enable p)\<lparr>pc := Lock_Exchange\<rparr>)
      | Lock_Exchange \<Rightarrow>
          (sl\<lparr>lock := 1\<rparr>, p\<lparr>pc := (if lock sl \<noteq> 0 then Lock_Spin else Lock_Save)\<rparr>)
      | Lock_Spin \<Rightarrow> (sl, p\<lparr>pc := (if lock sl \<noteq> 0 then Lock_Spin else Lock_Exchange)\<rparr>)
      | Lock_Save \<Rightarrow> (sl\<lparr>irq_state := lock_irq p\<rparr>, p\<lparr>pc := Critical\<rparr>)
      | _ \<Rightarrow> (sl, p))"

fun spin_trylock_step :: "spinlock \<Rightarrow> cpu \<Rightarrow> spinlock \<times> cpu" where
  "spin_trylock_step sl p =
     (case pc p of
        Try_Read_Irq \<Rightarrow> (sl, p\<lparr>lock_irq := irq_enabled p, pc := Try_Cli\<rparr>)
      | Try_Cli \<Rightarrow> (sl, p\<lparr>irq_enabled := False, pc := Try_Exchange\<rparr>)
      | Try_Exchange \<Rightarrow>
          (sl\<lparr>lock := 1\<rparr>,
           p\<lparr>ret := (lock sl = 0), pc := (if lock sl = 0 then Try_Preempt else Try_Restore)\<rparr>)
      | Try_Restore \<Rightarrow>
          (sl, p\<lparr>irq_enabled := (if lock_irq p then True else irq_enabled p), pc := Outside\<rparr>)
      | Try_Preempt \<Rightarrow> (sl, (preempt_enable p)\<lparr>pc := Try_Save\<rparr>)
      | Try_Save \<Rightarrow> (sl\<lparr>irq_state := lock_irq p\<rparr>, p\<lparr>pc := Critical\<rparr>)
      | _ \<Rightarrow> (sl, p))"

fun spin_unlock_step :: "spinlock \<Rightarrow> cpu \<Rightarrow> spinlock \<times> cpu" where
  "spin_unlock_step sl p =
     (case pc p of
        Unlock_Read \<Rightarrow> (sl, p\<lparr>unlock_irq := irq_state sl, pc := Unlock_Store\<rparr>)
      | Unlock_Store \<Rightarrow> (sl\<lparr>lock := 0\<rparr>, p\<lparr>pc := Unlock_Preempt\<rparr>)
      | Unlock_Preempt \<Rightarrow> (sl, (preempt_disable p)\<lparr>pc := Unlock_Restore\<rparr>)
      | Unlock_Restore \<Rightarrow>
          (sl, p\<lparr>irq_enabled := (if unlock_irq p then True else irq_enabled p), pc := Outside\<rparr>)
      | _ \<Rightarrow> (sl, p))"

definition in_lock :: "point \<Rightarrow> bool" where
  "in_lock x \<longleftrightarrow> x \<in> {Lock_Read_Irq, Lock_Cli, Lock_Preempt, Lock_Exchange, Lock_Spin, Lock_Save}"

definition in_trylock :: "point \<Rightarrow> bool" where
  "in_trylock x \<longleftrightarrow> x \<in> {Try_Read_Irq, Try_Cli, Try_Exchange, Try_Restore, Try_Preempt, Try_Save}"

definition in_unlock :: "point \<Rightarrow> bool" where
  "in_unlock x \<longleftrightarrow> x \<in> {Unlock_Read, Unlock_Store, Unlock_Preempt, Unlock_Restore}"

subsection \<open>The system\<close>

text \<open>
  The lock and the CPUs that share it.  \<open>entry_count\<close> and \<open>entry_irq\<close> record, for the statements
  only, the \<open>preempt_count\<close> and the interrupt flag a CPU had when it called the locking function.  A CPU outside the lock may change
  its interrupt flag, task and counter in any way; one that holds the lock keeps them.
\<close>

record system =
  sl :: spinlock
  cpus :: "nat \<Rightarrow> cpu"
  entry_count :: "nat \<Rightarrow> u64"
  entry_irq :: "nat \<Rightarrow> bool"

definition goto :: "system \<Rightarrow> nat \<Rightarrow> point \<Rightarrow> system" where
  "goto s c x = s\<lparr>cpus := (cpus s)(c := (cpus s c)\<lparr>pc := x\<rparr>)\<rparr>"

definition enter :: "system \<Rightarrow> nat \<Rightarrow> point \<Rightarrow> system" where
  "enter s c x = (goto s c x)\<lparr>entry_count := (entry_count s)(c := preempt_count (cpus s c)),
                               entry_irq := (entry_irq s)(c := irq_enabled (cpus s c))\<rparr>"

definition advance :: "system \<Rightarrow> nat \<Rightarrow> spinlock \<times> cpu \<Rightarrow> system" where
  "advance s c r = s\<lparr>sl := fst r, cpus := (cpus s)(c := snd r)\<rparr>"

inductive step :: "system \<Rightarrow> system \<Rightarrow> bool" where
  call_lock: "pc (cpus s c) = Outside \<Longrightarrow> step s (enter s c Lock_Read_Irq)"
| call_trylock: "pc (cpus s c) = Outside \<Longrightarrow> step s (enter s c Try_Read_Irq)"
| call_unlock: "pc (cpus s c) = Critical \<Longrightarrow> step s (goto s c Unlock_Read)"
| lock_step: "in_lock (pc (cpus s c)) \<Longrightarrow> step s (advance s c (spin_lock_step (sl s) (cpus s c)))"
| trylock_step: "in_trylock (pc (cpus s c)) \<Longrightarrow> step s (advance s c (spin_trylock_step (sl s) (cpus s c)))"
| unlock_step: "in_unlock (pc (cpus s c)) \<Longrightarrow> step s (advance s c (spin_unlock_step (sl s) (cpus s c)))"
| elsewhere: "pc (cpus s c) = Outside \<Longrightarrow> pc p = Outside \<Longrightarrow> step s (s\<lparr>cpus := (cpus s)(c := p)\<rparr>)"

definition initial :: "system \<Rightarrow> bool" where
  "initial s \<longleftrightarrow> sl s = spin_init (sl s) \<and> (\<forall>c. pc (cpus s c) = Outside)"

definition reachable :: "system \<Rightarrow> bool" where
  "reachable s \<longleftrightarrow> (\<exists>s0. initial s0 \<and> step\<^sup>*\<^sup>* s0 s)"

subsection \<open>Semaphores, reference counts and atomic counters\<close>

text \<open>
  The fields of \<open>sem_t\<close> and \<open>kref_t\<close> under their lock; each section between \<open>spin_lock\<close> and
  \<open>spin_unlock\<close> is one step.
\<close>

record sem =
  cnt :: u32
  invalid :: bool

text \<open>
  \<open>sem_wait\<close> sees one state of the semaphore under the lock and, if it has to wait on, one value of the
  clock per iteration; both are given by \<open>obs\<close>, and the result is \<open>None\<close> while the loop goes on.
\<close>

fun sem_wait_loop :: "u64 \<Rightarrow> u64 \<Rightarrow> (sem \<times> u64) list \<Rightarrow> (bool \<times> sem) option" where
  "sem_wait_loop timer_start timeout_ns [] = None"
| "sem_wait_loop timer_start timeout_ns ((s, now) # obs) =
     (if cnt s > 0 then Some (True, s\<lparr>cnt := cnt s - 1\<rparr>)
      else if 0 <s timeout_ns \<and> timer_start + timeout_ns < now then Some (False, s)
      else sem_wait_loop timer_start timeout_ns obs)"

definition sem_wait :: "u64 \<Rightarrow> u32 \<Rightarrow> (sem \<times> u64) list \<Rightarrow> (bool \<times> sem) option" where
  "sem_wait timer_start timeout obs =
     (let timeout_ns = (if timeout = - 1 then - 1 else ucast timeout * 1000000)
      in sem_wait_loop timer_start timeout_ns obs)"

definition sem_post :: "sem \<Rightarrow> sem" where
  "sem_post s = s\<lparr>cnt := cnt s + 1\<rparr>"

text \<open>An \<open>int\<close> that leaves its range is undefined behaviour.\<close>

definition int32 :: "int \<Rightarrow> int option" where
  "int32 i = (if - (2 ^ 31) \<le> i \<and> i < 2 ^ 31 then Some i else None)"

record kref =
  ref_count :: int

definition kref_ref :: "kref \<Rightarrow> kref option" where
  "kref_ref r = map_option (\<lambda>n. r\<lparr>ref_count := n\<rparr>) (int32 (ref_count r + 1))"

definition kref_unref :: "kref \<Rightarrow> kref option" where
  "kref_unref r = map_option (\<lambda>n. r\<lparr>ref_count := n\<rparr>) (int32 (ref_count r - 1))"

definition kref_get :: "kref \<Rightarrow> int" where
  "kref_get r = ref_count r"

definition kref_set :: "kref \<Rightarrow> int \<Rightarrow> kref" where
  "kref_set r v = r\<lparr>ref_count := v\<rparr>"

text \<open>The atomic counters; the compiler's atomic operations wrap around.\<close>

type_synonym atomic_t = u32

definition atomic_set :: "atomic_t \<Rightarrow> u32 \<Rightarrow> atomic_t" where "atomic_set v i = i"

definition atomic_read :: "atomic_t \<Rightarrow> int" where "atomic_read v = sint v"

definition atomic_inc :: "atomic_t \<Rightarrow> atomic_t" where "atomic_inc v = v + 1"

definition atomic_dec_and_test :: "atomic_t \<Rightarrow> bool \<times> atomic_t" where
  "atomic_dec_and_test v = (v - 1 = 0, v - 1)"

definition atomic_add :: "u32 \<Rightarrow> atomic_t \<Rightarrow> atomic_t" where "atomic_add i v = v + i"

definition atomic_sub :: "u32 \<Rightarrow> atomic_t \<Rightarrow> atomic_t" where "atomic_sub i v = v - i"

subsection \<open>The invariant\<close>

text \<open>The program points at which a CPU owns the lock word.\<close>

definition holds :: "cpu \<Rightarrow> bool" where
  "holds p \<longleftrightarrow> pc p \<in> {Lock_Save, Try_Preempt, Try_Save, Critical, Unlock_Read, Unlock_Store}"

text \<open>What each program point guarantees of the CPU's own state.\<close>

definition cpu_ok :: "spinlock \<Rightarrow> u64 \<Rightarrow> bool \<Rightarrow> cpu \<Rightarrow> bool" where
  "cpu_ok l e i p \<longleftrightarrow>
     (pc p \<notin> {Outside, Lock_Read_Irq, Lock_Cli, Try_Read_Irq, Try_Cli} \<longrightarrow> \<not> irq_enabled p) \<and>
     (pc p \<in> {Lock_Read_Irq, Try_Read_Irq} \<longrightarrow> irq_enabled p = i) \<and>
     (pc p \<notin> {Outside, Lock_Read_Irq, Try_Read_Irq} \<longrightarrow> lock_irq p = i) \<and>
     (pc p \<in> {Critical, Unlock_Read} \<longrightarrow> irq_state l = lock_irq p) \<and>
     (pc p \<in> {Unlock_Store, Unlock_Preempt, Unlock_Restore} \<longrightarrow> unlock_irq p = lock_irq p) \<and>
     (pc p \<noteq> Outside \<longrightarrow> preempt_count p = e +
        (if has_task p \<and> pc p \<in> {Lock_Exchange, Lock_Spin, Lock_Save, Try_Save, Critical,
                                  Unlock_Read, Unlock_Store, Unlock_Preempt} then 1 else 0))"

definition lock_inv :: "system \<Rightarrow> bool" where
  "lock_inv s \<longleftrightarrow> (lock (sl s) = 0 \<longrightarrow> (\<forall>c. \<not> holds (cpus s c))) \<and>
     (lock (sl s) \<noteq> 0 \<longrightarrow> (\<exists>c. \<forall>d. holds (cpus s d) \<longleftrightarrow> d = c)) \<and>
     (\<forall>c. cpu_ok (sl s) (entry_count s c) (entry_irq s c) (cpus s c))"

text \<open>A step of one CPU as the others see it: nothing, an acquisition or a release.\<close>

definition local_step :: "spinlock \<Rightarrow> cpu \<Rightarrow> spinlock \<times> cpu \<Rightarrow> bool" where
  "local_step l p r \<longleftrightarrow>
     (holds (snd r) = holds p \<and> (lock (fst r) = 0 \<longleftrightarrow> lock l = 0) \<and>
        (irq_state (fst r) = irq_state l \<or> holds p)) \<or>
     (\<not> holds p \<and> holds (snd r) \<and> lock l = 0 \<and> lock (fst r) \<noteq> 0 \<and> irq_state (fst r) = irq_state l) \<or>
     (holds p \<and> \<not> holds (snd r) \<and> lock (fst r) = 0 \<and> irq_state (fst r) = irq_state l)"

lemma cpu_ok_other: "irq_state l' = irq_state l \<or> \<not> holds p \<Longrightarrow> cpu_ok l e i p \<Longrightarrow> cpu_ok l' e i p"
  unfolding cpu_ok_def holds_def by (cases "pc p"; simp)

lemma inv_advance:
  assumes i: "lock_inv s" and l: "local_step (sl s) (cpus s c) r" and ok: "cpu_ok (fst r) (entry_count s c) (entry_irq s c) (snd r)"
  shows "lock_inv (advance s c r)"
proof -
  have own: "holds (cpus s c) \<Longrightarrow> d \<noteq> c \<Longrightarrow> \<not> holds (cpus s d)" for d
    using i unfolding lock_inv_def by metis
  have "cpu_ok (fst r) (entry_count s d) (entry_irq s d) (cpus s d)" if "d \<noteq> c" for d
    using l own [OF _ that] cpu_ok_other [of "fst r" "sl s" "cpus s d"] i
    unfolding local_step_def lock_inv_def by metis
  then have all: "cpu_ok (fst r) (entry_count s d) (entry_irq s d) (((cpus s)(c := snd r)) d)" for d using ok by simp
  have free: "\<not> holds (((cpus s)(c := snd r)) d)" if "lock (fst r) = 0" for d
    using l i own [of d] that unfolding local_step_def lock_inv_def by (cases "d = c") auto
  have held: "\<exists>e. \<forall>d. holds (((cpus s)(c := snd r)) d) \<longleftrightarrow> d = e" if n: "lock (fst r) \<noteq> 0"
  proof (cases "lock (sl s) = 0")
    case True
    then show ?thesis using l i n unfolding local_step_def lock_inv_def by (intro exI [of _ c]) auto
  next
    case False
    then have same: "holds (snd r) = holds (cpus s c)" using l n by (auto simp: local_step_def)
    obtain e where "\<forall>d. holds (cpus s d) \<longleftrightarrow> d = e" using i False by (auto simp: lock_inv_def)
    then show ?thesis using same by (intro exI [of _ e]) auto
  qed
  show ?thesis unfolding lock_inv_def advance_def using all free held by simp
qed

lemma inv_update:
  assumes "lock_inv s" "holds p = holds (cpus s c)" "cpu_ok (sl s) e i p"
  shows "lock_inv (s\<lparr>cpus := (cpus s)(c := p), entry_count := (entry_count s)(c := e),
    entry_irq := (entry_irq s)(c := i)\<rparr>)"
  using assms unfolding lock_inv_def by (auto simp: fun_upd_def)

lemmas cpu_defs = local_step_def cpu_ok_def holds_def preempt_enable_def preempt_disable_def

lemma lock_step_ok:
  assumes "in_lock (pc p)" "cpu_ok l e i p"
  shows "local_step l p (spin_lock_step l p)" "cpu_ok (fst (spin_lock_step l p)) e i (snd (spin_lock_step l p))"
  using assms by (cases "pc p"; simp add: in_lock_def cpu_defs)+

lemma trylock_step_ok:
  assumes "in_trylock (pc p)" "cpu_ok l e i p"
  shows "local_step l p (spin_trylock_step l p)"
    "cpu_ok (fst (spin_trylock_step l p)) e i (snd (spin_trylock_step l p))"
  using assms by (cases "pc p"; simp add: in_trylock_def cpu_defs)+

lemma unlock_step_ok:
  assumes "in_unlock (pc p)" "cpu_ok l e i p"
  shows "local_step l p (spin_unlock_step l p)"
    "cpu_ok (fst (spin_unlock_step l p)) e i (snd (spin_unlock_step l p))"
  using assms by (cases "pc p"; simp add: in_unlock_def cpu_defs)+

lemma inv_ok: "lock_inv s \<Longrightarrow> cpu_ok (sl s) (entry_count s c) (entry_irq s c) (cpus s c)"
  by (simp add: lock_inv_def)

lemma step_inv: "step s s' \<Longrightarrow> lock_inv s \<Longrightarrow> lock_inv s'"
proof (induction rule: step.induct)
  case (call_lock s c)
  then show ?case
    using inv_update [of s "(cpus s c)\<lparr>pc := Lock_Read_Irq\<rparr>" c "preempt_count (cpus s c)" "irq_enabled (cpus s c)"]
    by (simp add: enter_def goto_def holds_def cpu_ok_def)
next
  case (call_trylock s c)
  then show ?case
    using inv_update [of s "(cpus s c)\<lparr>pc := Try_Read_Irq\<rparr>" c "preempt_count (cpus s c)" "irq_enabled (cpus s c)"]
    by (simp add: enter_def goto_def holds_def cpu_ok_def)
next
  case (call_unlock s c)
  then show ?case
    using inv_update [of s "(cpus s c)\<lparr>pc := Unlock_Read\<rparr>" c "entry_count s c" "entry_irq s c"] inv_ok [of s c]
    by (simp add: goto_def holds_def cpu_ok_def)
next
  case (elsewhere s c p)
  then show ?case
    using inv_update [of s p c "entry_count s c" "entry_irq s c"] by (simp add: holds_def cpu_ok_def)
qed (blast intro: inv_advance lock_step_ok trylock_step_ok unlock_step_ok inv_ok)+

lemma steps_inv: "step\<^sup>*\<^sup>* s t \<Longrightarrow> lock_inv s \<Longrightarrow> lock_inv t"
  by (induction rule: rtranclp_induct) (auto intro: step_inv)

lemma initial_inv: "initial s \<Longrightarrow> lock_inv s"
  by (simp add: initial_def lock_inv_def holds_def cpu_ok_def spin_init_def)

lemma reachable_inv: "reachable s \<Longrightarrow> lock_inv s"
  unfolding reachable_def using steps_inv initial_inv by blast

subsection \<open>Every waiting CPU can get the lock\<close>

lemma advance_steps:
  "in_lock (pc (cpus s c)) \<Longrightarrow> step\<^sup>*\<^sup>* (advance s c (spin_lock_step (sl s) (cpus s c))) t \<Longrightarrow> step\<^sup>*\<^sup>* s t"
  "in_trylock (pc (cpus s c)) \<Longrightarrow> step\<^sup>*\<^sup>* (advance s c (spin_trylock_step (sl s) (cpus s c))) t \<Longrightarrow> step\<^sup>*\<^sup>* s t"
  "in_unlock (pc (cpus s c)) \<Longrightarrow> step\<^sup>*\<^sup>* (advance s c (spin_unlock_step (sl s) (cpus s c))) t \<Longrightarrow> step\<^sup>*\<^sup>* s t"
  "pc (cpus s c) = Critical \<Longrightarrow> step\<^sup>*\<^sup>* (goto s c Unlock_Read) t \<Longrightarrow> step\<^sup>*\<^sup>* s t"
  by (blast intro: step.intros converse_rtranclp_into_rtranclp)+

text \<open>A number of steps after which a holder has released, or a caller of \<open>spin_lock\<close> competes.\<close>

fun rank :: "point \<Rightarrow> nat" where
  "rank Try_Preempt = 5" | "rank Try_Save = 4" | "rank Lock_Save = 4" | "rank Critical = 3"
| "rank Unlock_Read = 2" | "rank Unlock_Store = 1"
| "rank Lock_Read_Irq = 3" | "rank Lock_Cli = 2" | "rank Lock_Preempt = 1" | "rank _ = 0"

text \<open>\<open>t\<close> is reached from \<open>s\<close> by steps of CPU \<open>c\<close> only.\<close>

definition others_kept :: "system \<Rightarrow> nat \<Rightarrow> system \<Rightarrow> bool" where
  "others_kept s c t \<longleftrightarrow> step\<^sup>*\<^sup>* s t \<and> (\<forall>d. d \<noteq> c \<longrightarrow> cpus t d = cpus s d)"

lemma holder_step:
  assumes "holds (cpus s c)"
  shows "\<exists>t. others_kept s c t \<and>
    (lock (sl t) = 0 \<or> holds (cpus t c) \<and> rank (pc (cpus t c)) < rank (pc (cpus s c)))"
proof -
  let ?l = "advance s c (spin_lock_step (sl s) (cpus s c))"
  let ?t = "advance s c (spin_trylock_step (sl s) (cpus s c))"
  let ?u = "advance s c (spin_unlock_step (sl s) (cpus s c))"
  have "others_kept s c (if pc (cpus s c) = Lock_Save then ?l
      else if pc (cpus s c) \<in> {Try_Preempt, Try_Save} then ?t
      else if pc (cpus s c) = Critical then goto s c Unlock_Read else ?u)" (is "others_kept s c ?n")
    using assms advance_steps(1) [of s c ?l] advance_steps(2) [of s c ?t]
      advance_steps(3) [of s c ?u] advance_steps(4) [of s c "goto s c Unlock_Read"]
    by (auto simp: others_kept_def holds_def in_lock_def in_trylock_def in_unlock_def advance_def goto_def)
  moreover have "lock (sl ?n) = 0 \<or> holds (cpus ?n c) \<and> rank (pc (cpus ?n c)) < rank (pc (cpus s c))"
    using assms by (cases "pc (cpus s c)") (simp_all add: holds_def advance_def goto_def)
  ultimately show ?thesis by blast
qed

lemma others_kept_trans: "others_kept s c t \<Longrightarrow> others_kept t c u \<Longrightarrow> others_kept s c u"
  by (auto simp: others_kept_def intro: rtranclp_trans)

lemma holder_releases: "holds (cpus s c) \<Longrightarrow> \<exists>t. others_kept s c t \<and> lock (sl t) = 0"
proof (induction "rank (pc (cpus s c))" arbitrary: s rule: less_induct)
  case less
  obtain t where t: "others_kept s c t"
    "lock (sl t) = 0 \<or> holds (cpus t c) \<and> rank (pc (cpus t c)) < rank (pc (cpus s c))"
    using holder_step [OF less.prems] by blast
  then show ?case using less.hyps [of t] others_kept_trans [OF t(1)] by blast
qed

lemma caller_competes:
  assumes "in_lock (pc (cpus s c))"
  shows "\<exists>t. step\<^sup>*\<^sup>* s t \<and> pc (cpus t c) \<in> {Lock_Exchange, Lock_Spin, Lock_Save}"
  using assms
proof (induction "rank (pc (cpus s c))" arbitrary: s rule: less_induct)
  case less
  let ?n = "advance s c (spin_lock_step (sl s) (cpus s c))"
  show ?case
  proof (cases "pc (cpus s c) \<in> {Lock_Exchange, Lock_Spin, Lock_Save}")
    case False
    then have "rank (pc (cpus ?n c)) < rank (pc (cpus s c)) \<and> in_lock (pc (cpus ?n c))"
      using less.prems by (cases "pc (cpus s c)") (simp_all add: in_lock_def advance_def)
    then show ?thesis using less.hyps [of ?n] advance_steps(1) [OF less.prems] by blast
  qed blast
qed

lemma free_lock_taken:
  assumes "lock (sl s) = 0" "pc (cpus s c) \<in> {Lock_Exchange, Lock_Spin}"
  shows "\<exists>t. step\<^sup>*\<^sup>* s t \<and> pc (cpus t c) = Critical"
proof -
  let ?f = "\<lambda>s. advance s c (spin_lock_step (sl s) (cpus s c))"
  have save: "step\<^sup>*\<^sup>* s (?f s) \<and> pc (cpus (?f s) c) = Critical" if "pc (cpus s c) = Lock_Save" for s
    using that advance_steps(1) [of s c "?f s"] by (simp add: in_lock_def advance_def)
  have exch: "\<exists>t. step\<^sup>*\<^sup>* s t \<and> pc (cpus t c) = Critical"
    if "pc (cpus s c) = Lock_Exchange" "lock (sl s) = 0" for s
    using that save [of "?f s"] advance_steps(1) [of s c "?f (?f s)"]
    by (auto simp: in_lock_def advance_def)
  show ?thesis
  proof (cases "pc (cpus s c) = Lock_Spin")
    case True
    then have "in_lock (pc (cpus s c))" by (simp add: in_lock_def)
    moreover have "pc (cpus (?f s) c) = Lock_Exchange" "lock (sl (?f s)) = 0"
      using True assms by (simp_all add: advance_def)
    ultimately show ?thesis using exch [of "?f s"] advance_steps(1) by blast
  qed (use assms exch in blast)
qed

lemma waiting_can_acquire:
  assumes "lock_inv s" "in_lock (pc (cpus s c))"
  shows "\<exists>t. step\<^sup>*\<^sup>* s t \<and> pc (cpus t c) = Critical"
proof -
  obtain t where t: "step\<^sup>*\<^sup>* s t" "pc (cpus t c) \<in> {Lock_Exchange, Lock_Spin, Lock_Save}"
    using caller_competes [OF assms(2)] by blast
  have it: "lock_inv t" using steps_inv [OF t(1) assms(1)] .
  have "\<exists>u. step\<^sup>*\<^sup>* t u \<and> pc (cpus u c) = Critical"
  proof (cases "pc (cpus t c) = Lock_Save")
    case True
    then show ?thesis
      using advance_steps(1) [of t c "advance t c (spin_lock_step (sl t) (cpus t c))"]
      by (intro exI [of _ "advance t c (spin_lock_step (sl t) (cpus t c))"])
        (simp add: in_lock_def advance_def)
  next
    case False
    then have w: "pc (cpus t c) \<in> {Lock_Exchange, Lock_Spin}" using t(2) by simp
    show ?thesis
    proof (cases "lock (sl t) = 0")
      case True
      then show ?thesis using free_lock_taken w by blast
    next
      case False
      then obtain d where d: "holds (cpus t d)" using it unfolding lock_inv_def by blast
      then have "d \<noteq> c" using w by (auto simp: holds_def)
      then obtain u where u: "step\<^sup>*\<^sup>* t u" "cpus u c = cpus t c" "lock (sl u) = 0"
        using holder_releases [OF d] unfolding others_kept_def by metis
      then show ?thesis using free_lock_taken [of u c] w by (auto intro: rtranclp_trans)
    qed
  qed
  then show ?thesis using t(1) by (auto intro: rtranclp_trans)
qed

subsection \<open>Semaphores\<close>

lemma sem_wait_takes:
  assumes "sem_wait t0 timeout obs = Some (True, s')"
  shows "\<exists>s now. (s, now) \<in> set obs \<and> 0 < unat (cnt s) \<and> unat (cnt s') = unat (cnt s) - 1"
proof -
  have "\<exists>s now. (s, now) \<in> set obs \<and> 0 < unat (cnt s) \<and> unat (cnt s') = unat (cnt s) - 1"
    if "sem_wait_loop t0 ns obs = Some (True, s')" for ns
    using that
  proof (induction t0 ns obs rule: sem_wait_loop.induct)
    case (2 t0 ns s now obs)
    then show ?case
      by (cases "cnt s > 0") (auto simp: unat_minus_one word_gt_0 unat_gt_0 split: if_splits)
  qed simp
  then show ?thesis using assms by (simp add: sem_wait_def Let_def)
qed

lemma sem_wait_forever:
  assumes "timeout = 0 \<or> timeout = - 1" "\<forall>(s, now) \<in> set obs. cnt s = 0"
  shows "sem_wait t0 timeout obs = None"
proof -
  have "sem_wait_loop t0 ns obs = None" if "\<not> 0 <s ns" for ns
    using that assms(2) by (induction t0 ns obs rule: sem_wait_loop.induct) auto
  then show ?thesis using assms(1) by (auto simp: sem_wait_def)
qed

subsection \<open>The properties\<close>

text \<open>
  C24.  Mutual exclusion of the spin lock: in every reachable state of any number of CPUs that call
  \<open>spin_lock\<close>, \<open>spin_trylock\<close> and \<open>spin_unlock\<close>, at most one is in its critical section; it runs
  there with interrupts disabled, with one more preemption count than it came with if it has a
  task, and the lock word is not 0.
\<close>

theorem spin_lock_mutual_exclusion:
  assumes "reachable s" "pc (cpus s c) = Critical"
  shows "(\<forall>d. pc (cpus s d) = Critical \<longrightarrow> d = c) \<and> lock (sl s) \<noteq> 0 \<and> \<not> irq_enabled (cpus s c) \<and>
    preempt_count (cpus s c) = entry_count s c + (if has_task (cpus s c) then 1 else 0)"
proof -
  have i: "lock_inv s" using assms(1) by (rule reachable_inv)
  have "holds (cpus s d)" if "pc (cpus s d) = Critical" for d using that by (simp add: holds_def)
  moreover have "\<not> irq_enabled (cpus s c)"
    "preempt_count (cpus s c) = entry_count s c + (if has_task (cpus s c) then 1 else 0)"
    using inv_ok [OF i, of c] assms(2) by (simp_all add: cpu_ok_def)
  ultimately show ?thesis using i assms(2) unfolding lock_inv_def by metis
qed

definition idle_cpu :: cpu where
  "idle_cpu = \<lparr>pc = Outside, irq_enabled = True, has_task = True, preempt_count = 0,
               lock_irq = False, unlock_irq = False, ret = False\<rparr>"

definition idle_system :: system where
  "idle_system = \<lparr>sl = \<lparr>lock = 0, irq_state = False\<rparr>, cpus = (\<lambda>_. idle_cpu), entry_count = (\<lambda>_. 0),
                   entry_irq = (\<lambda>_. True)\<rparr>"

lemma idle_reachable: "step\<^sup>*\<^sup>* idle_system s \<Longrightarrow> reachable s"
  unfolding reachable_def
  by (intro exI [of _ idle_system]) (simp add: initial_def idle_system_def idle_cpu_def spin_init_def)

lemma critical_reachable: "\<exists>s. step\<^sup>*\<^sup>* idle_system s \<and> pc (cpus s 0) = Critical"
proof -
  have "in_lock (pc (cpus (enter idle_system 0 Lock_Read_Irq) 0))"
    by (simp add: enter_def goto_def in_lock_def)
  moreover have "step idle_system (enter idle_system 0 Lock_Read_Irq)"
    by (rule call_lock) (simp add: idle_system_def idle_cpu_def)
  ultimately show ?thesis
    using waiting_can_acquire reachable_inv idle_reachable
    by (meson converse_rtranclp_into_rtranclp r_into_rtranclp)
qed

theorem spin_lock_mutual_exclusion_witness:
  "\<exists>s. reachable s \<and> pc (cpus s 0) = Critical \<and> (\<forall>d. pc (cpus s d) = Critical \<longrightarrow> d = 0)"
proof -
  obtain s where "step\<^sup>*\<^sup>* idle_system s" "pc (cpus s 0) = Critical" using critical_reachable by blast
  then show ?thesis using spin_lock_mutual_exclusion [of s 0] idle_reachable by blast
qed

text \<open>
  C25.  A CPU gets back what it had: when \<open>spin_unlock\<close> returns, the interrupt flag and the
  preemption count of the task are what they were when the CPU called \<open>spin_lock\<close> or \<open>spin_trylock\<close>, whatever the other CPUs do with the lock in between.
\<close>

theorem spin_unlock_restores:
  assumes "reachable s" "pc (cpus s c) = Unlock_Restore"
  shows "\<exists>s'. step s s' \<and> pc (cpus s' c) = Outside \<and> irq_enabled (cpus s' c) = entry_irq s c \<and>
    preempt_count (cpus s' c) = entry_count s c"
proof -
  have "cpu_ok (sl s) (entry_count s c) (entry_irq s c) (cpus s c)" using reachable_inv [OF assms(1)] by (rule inv_ok)
  moreover have "step s (advance s c (spin_unlock_step (sl s) (cpus s c)))"
    by (rule unlock_step) (simp add: assms(2) in_unlock_def)
  ultimately show ?thesis
    using assms(2) by (intro exI [of _ "advance s c (spin_unlock_step (sl s) (cpus s c))"])
      (simp add: advance_def cpu_ok_def)
qed

lemma critical_to_restore:
  assumes "pc (cpus s c) = Critical"
  shows "\<exists>t. step\<^sup>*\<^sup>* s t \<and> pc (cpus t c) = Unlock_Restore"
proof -
  let ?f = "\<lambda>s. advance s c (spin_unlock_step (sl s) (cpus s c))"
  let ?s1 = "goto s c Unlock_Read"
  have p: "pc (cpus ?s1 c) = Unlock_Read" "pc (cpus (?f ?s1) c) = Unlock_Store"
    "pc (cpus (?f (?f ?s1)) c) = Unlock_Preempt" "pc (cpus (?f (?f (?f ?s1))) c) = Unlock_Restore"
    by (simp_all add: goto_def advance_def)
  have f: "step t (?f t)" if "in_unlock (pc (cpus t c))" for t using that by (rule unlock_step)
  have "step s ?s1" "step ?s1 (?f ?s1)" "step (?f ?s1) (?f (?f ?s1))" "step (?f (?f ?s1)) (?f (?f (?f ?s1)))"
    by (rule call_unlock [OF assms]) (rule f; simp only: p in_unlock_def; simp)+
  then show ?thesis using p(4) by (meson rtranclp.rtrancl_into_rtrancl rtranclp.rtrancl_refl)
qed

theorem spin_unlock_restores_witness:
  "\<exists>s s'. reachable s \<and> step s s' \<and> pc (cpus s' 0) = Outside \<and> irq_enabled (cpus s' 0) = entry_irq s 0"
proof -
  obtain s where "step\<^sup>*\<^sup>* idle_system s" "pc (cpus s 0) = Critical" using critical_reachable by blast
  then obtain t where "reachable t" "pc (cpus t 0) = Unlock_Restore"
    using critical_to_restore [of s 0] idle_reachable by (meson rtranclp_trans)
  then show ?thesis using spin_unlock_restores [of t 0] by blast
qed

text \<open>
  C26.  No caller of \<open>spin_lock\<close> is locked out for good: from every reachable state in which a CPU is
  inside \<open>spin_lock\<close> there is a continuation in which it enters its critical section.
\<close>

theorem spin_lock_can_acquire:
  assumes "reachable s" "in_lock (pc (cpus s c))"
  shows "\<exists>t. step\<^sup>*\<^sup>* s t \<and> pc (cpus t c) = Critical"
  using waiting_can_acquire [OF reachable_inv [OF assms(1)] assms(2)] .

theorem spin_lock_can_acquire_witness:
  "\<exists>t. step\<^sup>*\<^sup>* (enter idle_system 3 Lock_Read_Irq) t \<and> pc (cpus t 3) = Critical"
proof -
  have "step idle_system (enter idle_system 3 Lock_Read_Irq)"
    by (rule call_lock) (simp add: idle_system_def idle_cpu_def)
  then have "reachable (enter idle_system 3 Lock_Read_Irq)" using idle_reachable by blast
  moreover have "in_lock (pc (cpus (enter idle_system 3 Lock_Read_Irq) 3))"
    by (simp add: enter_def goto_def in_lock_def)
  ultimately show ?thesis by (rule spin_lock_can_acquire)
qed

end
