(* ===== verification/Rbtree.thy ===== *)
theory Rbtree
  imports Prelude
begin

text \<open>
  The intrusive red-black trees of \<open>libs/rbtree.c\<close> and \<open>libs/rbtree.h\<close>.  The nodes live in a heap, the
  parent pointer and the colour share one word as in the code, and \<open>NULL\<close> is 0.  A dereference of
  \<open>NULL\<close> or of an address that holds no node is \<open>None\<close>, and so is a loop that does not end.  The
  callback of the augmented trees is an argument, a function of the nodes and of the memory the
  trees are embedded in (\<open>aux\<close>); \<open>None\<close> is the null callback.
\<close>

subsection \<open>Nodes and their fields\<close>

record rb_node =
  rb_parent_color :: u64
  rb_right :: ptr
  rb_left :: ptr

type_synonym rb_heap = "ptr \<Rightarrow> rb_node option"

record 'x rb_state =
  nodes :: rb_heap
  root :: ptr
  aux :: 'x

type_synonym 'x rb_augment = "(rb_heap \<Rightarrow> ptr \<Rightarrow> 'x \<Rightarrow> 'x) option"

definition KRB_RED :: u64 where "KRB_RED = 0"

definition KRB_BLACK :: u64 where "KRB_BLACK = 1"

definition node_at :: "'x rb_state \<Rightarrow> ptr \<Rightarrow> rb_node option" where
  "node_at s p = (if p = 0 then None else nodes s p)"

definition rb_parent :: "'x rb_state \<Rightarrow> ptr \<Rightarrow> ptr option" where
  "rb_parent s r = map_option (\<lambda>n. rb_parent_color n AND NOT 3) (node_at s r)"

definition rb_color :: "'x rb_state \<Rightarrow> ptr \<Rightarrow> u64 option" where
  "rb_color s r = map_option (\<lambda>n. rb_parent_color n AND 1) (node_at s r)"

definition rb_is_red :: "'x rb_state \<Rightarrow> ptr \<Rightarrow> bool option" where
  "rb_is_red s r = map_option (\<lambda>c. c = 0) (rb_color s r)"

definition rb_is_black :: "'x rb_state \<Rightarrow> ptr \<Rightarrow> bool option" where
  "rb_is_black s r = map_option (\<lambda>c. c \<noteq> 0) (rb_color s r)"

definition get_left :: "'x rb_state \<Rightarrow> ptr \<Rightarrow> ptr option" where
  "get_left s p = map_option rb_left (node_at s p)"

definition get_right :: "'x rb_state \<Rightarrow> ptr \<Rightarrow> ptr option" where
  "get_right s p = map_option rb_right (node_at s p)"

definition upd_node :: "ptr \<Rightarrow> (rb_node \<Rightarrow> rb_node) \<Rightarrow> 'x rb_state \<Rightarrow> 'x rb_state option" where
  "upd_node p f s =
     (case node_at s p of None \<Rightarrow> None | Some n \<Rightarrow> Some (s\<lparr>nodes := (nodes s)(p \<mapsto> f n)\<rparr>))"

definition rb_set_red :: "ptr \<Rightarrow> 'x rb_state \<Rightarrow> 'x rb_state option" where
  "rb_set_red r = upd_node r (\<lambda>n. n\<lparr>rb_parent_color := rb_parent_color n AND NOT 1\<rparr>)"

definition rb_set_black :: "ptr \<Rightarrow> 'x rb_state \<Rightarrow> 'x rb_state option" where
  "rb_set_black r = upd_node r (\<lambda>n. n\<lparr>rb_parent_color := rb_parent_color n OR 1\<rparr>)"

definition rb_set_parent :: "ptr \<Rightarrow> ptr \<Rightarrow> 'x rb_state \<Rightarrow> 'x rb_state option" where
  "rb_set_parent rb p =
     upd_node rb (\<lambda>n. n\<lparr>rb_parent_color := (rb_parent_color n AND 3) OR p\<rparr>)"

definition rb_set_color :: "ptr \<Rightarrow> u64 \<Rightarrow> 'x rb_state \<Rightarrow> 'x rb_state option" where
  "rb_set_color rb color =
     upd_node rb (\<lambda>n. n\<lparr>rb_parent_color := (rb_parent_color n AND NOT 1) OR color\<rparr>)"

definition set_left :: "ptr \<Rightarrow> ptr \<Rightarrow> 'x rb_state \<Rightarrow> 'x rb_state option" where
  "set_left p v = upd_node p (\<lambda>n. n\<lparr>rb_left := v\<rparr>)"

definition set_right :: "ptr \<Rightarrow> ptr \<Rightarrow> 'x rb_state \<Rightarrow> 'x rb_state option" where
  "set_right p v = upd_node p (\<lambda>n. n\<lparr>rb_right := v\<rparr>)"

definition call_augment :: "'x rb_augment \<Rightarrow> ptr \<Rightarrow> 'x rb_state \<Rightarrow> 'x rb_state" where
  "call_augment augment p s =
     (case augment of None \<Rightarrow> s | Some f \<Rightarrow> s\<lparr>aux := f (nodes s) p (aux s)\<rparr>)"

partial_function (option) rb_augment_loop ::
  "'x rb_augment \<Rightarrow> ptr \<Rightarrow> 'x rb_state \<Rightarrow> 'x rb_state option" where
  "rb_augment_loop augment node s =
     (if node \<noteq> 0
      then do { let s = call_augment augment node s;
                parent \<leftarrow> rb_parent s node;
                rb_augment_loop augment parent s }
      else Some s)"

definition rb_augment_path :: "'x rb_augment \<Rightarrow> ptr \<Rightarrow> 'x rb_state \<Rightarrow> 'x rb_state option" where
  "rb_augment_path augment node s =
     (if augment = None then Some s else rb_augment_loop augment node s)"

subsection \<open>Rotations\<close>

definition rb_rotate_left ::
  "'x rb_augment \<Rightarrow> ptr \<Rightarrow> 'x rb_state \<Rightarrow> 'x rb_state option" where
  "rb_rotate_left augment node s =
     do { right \<leftarrow> get_right s node;
          parent \<leftarrow> rb_parent s node;
          right_left \<leftarrow> get_left s right;
          s \<leftarrow> set_right node right_left s;
          s \<leftarrow> (if right_left \<noteq> 0 then rb_set_parent right_left node s else Some s);
          s \<leftarrow> set_left right node s;
          s \<leftarrow> rb_set_parent right parent s;
          s \<leftarrow> (if parent \<noteq> 0
                then do { l \<leftarrow> get_left s parent;
                          if node = l then set_left parent right s else set_right parent right s }
                else Some (s\<lparr>root := right\<rparr>));
          s \<leftarrow> rb_set_parent node right s;
          let s = call_augment augment node s;
          Some (call_augment augment right s) }"

definition rb_rotate_right ::
  "'x rb_augment \<Rightarrow> ptr \<Rightarrow> 'x rb_state \<Rightarrow> 'x rb_state option" where
  "rb_rotate_right augment node s =
     do { left \<leftarrow> get_left s node;
          parent \<leftarrow> rb_parent s node;
          left_right \<leftarrow> get_right s left;
          s \<leftarrow> set_left node left_right s;
          s \<leftarrow> (if left_right \<noteq> 0 then rb_set_parent left_right node s else Some s);
          s \<leftarrow> set_right left node s;
          s \<leftarrow> rb_set_parent left parent s;
          s \<leftarrow> (if parent \<noteq> 0
                then do { r \<leftarrow> get_right s parent;
                          if node = r then set_right parent left s else set_left parent left s }
                else Some (s\<lparr>root := left\<rparr>));
          s \<leftarrow> rb_set_parent node left s;
          let s = call_augment augment node s;
          Some (call_augment augment left s) }"

subsection \<open>Rebalancing after an insertion\<close>

text \<open>A test \<open>p && rb_is_red(p)\<close> and a test \<open>!p || rb_is_black(p)\<close>.\<close>

definition red_child :: "'x rb_state \<Rightarrow> ptr \<Rightarrow> bool option" where
  "red_child s p = (if p = 0 then Some False else rb_is_red s p)"

definition black_child :: "'x rb_state \<Rightarrow> ptr \<Rightarrow> bool option" where
  "black_child s p = (if p = 0 then Some True else rb_is_black s p)"

partial_function (option) rb_insert_loop ::
  "'x rb_augment \<Rightarrow> ptr \<Rightarrow> 'x rb_state \<Rightarrow> 'x rb_state option" where
  "rb_insert_loop augment node s =
     do { parent \<leftarrow> rb_parent s node;
          red \<leftarrow> red_child s parent;
          if \<not> red then Some s
          else do {
            gparent \<leftarrow> rb_parent s parent;
            gleft \<leftarrow> get_left s gparent;
            if parent = gleft then do {
              uncle \<leftarrow> get_right s gparent;
              uncle_red \<leftarrow> red_child s uncle;
              if uncle_red then do {
                s \<leftarrow> rb_set_black uncle s;
                s \<leftarrow> rb_set_black parent s;
                s \<leftarrow> rb_set_red gparent s;
                rb_insert_loop augment gparent s }
              else do {
                pright \<leftarrow> get_right s parent;
                (s, parent, node) \<leftarrow>
                  (if pright = node
                   then do { s \<leftarrow> rb_rotate_left augment parent s; Some (s, node, parent) }
                   else Some (s, parent, node));
                s \<leftarrow> rb_set_black parent s;
                s \<leftarrow> rb_set_red gparent s;
                s \<leftarrow> rb_rotate_right augment gparent s;
                rb_insert_loop augment node s } }
            else do {
              uncle_red \<leftarrow> red_child s gleft;
              if uncle_red then do {
                s \<leftarrow> rb_set_black gleft s;
                s \<leftarrow> rb_set_black parent s;
                s \<leftarrow> rb_set_red gparent s;
                rb_insert_loop augment gparent s }
              else do {
                pleft \<leftarrow> get_left s parent;
                (s, parent, node) \<leftarrow>
                  (if pleft = node
                   then do { s \<leftarrow> rb_rotate_right augment parent s; Some (s, node, parent) }
                   else Some (s, parent, node));
                s \<leftarrow> rb_set_black parent s;
                s \<leftarrow> rb_set_red gparent s;
                s \<leftarrow> rb_rotate_left augment gparent s;
                rb_insert_loop augment node s } } } }"

definition rb_insert_color_aug ::
  "'x rb_augment \<Rightarrow> ptr \<Rightarrow> 'x rb_state \<Rightarrow> 'x rb_state option" where
  "rb_insert_color_aug augment node s =
     do { s \<leftarrow> rb_insert_loop augment node s;
          rb_set_black (root s) s }"

definition rb_insert_color :: "ptr \<Rightarrow> 'x rb_state \<Rightarrow> 'x rb_state option" where
  "rb_insert_color node s = rb_insert_color_aug None node s"

definition rb_insert_augmented ::
  "'x rb_augment \<Rightarrow> ptr \<Rightarrow> 'x rb_state \<Rightarrow> 'x rb_state option" where
  "rb_insert_augmented augment node s =
     do { s \<leftarrow> rb_augment_path augment node s;
          rb_insert_color_aug augment node s }"

subsection \<open>Rebalancing after a removal\<close>

text \<open>The loop of \<open>__rb_erase_color\<close>; it returns the node that is coloured black after it.\<close>

partial_function (option) rb_erase_loop ::
  "'x rb_augment \<Rightarrow> ptr \<Rightarrow> ptr \<Rightarrow> 'x rb_state \<Rightarrow> (ptr \<times> 'x rb_state) option" where
  "rb_erase_loop augment node parent s =
     do { black \<leftarrow> black_child s node;
          if \<not> black \<or> node = root s then Some (node, s)
          else do {
            pleft \<leftarrow> get_left s parent;
            if pleft = node then do {
              other \<leftarrow> get_right s parent;
              red \<leftarrow> rb_is_red s other;
              (other, s) \<leftarrow>
                (if red
                 then do { s \<leftarrow> rb_set_black other s;
                           s \<leftarrow> rb_set_red parent s;
                           s \<leftarrow> rb_rotate_left augment parent s;
                           other \<leftarrow> get_right s parent;
                           Some (other, s) }
                 else Some (other, s));
              oleft \<leftarrow> get_left s other;
              oright \<leftarrow> get_right s other;
              lblack \<leftarrow> black_child s oleft;
              both \<leftarrow> (if lblack then black_child s oright else Some False);
              if both
              then do { s \<leftarrow> rb_set_red other s;
                        gparent \<leftarrow> rb_parent s parent;
                        rb_erase_loop augment parent gparent s }
              else do {
                rblack \<leftarrow> black_child s oright;
                (other, s) \<leftarrow>
                  (if rblack
                   then do { s \<leftarrow> rb_set_black oleft s;
                             s \<leftarrow> rb_set_red other s;
                             s \<leftarrow> rb_rotate_right augment other s;
                             other \<leftarrow> get_right s parent;
                             Some (other, s) }
                   else Some (other, s));
                color \<leftarrow> rb_color s parent;
                s \<leftarrow> rb_set_color other color s;
                s \<leftarrow> rb_set_black parent s;
                oright \<leftarrow> get_right s other;
                s \<leftarrow> rb_set_black oright s;
                s \<leftarrow> rb_rotate_left augment parent s;
                Some (root s, s) } }
            else do {
              other \<leftarrow> get_left s parent;
              red \<leftarrow> rb_is_red s other;
              (other, s) \<leftarrow>
                (if red
                 then do { s \<leftarrow> rb_set_black other s;
                           s \<leftarrow> rb_set_red parent s;
                           s \<leftarrow> rb_rotate_right augment parent s;
                           other \<leftarrow> get_left s parent;
                           Some (other, s) }
                 else Some (other, s));
              oleft \<leftarrow> get_left s other;
              oright \<leftarrow> get_right s other;
              lblack \<leftarrow> black_child s oleft;
              both \<leftarrow> (if lblack then black_child s oright else Some False);
              if both
              then do { s \<leftarrow> rb_set_red other s;
                        gparent \<leftarrow> rb_parent s parent;
                        rb_erase_loop augment parent gparent s }
              else do {
                (other, s) \<leftarrow>
                  (if lblack
                   then do { s \<leftarrow> rb_set_black oright s;
                             s \<leftarrow> rb_set_red other s;
                             s \<leftarrow> rb_rotate_left augment other s;
                             other \<leftarrow> get_left s parent;
                             Some (other, s) }
                   else Some (other, s));
                color \<leftarrow> rb_color s parent;
                s \<leftarrow> rb_set_color other color s;
                s \<leftarrow> rb_set_black parent s;
                oleft \<leftarrow> get_left s other;
                s \<leftarrow> rb_set_black oleft s;
                s \<leftarrow> rb_rotate_right augment parent s;
                Some (root s, s) } } } }"

definition rb_erase_color ::
  "'x rb_augment \<Rightarrow> ptr \<Rightarrow> ptr \<Rightarrow> 'x rb_state \<Rightarrow> 'x rb_state option" where
  "rb_erase_color augment node parent s =
     do { (node, s) \<leftarrow> rb_erase_loop augment node parent s;
          if node \<noteq> 0 then rb_set_black node s else Some s }"

text \<open>A loop \<open>while (n->rb_left) n = n->rb_left\<close>.\<close>

partial_function (option) leftmost :: "'x rb_state \<Rightarrow> ptr \<Rightarrow> ptr option" where
  "leftmost s node =
     do { left \<leftarrow> get_left s node; if left \<noteq> 0 then leftmost s left else Some node }"

text \<open>
  The branch of \<open>__rb_erase\<close> for a node with two children: its successor takes its place and colour.
  The results are the variables \<open>child\<close>, \<open>parent\<close>, \<open>augment_from\<close> and \<open>color\<close>.
\<close>

definition rb_erase_two ::
  "ptr \<Rightarrow> 'x rb_state \<Rightarrow> (ptr \<times> ptr \<times> ptr \<times> u64 \<times> 'x rb_state) option" where
  "rb_erase_two old s =
     do { old_right \<leftarrow> get_right s old;
          node \<leftarrow> leftmost s old_right;
          old_parent \<leftarrow> rb_parent s old;
          s \<leftarrow> (if old_parent \<noteq> 0
                then do { l \<leftarrow> get_left s old_parent;
                          if l = old then set_left old_parent node s
                          else set_right old_parent node s }
                else Some (s\<lparr>root := node\<rparr>));
          child \<leftarrow> get_right s node;
          parent \<leftarrow> rb_parent s node;
          color \<leftarrow> rb_color s node;
          (parent, augment_from, s) \<leftarrow>
            (if parent = old then Some (node, node, s)
             else do { s \<leftarrow> (if child \<noteq> 0 then rb_set_parent child parent s else Some s);
                       s \<leftarrow> set_left parent child s;
                       old_right \<leftarrow> get_right s old;
                       s \<leftarrow> set_right node old_right s;
                       s \<leftarrow> rb_set_parent old_right node s;
                       Some (parent, parent, s) });
          old_node \<leftarrow> node_at s old;
          s \<leftarrow> upd_node node (\<lambda>n. n\<lparr>rb_parent_color := rb_parent_color old_node\<rparr>) s;
          old_left \<leftarrow> get_left s old;
          s \<leftarrow> set_left node old_left s;
          s \<leftarrow> rb_set_parent old_left node s;
          Some (child, parent, augment_from, color, s) }"

definition rb_erase_one ::
  "ptr \<Rightarrow> ptr \<Rightarrow> 'x rb_state \<Rightarrow> (ptr \<times> ptr \<times> ptr \<times> u64 \<times> 'x rb_state) option" where
  "rb_erase_one node child s =
     do { parent \<leftarrow> rb_parent s node;
          color \<leftarrow> rb_color s node;
          s \<leftarrow> (if child \<noteq> 0 then rb_set_parent child parent s else Some s);
          s \<leftarrow> (if parent \<noteq> 0
                then do { l \<leftarrow> get_left s parent;
                          if l = node then set_left parent child s else set_right parent child s }
                else Some (s\<lparr>root := child\<rparr>));
          Some (child, parent, parent, color, s) }"

definition rb_erase_aug :: "'x rb_augment \<Rightarrow> ptr \<Rightarrow> 'x rb_state \<Rightarrow> 'x rb_state option" where
  "rb_erase_aug augment node s =
     do { left \<leftarrow> get_left s node;
          right \<leftarrow> get_right s node;
          (child, parent, augment_from, color, s) \<leftarrow>
            (if left = 0 then rb_erase_one node right s
             else if right = 0 then rb_erase_one node left s
             else rb_erase_two node s);
          s \<leftarrow> rb_augment_path augment augment_from s;
          if color = KRB_BLACK then rb_erase_color augment child parent s else Some s }"

definition rb_erase :: "ptr \<Rightarrow> 'x rb_state \<Rightarrow> 'x rb_state option" where
  "rb_erase node s = rb_erase_aug None node s"

definition rb_erase_augmented ::
  "'x rb_augment \<Rightarrow> ptr \<Rightarrow> 'x rb_state \<Rightarrow> 'x rb_state option" where
  "rb_erase_augmented augment node s = rb_erase_aug augment node s"

subsection \<open>Traversal\<close>

definition rb_first :: "'x rb_state \<Rightarrow> ptr option" where
  "rb_first s = (if root s = 0 then Some 0 else leftmost s (root s))"

partial_function (option) rb_next_up :: "'x rb_state \<Rightarrow> ptr \<Rightarrow> ptr option" where
  "rb_next_up s node =
     do { parent \<leftarrow> rb_parent s node;
          if parent = 0 then Some 0
          else do { r \<leftarrow> get_right s parent;
                    if node = r then rb_next_up s parent else Some parent } }"

definition rb_next :: "'x rb_state \<Rightarrow> ptr \<Rightarrow> ptr option" where
  "rb_next s node =
     do { parent \<leftarrow> rb_parent s node;
          if parent = node then Some 0
          else do { right \<leftarrow> get_right s node;
                    if right \<noteq> 0 then leftmost s right else rb_next_up s node } }"

subsection \<open>Linking a new node\<close>

text \<open>
  The clients walk down the tree with a pointer \<open>rb_node_t **link\<close> to the root or to a child field,
  and store the new node there as a red leaf before they call \<open>rb_insert_color\<close>.
\<close>

datatype rb_link = Link_Root | Link_Left ptr | Link_Right ptr

fun get_link :: "'x rb_state \<Rightarrow> rb_link \<Rightarrow> ptr option" where
  "get_link s Link_Root = Some (root s)"
| "get_link s (Link_Left p) = get_left s p"
| "get_link s (Link_Right p) = get_right s p"

fun set_link :: "rb_link \<Rightarrow> ptr \<Rightarrow> 'x rb_state \<Rightarrow> 'x rb_state option" where
  "set_link Link_Root v s = Some (s\<lparr>root := v\<rparr>)"
| "set_link (Link_Left p) v s = set_left p v s"
| "set_link (Link_Right p) v s = set_right p v s"

definition link_node :: "ptr \<Rightarrow> ptr \<Rightarrow> rb_link \<Rightarrow> 'x rb_state \<Rightarrow> 'x rb_state option" where
  "link_node node parent link s =
     do { s \<leftarrow> upd_node node (\<lambda>n. \<lparr>rb_parent_color = parent, rb_right = 0, rb_left = 0\<rparr>) s;
          set_link link node s }"

text \<open>The reset of the fields of a node that has been taken out.\<close>

definition clear_node :: "ptr \<Rightarrow> 'x rb_state \<Rightarrow> 'x rb_state option" where
  "clear_node node s = upd_node node (\<lambda>n. \<lparr>rb_parent_color = 0, rb_right = 0, rb_left = 0\<rparr>) s"

declare rb_augment_loop.simps [code] rb_insert_loop.simps [code] rb_erase_loop.simps [code] leftmost.simps [code]
  rb_next_up.simps [code]

end
