(* ===== verification/Rbtree_Rep.thy ===== *)
theory Rbtree_Rep
  imports Rbtree
begin

text \<open>
  Trees as mathematical objects, with the red-black conditions, and what it means that the heap of
  \<open>libs/rbtree.c\<close> holds one.  A position inside a tree is a subtree in a context, so that the loops
  of the code that climb towards the root are inductions over contexts.
\<close>

subsection \<open>Trees and contexts\<close>

datatype color = Red | Black

datatype rbt = Lf | Nd rbt ptr color rbt

text \<open>A tree with a hole: the hole is the left or the right child of a node.\<close>

datatype ctx = Top | CL ctx ptr color rbt | CR rbt ptr color ctx

fun plug :: "ctx \<Rightarrow> rbt \<Rightarrow> rbt" where
  "plug Top t = t"
| "plug (CL c x k r) t = plug c (Nd t x k r)"
| "plug (CR l x k c) t = plug c (Nd l x k t)"

fun inorder :: "rbt \<Rightarrow> ptr list" where
  "inorder Lf = []"
| "inorder (Nd l x k r) = inorder l @ x # inorder r"

fun before :: "ctx \<Rightarrow> ptr list" where
  "before Top = []"
| "before (CL c x k r) = before c"
| "before (CR l x k c) = before c @ inorder l @ [x]"

fun behind :: "ctx \<Rightarrow> ptr list" where
  "behind Top = []"
| "behind (CL c x k r) = x # inorder r @ behind c"
| "behind (CR l x k c) = behind c"

lemma inorder_plug: "inorder (plug c t) = before c @ inorder t @ behind c"
  by (induction c arbitrary: t) auto

fun hue :: "rbt \<Rightarrow> color" where
  "hue Lf = Black"
| "hue (Nd l x k r) = k"

fun rt :: "rbt \<Rightarrow> ptr" where
  "rt Lf = 0"
| "rt (Nd l x k r) = x"

fun cpar :: "ctx \<Rightarrow> ptr" where
  "cpar Top = 0"
| "cpar (CL c x k r) = x"
| "cpar (CR l x k c) = x"

fun croot :: "ctx \<Rightarrow> ptr \<Rightarrow> ptr" where
  "croot Top p = p"
| "croot (CL c x k r) p = croot c x"
| "croot (CR l x k c) p = croot c x"

subsection \<open>The red-black conditions\<close>

fun invc :: "rbt \<Rightarrow> bool" where
  "invc Lf = True"
| "invc (Nd l x k r) = (invc l \<and> invc r \<and> (k = Red \<longrightarrow> hue l = Black \<and> hue r = Black))"

text \<open>\<open>bal t n\<close>: every path from the root of \<open>t\<close> to a leaf has \<open>n\<close> black nodes.\<close>

fun bal :: "rbt \<Rightarrow> nat \<Rightarrow> bool" where
  "bal Lf n = (n = 0)"
| "bal (Nd l x Red r) n = (bal l n \<and> bal r n)"
| "bal (Nd l x Black r) n = (0 < n \<and> bal l (n - 1) \<and> bal r (n - 1))"

text \<open>The conditions on a context whose hole has the colour \<open>k\<close>, or the black height \<open>n\<close>.\<close>

fun cinvc :: "ctx \<Rightarrow> color \<Rightarrow> bool" where
  "cinvc Top h = True"
| "cinvc (CL c x k r) h = (invc r \<and> (k = Red \<longrightarrow> h = Black \<and> hue r = Black) \<and> cinvc c k)"
| "cinvc (CR l x k c) h = (invc l \<and> (k = Red \<longrightarrow> h = Black \<and> hue l = Black) \<and> cinvc c k)"

fun cbal :: "ctx \<Rightarrow> nat \<Rightarrow> bool" where
  "cbal Top n = True"
| "cbal (CL c x k r) n = (bal r n \<and> cbal c (if k = Black then n + 1 else n))"
| "cbal (CR l x k c) n = (bal l n \<and> cbal c (if k = Black then n + 1 else n))"

text \<open>The colour of the root of a tree with a hole of colour \<open>h\<close>.\<close>

fun ctop :: "ctx \<Rightarrow> color \<Rightarrow> color" where
  "ctop Top h = h"
| "ctop (CL c x k r) h = ctop c k"
| "ctop (CR l x k c) h = ctop c k"

lemma invc_plug: "invc (plug c t) \<longleftrightarrow> invc t \<and> cinvc c (hue t)"
  by (induction c arbitrary: t) auto

lemma hue_plug: "hue (plug c t) = ctop c (hue t)"
  by (induction c arbitrary: t) auto

lemma bal_step:
  "bal (Nd l x k r) m \<longleftrightarrow> (\<exists>n. bal l n \<and> bal r n \<and> m = (if k = Black then n + 1 else n))"
  by (cases k) (auto simp: gr0_conv_Suc)

lemma bal_plug: "(\<exists>m. bal (plug c t) m) \<longleftrightarrow> (\<exists>n. bal t n \<and> cbal c n)"
proof (induction c arbitrary: t)
  case (CL c x k r)
  show ?case unfolding plug.simps CL.IH by (auto simp: bal_step)
next
  case (CR l x k c)
  show ?case unfolding plug.simps CR.IH by (auto simp: bal_step)
qed auto

lemma bal_unique: "bal t n \<Longrightarrow> bal t m \<Longrightarrow> n = m"
proof (induction t arbitrary: n m)
  case (Nd l x k r)
  then show ?case by (cases k) (auto, metis Suc_pred)
qed simp

text \<open>A red-black tree: no red node has a red child, all paths are equally black, the root is black.\<close>

definition rb_tree :: "rbt \<Rightarrow> bool" where
  "rb_tree t \<longleftrightarrow> invc t \<and> (\<exists>n. bal t n) \<and> hue t = Black"

lemma rb_tree_plug:
  "rb_tree (plug c t) \<longleftrightarrow> invc t \<and> cinvc c (hue t) \<and> (\<exists>n. bal t n \<and> cbal c n) \<and> ctop c (hue t) = Black"
  by (simp add: rb_tree_def invc_plug hue_plug bal_plug)

subsection \<open>Trees in the heap\<close>

definition ok :: "ptr \<Rightarrow> bool" where
  "ok p \<longleftrightarrow> p \<noteq> 0 \<and> p AND 3 = 0"

fun colw :: "color \<Rightarrow> u64" where
  "colw Red = KRB_RED"
| "colw Black = KRB_BLACK"

definition mk :: "ptr \<Rightarrow> color \<Rightarrow> ptr \<Rightarrow> ptr \<Rightarrow> rb_node" where
  "mk par k l r = \<lparr>rb_parent_color = par OR colw k, rb_right = r, rb_left = l\<rparr>"

fun tree :: "rb_heap \<Rightarrow> rbt \<Rightarrow> ptr \<Rightarrow> bool" where
  "tree h Lf par = True"
| "tree h (Nd l x k r) par =
     (ok x \<and> h x = Some (mk par k (rt l) (rt r)) \<and> tree h l x \<and> tree h r x)"

fun ctx_at :: "rb_heap \<Rightarrow> ctx \<Rightarrow> ptr \<Rightarrow> bool" where
  "ctx_at h Top hole = True"
| "ctx_at h (CL c x k r) hole =
     (ok x \<and> h x = Some (mk (cpar c) k hole (rt r)) \<and> tree h r x \<and> ctx_at h c x)"
| "ctx_at h (CR l x k c) hole =
     (ok x \<and> h x = Some (mk (cpar c) k (rt l) hole) \<and> tree h l x \<and> ctx_at h c x)"

text \<open>The state holds the tree \<open>plug c t\<close>.\<close>

definition rep :: "'x rb_state \<Rightarrow> ctx \<Rightarrow> rbt \<Rightarrow> bool" where
  "rep s c t \<longleftrightarrow> tree (nodes s) t (cpar c) \<and> ctx_at (nodes s) c (rt t) \<and>
     root s = croot c (rt t) \<and> distinct (before c @ inorder t @ behind c)"

lemma rep_CL: "rep s (CL c x k r) t \<longleftrightarrow> rep s c (Nd t x k r)"
  by (auto simp: rep_def)

lemma rep_CR: "rep s (CR l x k c) t \<longleftrightarrow> rep s c (Nd l x k t)"
  by (auto simp: rep_def)

lemma rep_plug: "rep s Top (plug c t) \<longleftrightarrow> rep s c t"
  by (induction c arbitrary: t) (simp_all add: rep_CL rep_CR)

subsection \<open>The packed word\<close>

lemma aligned_or:
  fixes p :: u64
  assumes "p AND 3 = 0"
  shows "(p OR colw k) AND NOT 3 = p" "(p OR colw k) AND 1 = colw k" "(p OR colw k) AND 3 = colw k"
    "(p OR colw k) AND NOT 1 = p" "(p OR colw k) OR 1 = p OR colw Black"
proof -
  have "p AND 1 = (p AND 3) AND 1" by (simp add: and.assoc)
  then have p1: "p AND 1 = 0" using assms by simp
  have "p = p AND (3 OR NOT 3)" by simp
  then have n3: "p AND NOT 3 = p" using assms by (metis bit.conj_disj_distrib or.left_neutral)
  have "p = p AND (1 OR NOT 1)" by simp
  then have n1: "p AND NOT 1 = p" using p1 by (metis bit.conj_disj_distrib or.left_neutral)
  show "(p OR colw k) AND NOT 3 = p" "(p OR colw k) AND 1 = colw k" "(p OR colw k) AND 3 = colw k"
    "(p OR colw k) AND NOT 1 = p" "(p OR colw k) OR 1 = p OR colw Black"
    using n3 n1 p1 assms
    by (cases k; simp add: bit.conj_disj_distrib2 KRB_RED_def KRB_BLACK_def or.assoc)+
qed

subsection \<open>Reading\<close>

lemma rep_parent_ok: "rep s c t \<Longrightarrow> cpar c = 0 \<or> ok (cpar c)"
  by (cases c) (auto simp: rep_def)

lemma rep_parent_aligned: "rep s c t \<Longrightarrow> cpar c AND 3 = 0"
  using rep_parent_ok [of s c t] by (auto simp: ok_def)

lemma rep_node:
  assumes "rep s c (Nd l x k r)"
  shows "node_at s x = Some (mk (cpar c) k (rt l) (rt r))" "x \<noteq> 0" "x AND 3 = 0"
  using assms by (auto simp: rep_def node_at_def ok_def)

lemma mk_word:
  assumes "q AND 3 = 0"
  shows "rb_parent_color (mk q k l r) AND NOT 3 = q" "rb_parent_color (mk q k l r) AND 1 = colw k"
    "(mk q k l r)\<lparr>rb_parent_color := (rb_parent_color (mk q k l r) AND 3) OR p\<rparr> = mk p k l r"
    "(mk q k l r)\<lparr>rb_parent_color := rb_parent_color (mk q k l r) AND NOT 1\<rparr> = mk q Red l r"
    "(mk q k l r)\<lparr>rb_parent_color := rb_parent_color (mk q k l r) OR 1\<rparr> = mk q Black l r"
    "(mk q k l r)\<lparr>rb_parent_color := (rb_parent_color (mk q k l r) AND NOT 1) OR colw k'\<rparr> = mk q k' l r"
  unfolding mk_def by (simp_all only: rb_node.simps aligned_or [OF assms]) (simp_all add: or.commute KRB_RED_def)

lemma not_red: "k \<noteq> Red \<longleftrightarrow> k = Black"
  by (cases k) simp_all

lemma colw_simps [simp]: "colw k = 0 \<longleftrightarrow> k = Red" "colw k = KRB_BLACK \<longleftrightarrow> k = Black"
  by (cases k; simp add: KRB_RED_def KRB_BLACK_def)+

lemma rep_fields:
  assumes "rep s c (Nd l x k r)"
  shows "get_left s x = Some (rt l)" "get_right s x = Some (rt r)" "rb_parent s x = Some (cpar c)"
    "rb_color s x = Some (colw k)" "rb_is_red s x = Some (k = Red)" "rb_is_black s x = Some (k = Black)"
proof -
  note node = rep_node [OF assms] and word = mk_word [OF rep_parent_aligned [OF assms]]
  show "get_left s x = Some (rt l)" "get_right s x = Some (rt r)"
    by (simp_all add: get_left_def get_right_def node mk_def)
  show "rb_parent s x = Some (cpar c)"
    unfolding rb_parent_def node(1) option.map word(1) ..
  show c: "rb_color s x = Some (colw k)"
    unfolding rb_color_def node(1) option.map word(2) ..
  show "rb_is_red s x = Some (k = Red)" "rb_is_black s x = Some (k = Black)"
    unfolding rb_is_red_def rb_is_black_def c by (simp_all add: not_red)
qed

lemma rep_child:
  assumes "rep s c t"
  shows "red_child s (rt t) = Some (hue t = Red)" "black_child s (rt t) = Some (hue t = Black)"
proof -
  have "red_child s (rt t) = Some (hue t = Red) \<and> black_child s (rt t) = Some (hue t = Black)"
  proof (cases t)
    case (Nd l x k r)
    then have r: "rep s c (Nd l x k r)" using assms by simp
    show ?thesis using rep_fields(5,6) [OF r] rep_node(2) [OF r] Nd by (simp add: red_child_def black_child_def)
  qed (simp add: red_child_def black_child_def)
  then show "red_child s (rt t) = Some (hue t = Red)" "black_child s (rt t) = Some (hue t = Black)"
    by simp_all
qed

lemma rt_in: "t \<noteq> Lf \<Longrightarrow> rt t \<in> set (inorder t)"
  by (cases t) auto

lemma rep_ok: "rep s c t \<Longrightarrow> x \<in> set (inorder t) \<Longrightarrow> x \<noteq> 0"
proof -
  have "tree h t p \<Longrightarrow> x \<in> set (inorder t) \<Longrightarrow> x \<noteq> 0" for h p
    by (induction t arbitrary: p) (auto simp: ok_def)
  then show "rep s c t \<Longrightarrow> x \<in> set (inorder t) \<Longrightarrow> x \<noteq> 0" by (auto simp: rep_def)
qed

lemma rep_rt_zero: "rep s c t \<Longrightarrow> rt t = 0 \<longleftrightarrow> t = Lf"
  by (cases t) (auto dest: rep_node)

lemma rep_siblings:
  assumes "rep s c (Nd l x k r)" "r \<noteq> Lf"
  shows "rt l \<noteq> rt r"
proof -
  have "rep s (CR l x k c) r" using assms by (simp add: rep_CR)
  then have "rt r \<noteq> 0" using rep_rt_zero assms(2) by blast
  then show ?thesis
    using assms rt_in [of l] rt_in [of r] by (cases "l = Lf") (auto simp: rep_def)
qed

subsection \<open>Writing\<close>

lemma tree_upd [simp]: "p \<notin> set (inorder t) \<Longrightarrow> tree (h(p \<mapsto> n)) t q = tree h t q"
  by (induction t arbitrary: q) auto

lemma ctx_upd [simp]:
  "p \<notin> set (before c) \<Longrightarrow> p \<notin> set (behind c) \<Longrightarrow> ctx_at (h(p \<mapsto> n)) c hole = ctx_at h c hole"
  by (induction c arbitrary: hole) auto

text \<open>
  The callback of an augmented tree sees the two children of a node.  A sequence of calls at nodes of \<open>A\<close>
  whose children are in \<open>A\<close> leads from one state of the rest of memory to another.
\<close>

definition kids :: "rb_heap \<Rightarrow> ptr \<Rightarrow> (ptr \<times> ptr) option" where
  "kids h p = map_option (\<lambda>n. (rb_left n, rb_right n)) (h p)"

lemma kids_mk [simp]: "h p = Some (mk q k l r) \<Longrightarrow> kids h p = Some (l, r)"
  by (simp add: kids_def mk_def)

inductive calls :: "(rb_heap \<Rightarrow> ptr \<Rightarrow> 'x \<Rightarrow> 'x) \<Rightarrow> ptr set \<Rightarrow> 'x \<Rightarrow> 'x \<Rightarrow> bool" for f A where
  none [simp]: "calls f A m m"
| more: "calls f A m m' \<Longrightarrow> p \<in> A \<Longrightarrow> p \<noteq> 0 \<Longrightarrow> kids h p = Some (l, r) \<Longrightarrow> {l, r} \<subseteq> insert 0 A \<Longrightarrow> calls f A m (f h p m')"

lemma calls_trans: "calls f A m' m'' \<Longrightarrow> calls f A m m' \<Longrightarrow> calls f A m m''"
  by (induction rule: calls.induct) (auto intro: calls.more)

lemma calls_mono: "calls f A m m' \<Longrightarrow> A \<subseteq> B \<Longrightarrow> calls f B m m'"
  by (induction rule: calls.induct) (auto intro!: calls.more)

text \<open>What an operation may change: the nodes in \<open>A\<close> and, if there is a callback, the rest of memory through it.\<close>

definition frame :: "'x rb_augment \<Rightarrow> ptr set \<Rightarrow> 'x rb_state \<Rightarrow> 'x rb_state \<Rightarrow> bool" where
  "frame aug A s s' \<longleftrightarrow> (\<forall>p. p \<notin> A \<longrightarrow> nodes s' p = nodes s p) \<and> (aug = None \<longrightarrow> aux s' = aux s) \<and>
     (\<forall>f. aug = Some f \<longrightarrow> calls f A (aux s) (aux s'))"

lemma frame_refl [simp]: "frame aug A s s"
  by (simp add: frame_def)

lemma frame_trans: "frame aug A s s' \<Longrightarrow> frame aug A s' s'' \<Longrightarrow> frame aug A s s''"
  by (auto simp: frame_def intro: calls_trans)

lemma frame_mono: "frame aug A s s' \<Longrightarrow> A \<subseteq> B \<Longrightarrow> frame aug B s s'"
  by (auto simp: frame_def intro: calls_mono)

lemma frame_upd: "frame aug A s s' \<Longrightarrow> p \<in> A \<Longrightarrow> frame aug A s (s'\<lparr>nodes := (nodes s')(p \<mapsto> n)\<rparr>)"
  by (auto simp: frame_def)

text \<open>The addresses of a tree in a context.\<close>

definition addrs :: "ctx \<Rightarrow> rbt \<Rightarrow> ptr set" where
  "addrs c t = set (before c @ inorder t @ behind c)"

lemma rep_recolor:
  assumes "rep s c (Nd l x k r)"
  shows "rep (s\<lparr>nodes := (nodes s)(x \<mapsto> mk (cpar c) k' (rt l) (rt r))\<rparr>) c (Nd l x k' r)"
  using assms by (auto simp: rep_def)

lemma rep_set_black:
  assumes "rep s c (Nd l x k r)"
  shows "\<exists>s'. rb_set_black x s = Some s' \<and> rep s' c (Nd l x Black r) \<and> frame aug (addrs c (Nd l x k r)) s s'"
  unfolding rb_set_black_def upd_node_def rep_node [OF assms] option.case mk_word [OF rep_parent_aligned [OF assms]]
  using rep_recolor [OF assms, of Black] by (auto simp: frame_def addrs_def)

lemma rep_set_red:
  assumes "rep s c (Nd l x k r)"
  shows "\<exists>s'. rb_set_red x s = Some s' \<and> rep s' c (Nd l x Red r) \<and> frame aug (addrs c (Nd l x k r)) s s'"
  unfolding rb_set_red_def upd_node_def rep_node [OF assms] option.case mk_word [OF rep_parent_aligned [OF assms]]
  using rep_recolor [OF assms, of Red] by (auto simp: frame_def addrs_def)

lemma rep_set_color:
  assumes "rep s c (Nd l x k r)"
  shows "\<exists>s'. rb_set_color x (colw k') s = Some s' \<and> rep s' c (Nd l x k' r) \<and>
    frame aug (addrs c (Nd l x k r)) s s'"
  unfolding rb_set_color_def upd_node_def rep_node [OF assms] option.case mk_word [OF rep_parent_aligned [OF assms]]
  using rep_recolor [OF assms, of k'] by (auto simp: frame_def addrs_def)

lemma node_at_upd: "p \<noteq> 0 \<Longrightarrow> node_at (s\<lparr>nodes := h\<rparr>) p = h p"
  by (simp add: node_at_def)

lemma mk_updates [simp]:
  "(mk q k l r)\<lparr>rb_left := l'\<rparr> = mk q k l' r"
  "(mk q k l r)\<lparr>rb_right := r'\<rparr> = mk q k l r'"
  "rb_left (mk q k l r) = l"
  "rb_right (mk q k l r) = r"
  by (simp_all add: mk_def)

lemma call_augment_simps [simp]:
  "nodes (call_augment aug p s) = nodes s" "root (call_augment aug p s) = root s"
  "aug = None \<Longrightarrow> aux (call_augment aug p s) = aux s"
  by (auto simp: call_augment_def split: option.splits)

end
