(* ===== verification/Rbtree_Aug.thy ===== *)
theory Rbtree_Aug
  imports Rbtree_Rep
begin

text \<open>
  Augmented trees: what \<open>libs/rbtree.c\<close> needs of a callback so that the values it keeps in the nodes stay
  right through rotations and along the path to the root.  That the values are right is said without
  knowing them: calling the callback at any node of the tree changes nothing.
\<close>

subsection \<open>The children of the nodes\<close>

text \<open>The nodes of a tree with their children, and those of a context around a subtree with root \<open>p\<close>.\<close>

fun trip :: "rbt \<Rightarrow> (ptr \<times> ptr \<times> ptr) set" where
  "trip Lf = {}"
| "trip (Nd l x k r) = insert (x, rt l, rt r) (trip l \<union> trip r)"

fun ctrip :: "ctx \<Rightarrow> ptr \<Rightarrow> (ptr \<times> ptr \<times> ptr) set" where
  "ctrip Top p = {}"
| "ctrip (CL c x k r) p = insert (x, p, rt r) (trip r \<union> ctrip c x)"
| "ctrip (CR l x k c) p = insert (x, rt l, p) (trip l \<union> ctrip c x)"

text \<open>The nodes of a context are the parent of the hole and the others.\<close>

fun cmark :: "ctx \<Rightarrow> ptr \<Rightarrow> (ptr \<times> ptr \<times> ptr) set" where
  "cmark Top p = {}"
| "cmark (CL c x k r) p = {(x, p, rt r)}"
| "cmark (CR l x k c) p = {(x, rt l, p)}"

fun cfix :: "ctx \<Rightarrow> (ptr \<times> ptr \<times> ptr) set" where
  "cfix Top = {}"
| "cfix (CL c x k r) = trip r \<union> ctrip c x"
| "cfix (CR l x k c) = trip l \<union> ctrip c x"

lemma ctrip_split: "ctrip c p = cmark c p \<union> cfix c"
  by (cases c) auto

lemma trip_plug: "trip (plug c t) = trip t \<union> ctrip c (rt t)"
  by (induction c arbitrary: t) auto

lemma rt_in0: "rt t \<in> insert 0 (set (inorder t))"
  by (cases t) auto

lemma trip_in: "(z, l, r) \<in> trip t \<Longrightarrow> z \<in> set (inorder t) \<and> {l, r} \<subseteq> insert 0 (set (inorder t))"
  using rt_in0 by (induction t) fastforce+

lemma ctrip_in: "(z, l, r) \<in> ctrip c p \<Longrightarrow> z \<in> set (before c @ behind c) \<and> {l, r} \<subseteq> insert 0 (insert p (set (before c @ behind c)))"
proof (induction c arbitrary: p)
  case (CL c x k t)
  then show ?case using trip_in [of z l r t] rt_in0 [of t] by fastforce
next
  case (CR t x k c)
  then show ?case using trip_in [of z l r t] rt_in0 [of t] by fastforce
qed simp

lemma cfix_in:
  "distinct (before c @ behind c) \<Longrightarrow> (z, l, r) \<in> cfix c \<Longrightarrow>
   z \<in> set (before c @ behind c) \<and> z \<noteq> cpar c \<and> {l, r} \<subseteq> insert 0 (set (before c @ behind c))"
proof (cases c)
  case (CL d x k t)
  assume "distinct (before c @ behind c)" "(z, l, r) \<in> cfix c"
  then show ?thesis using trip_in [of z l r t] ctrip_in [of z l r d x] CL by auto
next
  case (CR t x k d)
  assume "distinct (before c @ behind c)" "(z, l, r) \<in> cfix c"
  then show ?thesis using trip_in [of z l r t] ctrip_in [of z l r d x] CR by auto
qed simp

lemma trip_ex: "z \<in> set (inorder t) \<Longrightarrow> \<exists>l r. (z, l, r) \<in> trip t"
  by (induction t) auto

lemma trip_rt: "distinct (inorder t) \<Longrightarrow> 0 \<notin> set (inorder t) \<Longrightarrow> (z, l, r) \<in> trip t \<Longrightarrow> rt t \<notin> {l, r} \<or> t = Lf"
proof (cases t)
  case (Nd a x k b)
  assume "distinct (inorder t)" "0 \<notin> set (inorder t)" "(z, l, r) \<in> trip t"
  then show ?thesis using Nd trip_in [of z l r a] trip_in [of z l r b] rt_in0 [of a] rt_in0 [of b] by auto
qed simp

lemma trip_self: "distinct (inorder t) \<Longrightarrow> 0 \<notin> set (inorder t) \<Longrightarrow> (z, l, r) \<in> trip t \<Longrightarrow> z \<notin> {l, r}"
proof (induction t)
  case (Nd a x k b)
  then show ?case using rt_in0 [of a] rt_in0 [of b] by auto
qed simp

lemma tree_trip: "tree h t q \<Longrightarrow> (z, l, r) \<in> trip t \<Longrightarrow> kids h z = Some (l, r)"
  by (induction t arbitrary: q) auto

lemma rep_trip:
  assumes "rep s c t" "(z, l, r) \<in> trip t \<union> ctrip c (rt t)"
  shows "kids (nodes s) z = Some (l, r)"
proof -
  have "rep s Top (plug c t)" using assms(1) by (simp add: rep_plug)
  then have "tree (nodes s) (plug c t) 0" by (simp add: rep_def)
  then show ?thesis using tree_trip assms(2) trip_plug by blast
qed

lemma rep_kids:
  assumes "rep s c t" "z \<in> addrs c t"
  shows "\<exists>l r. (z, l, r) \<in> trip t \<union> ctrip c (rt t) \<and> kids (nodes s) z = Some (l, r) \<and> {l, r} \<subseteq> insert 0 (addrs c t) \<and> z \<notin> {l, r}"
proof -
  have r: "rep s Top (plug c t)" using assms(1) by (simp add: rep_plug)
  have i: "set (inorder (plug c t)) = addrs c t" by (simp add: inorder_plug addrs_def)
  obtain l r where t: "(z, l, r) \<in> trip (plug c t)" using trip_ex [of z "plug c t"] assms(2) i by auto
  have "distinct (inorder (plug c t))" "0 \<notin> set (inorder (plug c t))"
    using r rep_ok [OF r] by (auto simp: rep_def)
  then show ?thesis using t trip_in [OF t] trip_self [OF _ _ t] rep_trip [OF assms(1), of z l r] i trip_plug [of c t] by auto
qed

text \<open>Only the parent has a node as its child.\<close>

lemma rep_only_parent:
  assumes "rep s c (Nd l x k r)" "z \<in> addrs c (Nd l x k r)" "kids (nodes s) z = Some (u, v)" "x \<in> {u, v}"
  shows "z = cpar c"
proof (rule ccontr)
  assume n: "z \<noteq> cpar c"
  have d: "distinct (before c @ inorder (Nd l x k r) @ behind c)" using assms(1) by (simp add: rep_def)
  have x: "x \<noteq> 0" using rep_node(2) [OF assms(1)] .
  have t: "(z, u, v) \<in> trip (Nd l x k r) \<union> ctrip c x"
    using rep_kids [OF assms(1,2)] assms(3) by auto
  have o: "0 \<notin> set (inorder (Nd l x k r))" using rep_ok [OF assms(1)] by blast
  have di: "distinct (inorder (Nd l x k r))" using d by auto
  have "(z, u, v) \<notin> trip (Nd l x k r)" using trip_rt [OF di o, of z u v] assms(4) by auto
  moreover have "(z, u, v) \<notin> cmark c x" using n by (cases c) auto
  ultimately have "(z, u, v) \<in> cfix c" using t ctrip_split by blast
  then show False using cfix_in [of c z u v] d assms(4) x by auto
qed

text \<open>The context of a rotation: \<open>y\<close> takes the place of \<open>x\<close> below its parent.\<close>

lemma ctrip_turn:
  assumes "distinct (before c @ behind c)" "0 \<notin> {x, y}" "x \<notin> set (before c @ behind c)" "y \<notin> set (before c @ behind c)"
    "(z, u, v) \<in> ctrip c x"
  shows "z \<notin> {x, y} \<and> ((z, u, v) \<in> ctrip c y \<and> {x, y} \<inter> {u, v} = {} \<or>
    (\<exists>l. l \<notin> {x, y} \<and> ((u, v) = (x, l) \<and> (z, y, l) \<in> ctrip c y \<or> (u, v) = (l, x) \<and> (z, l, y) \<in> ctrip c y)))"
proof -
  have z: "z \<in> set (before c @ behind c)" using ctrip_in [OF assms(5)] by blast
  consider "(z, u, v) \<in> cfix c" | "(z, u, v) \<in> cmark c x" using assms(5) ctrip_split by blast
  then show ?thesis
  proof cases
    case 1
    then have "{u, v} \<subseteq> insert 0 (set (before c @ behind c))" "(z, u, v) \<in> ctrip c y"
      using cfix_in [OF assms(1) 1] ctrip_split by blast+
    then show ?thesis using z assms(2-4) by blast
  next
    case 2
    show ?thesis
    proof (cases c)
      case (CL d p k r)
      then have "rt r \<notin> {x, y}" using rt_in0 [of r] assms(2-4) by auto
      then show ?thesis using 2 CL z assms(3,4) by auto
    next
      case (CR l p k d)
      then have "rt l \<notin> {x, y}" using rt_in0 [of l] assms(2-4) by auto
      then show ?thesis using 2 CR z assms(3,4) by auto
    qed (use 2 in simp)
  qed
qed

subsection \<open>Callbacks\<close>

definition settled :: "(rb_heap \<Rightarrow> ptr \<Rightarrow> 'x \<Rightarrow> 'x) \<Rightarrow> ptr set \<Rightarrow> 'x rb_state \<Rightarrow> bool" where
  "settled f A s \<longleftrightarrow> (\<forall>p \<in> A. f (nodes s) p (aux s) = aux s)"

text \<open>
  The laws: the callback looks at the children only; calling it twice is calling it once; a call concerns
  nobody but the parent; and the value of a subtree does not depend on its shape, so that the parent of
  a rotated subtree keeps its value.
\<close>

locale augmentation =
  fixes f :: "rb_heap \<Rightarrow> ptr \<Rightarrow> 'x \<Rightarrow> 'x"
  assumes looks: "kids h p = kids h' p \<Longrightarrow> f h p m = f h' p m"
    and again: "kids h p = Some (l, r) \<Longrightarrow> p \<notin> {l, r} \<Longrightarrow> f h p (f h p m) = f h p m"
    and apart: "kids h z = Some (l, r) \<Longrightarrow> z \<noteq> p \<Longrightarrow> p \<notin> {l, r} \<Longrightarrow> f h z m = m \<Longrightarrow> f h z (f h p m) = f h p m"
    and turn_left: "kids h x = Some (a, y) \<Longrightarrow> kids h y = Some (b, d) \<Longrightarrow> kids h' x = Some (a, b) \<Longrightarrow>
      kids h' y = Some (x, d) \<Longrightarrow> 0 \<notin> {x, y} \<Longrightarrow> x \<noteq> y \<Longrightarrow> {x, y} \<inter> {a, b, d} = {} \<Longrightarrow> f h x m = m \<Longrightarrow> f h y m = m \<Longrightarrow>
      kids h z = Some (x, l) \<and> kids h' z = Some (y, l) \<or> kids h z = Some (l, x) \<and> kids h' z = Some (l, y) \<Longrightarrow>
      z \<notin> {x, y} \<Longrightarrow> l \<notin> {x, y} \<Longrightarrow> f h z m = m \<Longrightarrow> f h' z (f h' y (f h' x m)) = f h' y (f h' x m)"
    and turn_right: "kids h x = Some (y, a) \<Longrightarrow> kids h y = Some (d, b) \<Longrightarrow> kids h' x = Some (b, a) \<Longrightarrow>
      kids h' y = Some (d, x) \<Longrightarrow> 0 \<notin> {x, y} \<Longrightarrow> x \<noteq> y \<Longrightarrow> {x, y} \<inter> {a, b, d} = {} \<Longrightarrow> f h x m = m \<Longrightarrow> f h y m = m \<Longrightarrow>
      kids h z = Some (x, l) \<and> kids h' z = Some (y, l) \<or> kids h z = Some (l, x) \<and> kids h' z = Some (l, y) \<Longrightarrow>
      z \<notin> {x, y} \<Longrightarrow> l \<notin> {x, y} \<Longrightarrow> f h z m = m \<Longrightarrow> f h' z (f h' y (f h' x m)) = f h' y (f h' x m)"
begin

text \<open>A node away from a rotation keeps its children, and they are not the rotated nodes.\<close>

lemma settled_apart:
  assumes "kids h z = Some (l, r)" "kids h' z = Some (l, r)" "{x, y} \<inter> {z, l, r} = {}" "f h z m = m"
  shows "f h' z (f h' y (f h' x m)) = f h' y (f h' x m)"
proof -
  have "f h' z m = m" using looks [of h z h' m] assms by simp
  then have "f h' z (f h' x m) = f h' x m" using apart [OF assms(2), of x m] assms(3) by auto
  then show ?thesis using apart [OF assms(2), of y "f h' x m"] assms(3) by auto
qed

text \<open>
  After a rotation and the calls at \<open>x\<close> and \<open>y\<close> every node is right: \<open>x\<close> and \<open>y\<close> themselves, the nodes of
  the subtrees that were moved, and those of the context.
\<close>

lemma turned:
  assumes k: "kids h' x = Some (i, j)" "kids h' y = Some (i', j')" "{x, y} \<inter> {i, j} = {}" "y \<notin> {i', j'}" "0 \<notin> {x, y}" "x \<noteq> y"
    and c: "distinct (before c @ behind c)" "x \<notin> set (before c @ behind c)" "y \<notin> set (before c @ behind c)"
    and t: "\<And>u v. (p, u, v) \<in> ctrip c y \<Longrightarrow> kids h' p = Some (u, v)"
    and p: "p \<in> {x, y} \<or> kids h' p = Some (u, v) \<and> {x, y} \<inter> {p, u, v} = {} \<or> (p, u, v) \<in> ctrip c x"
    and st: "kids h p = Some (u, v)" "f h p m = m"
    and turn: "\<And>l. kids h p = Some (x, l) \<and> kids h' p = Some (y, l) \<or> kids h p = Some (l, x) \<and> kids h' p = Some (l, y) \<Longrightarrow>
      p \<notin> {x, y} \<Longrightarrow> l \<notin> {x, y} \<Longrightarrow> f h p m = m \<Longrightarrow> f h' p (f h' y (f h' x m)) = f h' y (f h' x m)"
  shows "f h' p (f h' y (f h' x m)) = f h' y (f h' x m)"
proof -
  consider "p = x" | "p = y" | "kids h' p = Some (u, v)" "{x, y} \<inter> {p, u, v} = {}" | "(p, u, v) \<in> ctrip c x" using p by blast
  then show ?thesis
  proof cases
    case 1
    have "f h' x (f h' x m) = f h' x m" using again [OF k(1)] k(3) by auto
    then show ?thesis using apart [OF k(1), of y] k 1 by auto
  next
    case 2
    then show ?thesis using again [OF k(2,4)] by simp
  next
    case 3
    then show ?thesis using settled_apart [OF st(1)] st(2) by blast
  next
    case 4
    have q: "p \<notin> {x, y}" "(p, u, v) \<in> ctrip c y \<and> {x, y} \<inter> {u, v} = {} \<or>
        (\<exists>l. l \<notin> {x, y} \<and> ((u, v) = (x, l) \<and> (p, y, l) \<in> ctrip c y \<or> (u, v) = (l, x) \<and> (p, l, y) \<in> ctrip c y))"
      using ctrip_turn [OF c(1) k(5) c(2,3) 4] by auto
    show ?thesis
    proof (cases "(p, u, v) \<in> ctrip c y \<and> {x, y} \<inter> {u, v} = {}")
      case True
      then have "{x, y} \<inter> {p, u, v} = {}" "kids h' p = Some (u, v)" using q(1) t by blast+
      then show ?thesis using settled_apart [OF st(1)] st(2) by blast
    next
      case False
      then obtain l where "l \<notin> {x, y}" "kids h p = Some (x, l) \<and> kids h' p = Some (y, l) \<or> kids h p = Some (l, x) \<and> kids h' p = Some (l, y)"
        using q(2) st(1) t by auto
      then show ?thesis using turn [OF _ q(1) _ st(2)] by blast
    qed
  qed
qed

text \<open>Calls along a list of nodes, each of them below the next.\<close>

lemma settled_path:
  assumes "\<And>us p vs. ps = us @ p # vs \<Longrightarrow> \<exists>l r. kids h p = Some (l, r) \<and> p \<notin> {l, r} \<and> (\<forall>z \<in> A. \<forall>u v. kids h z = Some (u, v) \<longrightarrow> p \<in> {u, v} \<longrightarrow> z \<in> set vs)"
    "\<And>z. z \<in> A \<Longrightarrow> kids h z \<noteq> None" "\<And>z. z \<in> A \<Longrightarrow> z \<notin> set ps \<Longrightarrow> f h z m = m" "distinct ps"
  shows "\<forall>z \<in> A. f h z (fold (f h) ps m) = fold (f h) ps m"
  using assms(1,3,4)
proof (induction ps arbitrary: m)
  case (Cons p ps)
  obtain l r where p: "kids h p = Some (l, r)" "p \<notin> {l, r}"
    "\<And>z u v. z \<in> A \<Longrightarrow> kids h z = Some (u, v) \<Longrightarrow> p \<in> {u, v} \<Longrightarrow> z \<in> set ps"
    using Cons.prems(1) [OF append_Nil [symmetric]] by blast
  have "f h z (f h p m) = f h p m" if zA: "z \<in> A" and zp: "z \<notin> set ps" for z
  proof (cases "z = p")
    case True
    then show ?thesis using again [OF p(1,2)] by simp
  next
    case False
    obtain u v where k: "kids h z = Some (u, v)" using assms(2) [OF zA] by auto
    have "p \<notin> {u, v}" using p(3) [OF zA k] zp by blast
    moreover have "f h z m = m" using Cons.prems(2) [OF zA] zp False by simp
    ultimately show ?thesis using apart [OF k False] by blast
  qed
  moreover have "\<exists>l r. kids h q = Some (l, r) \<and> q \<notin> {l, r} \<and> (\<forall>z \<in> A. \<forall>u v. kids h z = Some (u, v) \<longrightarrow> q \<in> {u, v} \<longrightarrow> z \<in> set vs)"
    if "ps = us @ q # vs" for us q vs
    using Cons.prems(1) [of "p # us" q vs] that by simp
  ultimately show ?case using Cons.IH [of "f h p m"] Cons.prems(3) by simp
qed (use assms(3) in simp)

end

text \<open>An operation on the nodes \<open>A\<close> that also leaves the values right.\<close>

definition steady :: "'x rb_augment \<Rightarrow> ptr set \<Rightarrow> 'x rb_state \<Rightarrow> 'x rb_state \<Rightarrow> bool" where
  "steady aug A s s' \<longleftrightarrow> frame aug A s s' \<and> (\<forall>f. aug = Some f \<and> augmentation f \<and> settled f A s \<longrightarrow> settled f A s')"

lemma steady_refl [simp]: "steady aug A s s"
  by (simp add: steady_def)

lemma steady_trans: "steady aug A s s' \<Longrightarrow> steady aug A s' s'' \<Longrightarrow> steady aug A s s''"
  unfolding steady_def by (blast intro: frame_trans)

lemma steady_frame: "steady aug A s s' \<Longrightarrow> frame aug A s s'"
  by (simp add: steady_def)

lemma rep_not_zero: "rep s c t \<Longrightarrow> 0 \<notin> addrs c t"
  using rep_ok [of s Top "plug c t" 0] by (auto simp: rep_plug inorder_plug addrs_def)

lemma frame_call:
  assumes "frame aug (addrs c t) s s'" "rep s' c t" "p \<in> addrs c t"
  shows "frame aug (addrs c t) s (call_augment aug p s')"
proof (cases aug)
  case (Some f)
  obtain l r where k: "kids (nodes s') p = Some (l, r)" "{l, r} \<subseteq> insert 0 (addrs c t)"
    using rep_kids [OF assms(2,3)] by blast
  have "p \<noteq> 0" using rep_not_zero [OF assms(2)] assms(3) by blast
  then show ?thesis using assms(1,3) k Some by (auto simp: frame_def call_augment_def intro: calls.more)
qed (use assms(1) in \<open>simp add: call_augment_def\<close>)

text \<open>Recolouring.\<close>

lemma steady_same:
  assumes r: "rep s c t" "rep s' c t'" and t: "trip t' = trip t" "rt t' = rt t"
    and f: "frame aug (addrs c t) s s'" "aux s' = aux s"
  shows "steady aug (addrs c t) s s'"
proof -
  have "g (nodes s') p (aux s) = aux s" if g: "augmentation g" "settled g (addrs c t) s" and p: "p \<in> addrs c t" for g p
  proof -
    obtain u v where k: "(p, u, v) \<in> trip t \<union> ctrip c (rt t)" "kids (nodes s) p = Some (u, v)"
      using rep_kids [OF r(1) p] by blast
    then have "kids (nodes s') p = kids (nodes s) p" using rep_trip [OF r(2)] t by simp
    then show ?thesis using augmentation.looks [OF g(1), of "nodes s'" p "nodes s"] g(2) p by (simp add: settled_def)
  qed
  then show ?thesis using f unfolding steady_def settled_def by auto
qed

text \<open>Rotations.\<close>

lemma steady_turn_left:
  assumes r: "rep s c (Nd a x kx (Nd b y ky d))" "rep s' c (Nd (Nd a x kx b) y ky d)"
    and f: "frame aug (addrs c (Nd a x kx (Nd b y ky d))) s s'"
    and m: "\<And>g. aug = Some g \<Longrightarrow> aux s' = g (nodes s') y (g (nodes s') x (aux s))"
  shows "steady aug (addrs c (Nd a x kx (Nd b y ky d))) s s'"
proof -
  let ?A = "addrs c (Nd a x kx (Nd b y ky d))" and ?h = "nodes s" and ?h' = "nodes s'"
  let ?B = "set (inorder a) \<union> set (inorder b) \<union> set (inorder d)"
  have di: "distinct (before c @ inorder (Nd a x kx (Nd b y ky d)) @ behind c)" using r(1) by (simp add: rep_def)
  have o: "0 \<notin> {x, y}" "x \<noteq> y" "{x, y} \<inter> insert 0 ?B = {}"
    using di rep_not_zero [OF r(1)] by (auto simp: addrs_def)
  have o': "{x, y} \<inter> {rt a, rt b, rt d} = {}" using o(3) rt_in0 [of a] rt_in0 [of b] rt_in0 [of d] by blast
  have k: "kids ?h x = Some (rt a, y)" "kids ?h y = Some (rt b, rt d)" "kids ?h' x = Some (rt a, rt b)" "kids ?h' y = Some (x, rt d)"
    using rep_trip [OF r(1), of x] rep_trip [OF r(1), of y] rep_trip [OF r(2), of x] rep_trip [OF r(2), of y] by auto
  have c: "distinct (before c @ behind c)" "x \<notin> set (before c @ behind c)" "y \<notin> set (before c @ behind c)" using di by auto
  have tr: "(p, u, v) \<in> trip a \<union> trip b \<union> trip d \<union> ctrip c y \<Longrightarrow> kids ?h' p = Some (u, v)" for p u v
    using rep_trip [OF r(2), of p u v] by auto
  have "g ?h' p (g ?h' y (g ?h' x (aux s))) = g ?h' y (g ?h' x (aux s))"
    if g: "augmentation g" "settled g ?A s" and p: "p \<in> ?A" for g p
  proof -
    have st: "g ?h q (aux s) = aux s" if "q \<in> ?A" for q using g(2) that by (simp add: settled_def)
    obtain u v where t: "(p, u, v) \<in> trip (Nd a x kx (Nd b y ky d)) \<union> ctrip c x" "kids ?h p = Some (u, v)"
      using rep_kids [OF r(1) p] by auto
    have "{p, u, v} \<subseteq> insert 0 ?B" if "(p, u, v) \<in> trip a \<union> trip b \<union> trip d" using that trip_in [of p u v] by blast
    then have q: "p \<in> {x, y} \<or> kids ?h' p = Some (u, v) \<and> {x, y} \<inter> {p, u, v} = {} \<or> (p, u, v) \<in> ctrip c x"
      using t(1) o(3) tr by auto
    show ?thesis
      using augmentation.turned [OF g(1) k(3,4) _ _ o(1,2) c _ q t(2) st [OF p]] augmentation.turn_left [OF g(1) k o(1,2) o', of "aux s" p] o o' tr
        st [of x] st [of y] by (auto simp: addrs_def)
  qed
  then show ?thesis using f m unfolding steady_def settled_def by auto
qed

lemma steady_turn_right:
  assumes r: "rep s c (Nd (Nd d y ky b) x kx a)" "rep s' c (Nd d y ky (Nd b x kx a))"
    and f: "frame aug (addrs c (Nd (Nd d y ky b) x kx a)) s s'"
    and m: "\<And>g. aug = Some g \<Longrightarrow> aux s' = g (nodes s') y (g (nodes s') x (aux s))"
  shows "steady aug (addrs c (Nd (Nd d y ky b) x kx a)) s s'"
proof -
  let ?A = "addrs c (Nd (Nd d y ky b) x kx a)" and ?h = "nodes s" and ?h' = "nodes s'"
  let ?B = "set (inorder a) \<union> set (inorder b) \<union> set (inorder d)"
  have di: "distinct (before c @ inorder (Nd (Nd d y ky b) x kx a) @ behind c)" using r(1) by (simp add: rep_def)
  have o: "0 \<notin> {x, y}" "x \<noteq> y" "{x, y} \<inter> insert 0 ?B = {}"
    using di rep_not_zero [OF r(1)] by (auto simp: addrs_def)
  have o': "{x, y} \<inter> {rt a, rt b, rt d} = {}" using o(3) rt_in0 [of a] rt_in0 [of b] rt_in0 [of d] by blast
  have k: "kids ?h x = Some (y, rt a)" "kids ?h y = Some (rt d, rt b)" "kids ?h' x = Some (rt b, rt a)" "kids ?h' y = Some (rt d, x)"
    using rep_trip [OF r(1), of x] rep_trip [OF r(1), of y] rep_trip [OF r(2), of x] rep_trip [OF r(2), of y] by auto
  have c: "distinct (before c @ behind c)" "x \<notin> set (before c @ behind c)" "y \<notin> set (before c @ behind c)" using di by auto
  have tr: "(p, u, v) \<in> trip a \<union> trip b \<union> trip d \<union> ctrip c y \<Longrightarrow> kids ?h' p = Some (u, v)" for p u v
    using rep_trip [OF r(2), of p u v] by auto
  have "g ?h' p (g ?h' y (g ?h' x (aux s))) = g ?h' y (g ?h' x (aux s))"
    if g: "augmentation g" "settled g ?A s" and p: "p \<in> ?A" for g p
  proof -
    have st: "g ?h q (aux s) = aux s" if "q \<in> ?A" for q using g(2) that by (simp add: settled_def)
    obtain u v where t: "(p, u, v) \<in> trip (Nd (Nd d y ky b) x kx a) \<union> ctrip c x" "kids ?h p = Some (u, v)"
      using rep_kids [OF r(1) p] by auto
    have "{p, u, v} \<subseteq> insert 0 ?B" if "(p, u, v) \<in> trip a \<union> trip b \<union> trip d" using that trip_in [of p u v] by blast
    then have q: "p \<in> {x, y} \<or> kids ?h' p = Some (u, v) \<and> {x, y} \<inter> {p, u, v} = {} \<or> (p, u, v) \<in> ctrip c x"
      using t(1) o(3) tr by auto
    show ?thesis
      using augmentation.turned [OF g(1) k(3,4) _ _ o(1,2) c _ q t(2) st [OF p]] augmentation.turn_right [OF g(1) k o(1,2) o', of "aux s" p] o o' tr
        st [of x] st [of y] by (auto simp: addrs_def)
  qed
  then show ?thesis using f m unfolding steady_def settled_def by auto
qed

end
