(* ===== verification/Rbtree_Rotate.thy ===== *)
theory Rbtree_Rotate
  imports Rbtree_Aug
begin

text \<open>
  The rotations of \<open>libs/rbtree.c\<close> on trees in the heap: each turns one tree into the rotated one
  in the same place and changes nothing else.
\<close>

subsection \<open>Rotations\<close>

lemma tree_cong: "\<forall>p \<in> set (inorder t). h' p = h p \<Longrightarrow> tree h' t q = tree h t q"
  by (induction t arbitrary: q) auto

lemma ctx_cong:
  "\<forall>p \<in> set (before c) \<union> set (behind c). h' p = h p \<Longrightarrow> ctx_at h' c hole = ctx_at h c hole"
proof (induction c arbitrary: hole)
  case (CL c x k r)
  then show ?case using tree_cong [of r h' h x] CL.IH [of x] by (simp add: ball_Un)
next
  case (CR l x k c)
  then show ?case using tree_cong [of l h' h x] CR.IH [of x] by (simp add: ball_Un)
qed simp

lemma upd_node_Some: "node_at s p = Some n \<Longrightarrow> upd_node p f s = Some (s\<lparr>nodes := (nodes s)(p \<mapsto> f n)\<rparr>)"
  by (simp add: upd_node_def)

lemma tree_node: "tree h (Nd l x k r) q \<Longrightarrow> nodes s = h \<Longrightarrow> node_at s x = Some (mk q k (rt l) (rt r))"
  by (auto simp: node_at_def ok_def)

lemma tree_rt_zero: "tree h t q \<Longrightarrow> rt t = 0 \<longleftrightarrow> t = Lf"
  by (cases t) (auto simp: ok_def)

text \<open>A subtree gets a new parent.\<close>

lemma reparent:
  assumes "tree (nodes s) t q" "q AND 3 = 0" "distinct (inorder t)"
  shows "\<exists>h. (if rt t \<noteq> 0 then rb_set_parent (rt t) p s else Some s) = Some (s\<lparr>nodes := h\<rparr>) \<and>
    tree h t p \<and> (\<forall>a. a \<notin> set (inorder t) \<longrightarrow> h a = nodes s a)"
proof (cases t)
  case Lf
  then show ?thesis by (intro exI [of _ "nodes s"]) simp
next
  case (Nd l x k r)
  then have n: "node_at s x = Some (mk q k (rt l) (rt r))" "x \<noteq> 0"
    using assms(1) by (auto simp: node_at_def ok_def)
  have "rb_set_parent x p s = Some (s\<lparr>nodes := (nodes s)(x \<mapsto> mk p k (rt l) (rt r))\<rparr>)"
    unfolding rb_set_parent_def upd_node_Some [OF n(1)] mk_word [OF assms(2)] ..
  then show ?thesis
    using assms Nd n(2) by (intro exI [of _ "(nodes s)(x \<mapsto> mk p k (rt l) (rt r))"]) auto
qed

text \<open>The parent of a subtree, or the root, is made to point to another node.\<close>

definition relink_l :: "ptr \<Rightarrow> ptr \<Rightarrow> ptr \<Rightarrow> 'x rb_state \<Rightarrow> 'x rb_state option" where
  "relink_l parent old new s =
     (if parent \<noteq> 0
      then do { l \<leftarrow> get_left s parent;
                if old = l then set_left parent new s else set_right parent new s }
      else Some (s\<lparr>root := new\<rparr>))"

definition relink_r :: "ptr \<Rightarrow> ptr \<Rightarrow> ptr \<Rightarrow> 'x rb_state \<Rightarrow> 'x rb_state option" where
  "relink_r parent old new s =
     (if parent \<noteq> 0
      then do { r \<leftarrow> get_right s parent;
                if old = r then set_right parent new s else set_left parent new s }
      else Some (s\<lparr>root := new\<rparr>))"

lemma relink:
  assumes c: "ctx_at (nodes s) c x" "root s = croot c x" "distinct (before c @ behind c)"
    and x: "x \<noteq> 0" "x \<notin> set (before c)" "x \<notin> set (behind c)"
  shows "\<exists>h. relink_l (cpar c) x y s = Some (s\<lparr>nodes := h, root := croot c y\<rparr>) \<and>
    relink_r (cpar c) x y s = Some (s\<lparr>nodes := h, root := croot c y\<rparr>) \<and>
    ctx_at h c y \<and> (\<forall>a. a \<notin> set (before c) \<union> set (behind c) \<longrightarrow> h a = nodes s a)"
proof (cases c)
  case Top
  then show ?thesis by (intro exI [of _ "nodes s"]) (simp add: relink_l_def relink_r_def)
next
  case (CL d z k r)
  then have n: "node_at s z = Some (mk (cpar d) k x (rt r))" "z \<noteq> 0"
    using c(1) by (auto simp: node_at_def ok_def)
  have "rt r \<noteq> x" using x CL rt_in [of r] by (cases r) auto
  then have r: "relink_l z x y s = Some (s\<lparr>nodes := (nodes s)(z \<mapsto> mk (cpar d) k y (rt r))\<rparr>)"
    "relink_r z x y s = Some (s\<lparr>nodes := (nodes s)(z \<mapsto> mk (cpar d) k y (rt r))\<rparr>)"
    using n by (simp_all add: relink_l_def relink_r_def get_left_def get_right_def set_left_def
        set_right_def upd_node_Some)
  have "s\<lparr>nodes := (nodes s)(z \<mapsto> mk (cpar d) k y (rt r))\<rparr> =
      s\<lparr>nodes := (nodes s)(z \<mapsto> mk (cpar d) k y (rt r)), root := croot c y\<rparr>"
    using c(2) CL by simp
  then show ?thesis
    using r c CL n(2) by (intro exI [of _ "(nodes s)(z \<mapsto> mk (cpar d) k y (rt r))"]) auto
next
  case (CR l z k d)
  then have n: "node_at s z = Some (mk (cpar d) k (rt l) x)" "z \<noteq> 0"
    using c(1) by (auto simp: node_at_def ok_def)
  have "rt l \<noteq> x" using x CR rt_in [of l] by (cases l) auto
  then have r: "relink_l z x y s = Some (s\<lparr>nodes := (nodes s)(z \<mapsto> mk (cpar d) k (rt l) y)\<rparr>)"
    "relink_r z x y s = Some (s\<lparr>nodes := (nodes s)(z \<mapsto> mk (cpar d) k (rt l) y)\<rparr>)"
    using n by (auto simp: relink_l_def relink_r_def get_left_def get_right_def set_left_def
        set_right_def upd_node_Some)
  have "s\<lparr>nodes := (nodes s)(z \<mapsto> mk (cpar d) k (rt l) y)\<rparr> =
      s\<lparr>nodes := (nodes s)(z \<mapsto> mk (cpar d) k (rt l) y), root := croot c y\<rparr>"
    using c(2) CR by simp
  then show ?thesis
    using r c CR n(2) by (intro exI [of _ "(nodes s)(z \<mapsto> mk (cpar d) k (rt l) y)"]) auto
qed

lemma rep_intro:
  assumes "tree h t (cpar c)" "ctx_at h c (rt t)" "distinct (before c @ inorder t @ behind c)"
    "nodes s = h" "root s = croot c (rt t)"
  shows "rep s c t"
  using assms by (simp add: rep_def)

lemma rotate_left_rep:
  assumes r: "rep s c (Nd a x kx (Nd b y ky d))"
  shows "\<exists>s'. rb_rotate_left aug x s = Some s' \<and> rep s' c (Nd (Nd a x kx b) y ky d) \<and>
    steady aug (addrs c (Nd a x kx (Nd b y ky d))) s s'"
proof -
  let ?P = "cpar c"
  have P: "?P AND 3 = 0" using r by (rule rep_parent_aligned)
  have tr: "tree (nodes s) (Nd a x kx (Nd b y ky d)) ?P" and cx: "ctx_at (nodes s) c x" "root s = croot c x"
    and di: "distinct (before c @ inorder (Nd a x kx (Nd b y ky d)) @ behind c)"
    using r by (auto simp: rep_def)
  have x: "x \<noteq> 0" "x AND 3 = 0" "y \<noteq> 0" "y AND 3 = 0" using tr by (auto simp: ok_def)
  note rx = rep_fields [OF r]
  have ry: "rep s (CR a x kx c) (Nd b y ky d)" using r by (simp add: rep_CR)
  define s1 where "s1 = s\<lparr>nodes := (nodes s)(x \<mapsto> mk ?P kx (rt a) (rt b))\<rparr>"
  have 1: "set_right x (rt b) s = Some s1"
    unfolding set_right_def upd_node_Some [OF rep_node(1) [OF r]] s1_def by simp
  have "tree (nodes s1) b y" "distinct (inorder b)" using tr di by (auto simp: s1_def)
  then obtain h2 where h2: "(if rt b \<noteq> 0 then rb_set_parent (rt b) x s1 else Some s1) = Some (s1\<lparr>nodes := h2\<rparr>)"
    "tree h2 b x" "\<forall>p. p \<notin> set (inorder b) \<longrightarrow> h2 p = nodes s1 p"
    using reparent [of s1 b y x] x(4) by auto
  define s3 where "s3 = s1\<lparr>nodes := h2(y \<mapsto> mk x ky x (rt d))\<rparr>"
  have "node_at (s1\<lparr>nodes := h2\<rparr>) y = Some (mk x ky (rt b) (rt d))"
    using tr di h2(3) x by (auto simp: node_at_def s1_def)
  then have 3: "set_left y x (s1\<lparr>nodes := h2\<rparr>) = Some s3"
    unfolding set_left_def by (simp add: upd_node_Some s3_def)
  define s4 where "s4 = s1\<lparr>nodes := h2(y \<mapsto> mk ?P ky x (rt d))\<rparr>"
  have "node_at s3 y = Some (mk x ky x (rt d))" using x by (simp add: node_at_def s3_def)
  then have 4: "rb_set_parent y ?P s3 = Some s4"
    unfolding rb_set_parent_def by (simp add: upd_node_Some mk_word(3) [OF x(2)]) (simp add: s3_def s4_def)
  have e4: "nodes s4 p = nodes s p" if "p \<noteq> x" "p \<noteq> y" "p \<notin> set (inorder b)" for p
    using that h2(3) by (simp add: s4_def s1_def)
  have "\<forall>p \<in> set (before c) \<union> set (behind c). nodes s4 p = nodes s p"
    using di by (intro ballI e4) auto
  then have c4: "ctx_at (nodes s4) c x" "root s4 = croot c x"
    using cx ctx_cong [of c "nodes s4" "nodes s" x] by (simp_all add: s4_def s1_def)
  have dc: "distinct (before c @ behind c)" "x \<notin> set (before c)" "x \<notin> set (behind c)" using di by auto
  obtain h5 where h5: "relink_l ?P x y s4 = Some (s4\<lparr>nodes := h5, root := croot c y\<rparr>)"
    "ctx_at h5 c y" "\<forall>p. p \<notin> set (before c) \<union> set (behind c) \<longrightarrow> h5 p = nodes s4 p"
    using relink [OF c4 dc(1) x(1) dc(2,3), of y] by blast
  define s6 where "s6 = s4\<lparr>nodes := h5(x \<mapsto> mk y kx (rt a) (rt b)), root := croot c y\<rparr>"
  have "h5 x = Some (mk ?P kx (rt a) (rt b))"
    using h5(3) h2(3) di by (auto simp: s4_def s1_def)
  then have "node_at (s4\<lparr>nodes := h5, root := croot c y\<rparr>) x = Some (mk ?P kx (rt a) (rt b))"
    using x by (simp add: node_at_def)
  then have 6: "rb_set_parent x y (s4\<lparr>nodes := h5, root := croot c y\<rparr>) = Some s6"
    unfolding rb_set_parent_def by (simp add: upd_node_Some mk_word(3) [OF P]) (simp add: s6_def)
  have e6: "nodes s6 p = nodes s4 p" if "p \<noteq> x" "p \<notin> set (before c)" "p \<notin> set (behind c)" for p
    using that h5(3) by (simp add: s6_def)
  have same: "nodes s6 p = nodes s p" if "p \<notin> addrs c (Nd a x kx (Nd b y ky d))" for p
    using that e6 [of p] e4 [of p] by (auto simp: addrs_def)
  have "\<forall>p \<in> set (inorder a) \<union> set (inorder d). nodes s6 p = nodes s p"
    using di by (intro ballI trans [OF e6 e4]) auto
  moreover have "\<forall>p \<in> set (inorder b). nodes s6 p = h2 p"
    using di by (intro ballI trans [OF e6]) (auto simp: s4_def)
  ultimately have "tree (nodes s6) a x" "tree (nodes s6) d y" "tree (nodes s6) b x"
    using tr h2(2) tree_cong [of a "nodes s6" "nodes s" x] tree_cong [of d "nodes s6" "nodes s" y]
      tree_cong [of b "nodes s6" h2 x] by (simp_all add: ball_Un)
  moreover have "nodes s6 x = Some (mk y kx (rt a) (rt b))" "nodes s6 y = Some (mk ?P ky x (rt d))"
    using h5(3) di by (auto simp: s6_def s4_def)
  ultimately have "tree (nodes s6) (Nd (Nd a x kx b) y ky d) ?P" using tr by auto
  moreover have "ctx_at (nodes s6) c y" using h5(2) di by (simp add: s6_def)
  ultimately have rep6: "rep s6 c (Nd (Nd a x kx b) y ky d)"
    using di by (intro rep_intro [of "nodes s6"]) (auto simp: s6_def)
  then have rep': "rep (call_augment aug y (call_augment aug x s6)) c (Nd (Nd a x kx b) y ky d)"
    by (simp add: rep_def)
  have "rb_rotate_left aug x s = Some (call_augment aug y (call_augment aug x s6))"
    using 1 h2(1) 3 4 h5(1) 6 unfolding rb_rotate_left_def relink_l_def [symmetric]
    by (simp add: rx rep_fields [OF ry])
  moreover have "frame aug (addrs c (Nd (Nd a x kx b) y ky d)) s s6" "aux s6 = aux s"
    using same by (simp_all add: frame_def addrs_def s6_def s4_def s1_def)
  then have "frame aug (addrs c (Nd (Nd a x kx b) y ky d)) s (call_augment aug y (call_augment aug x s6))"
    using rep6 by (intro frame_call) (auto simp: addrs_def rep_def)
  then have "steady aug (addrs c (Nd a x kx (Nd b y ky d))) s (call_augment aug y (call_augment aug x s6))"
    using steady_turn_left [OF r rep', of aug] \<open>aux s6 = aux s\<close> by (auto simp: addrs_def call_augment_def)
  ultimately show ?thesis using rep' by blast
qed

lemma rotate_right_rep:
  assumes r: "rep s c (Nd (Nd d y ky b) x kx a)"
  shows "\<exists>s'. rb_rotate_right aug x s = Some s' \<and> rep s' c (Nd d y ky (Nd b x kx a)) \<and>
    steady aug (addrs c (Nd (Nd d y ky b) x kx a)) s s'"
proof -
  let ?P = "cpar c"
  have P: "?P AND 3 = 0" using r by (rule rep_parent_aligned)
  have tr: "tree (nodes s) (Nd (Nd d y ky b) x kx a) ?P" and cx: "ctx_at (nodes s) c x" "root s = croot c x"
    and di: "distinct (before c @ inorder (Nd (Nd d y ky b) x kx a) @ behind c)"
    using r by (auto simp: rep_def)
  have x: "x \<noteq> 0" "x AND 3 = 0" "y \<noteq> 0" "y AND 3 = 0" using tr by (auto simp: ok_def)
  note rx = rep_fields [OF r]
  have ry: "rep s (CL c x kx a) (Nd d y ky b)" using r by (simp add: rep_CL)
  define s1 where "s1 = s\<lparr>nodes := (nodes s)(x \<mapsto> mk ?P kx (rt b) (rt a))\<rparr>"
  have 1: "set_left x (rt b) s = Some s1"
    unfolding set_left_def upd_node_Some [OF rep_node(1) [OF r]] s1_def by simp
  have "tree (nodes s1) b y" "distinct (inorder b)" using tr di by (auto simp: s1_def)
  then obtain h2 where h2: "(if rt b \<noteq> 0 then rb_set_parent (rt b) x s1 else Some s1) = Some (s1\<lparr>nodes := h2\<rparr>)"
    "tree h2 b x" "\<forall>p. p \<notin> set (inorder b) \<longrightarrow> h2 p = nodes s1 p"
    using reparent [of s1 b y x] x(4) by auto
  define s3 where "s3 = s1\<lparr>nodes := h2(y \<mapsto> mk x ky (rt d) x)\<rparr>"
  have "node_at (s1\<lparr>nodes := h2\<rparr>) y = Some (mk x ky (rt d) (rt b))"
    using tr di h2(3) x by (auto simp: node_at_def s1_def)
  then have 3: "set_right y x (s1\<lparr>nodes := h2\<rparr>) = Some s3"
    unfolding set_right_def by (simp add: upd_node_Some s3_def)
  define s4 where "s4 = s1\<lparr>nodes := h2(y \<mapsto> mk ?P ky (rt d) x)\<rparr>"
  have "node_at s3 y = Some (mk x ky (rt d) x)" using x by (simp add: node_at_def s3_def)
  then have 4: "rb_set_parent y ?P s3 = Some s4"
    unfolding rb_set_parent_def by (simp add: upd_node_Some mk_word(3) [OF x(2)]) (simp add: s3_def s4_def)
  have e4: "nodes s4 p = nodes s p" if "p \<noteq> x" "p \<noteq> y" "p \<notin> set (inorder b)" for p
    using that h2(3) by (simp add: s4_def s1_def)
  have "\<forall>p \<in> set (before c) \<union> set (behind c). nodes s4 p = nodes s p"
    using di by (intro ballI e4) auto
  then have c4: "ctx_at (nodes s4) c x" "root s4 = croot c x"
    using cx ctx_cong [of c "nodes s4" "nodes s" x] by (simp_all add: s4_def s1_def)
  have dc: "distinct (before c @ behind c)" "x \<notin> set (before c)" "x \<notin> set (behind c)" using di by auto
  obtain h5 where h5: "relink_r ?P x y s4 = Some (s4\<lparr>nodes := h5, root := croot c y\<rparr>)"
    "ctx_at h5 c y" "\<forall>p. p \<notin> set (before c) \<union> set (behind c) \<longrightarrow> h5 p = nodes s4 p"
    using relink [OF c4 dc(1) x(1) dc(2,3), of y] by blast
  define s6 where "s6 = s4\<lparr>nodes := h5(x \<mapsto> mk y kx (rt b) (rt a)), root := croot c y\<rparr>"
  have "h5 x = Some (mk ?P kx (rt b) (rt a))"
    using h5(3) h2(3) di by (auto simp: s4_def s1_def)
  then have "node_at (s4\<lparr>nodes := h5, root := croot c y\<rparr>) x = Some (mk ?P kx (rt b) (rt a))"
    using x by (simp add: node_at_def)
  then have 6: "rb_set_parent x y (s4\<lparr>nodes := h5, root := croot c y\<rparr>) = Some s6"
    unfolding rb_set_parent_def by (simp add: upd_node_Some mk_word(3) [OF P]) (simp add: s6_def)
  have e6: "nodes s6 p = nodes s4 p" if "p \<noteq> x" "p \<notin> set (before c)" "p \<notin> set (behind c)" for p
    using that h5(3) by (simp add: s6_def)
  have same: "nodes s6 p = nodes s p" if "p \<notin> addrs c (Nd (Nd d y ky b) x kx a)" for p
    using that e6 [of p] e4 [of p] by (auto simp: addrs_def)
  have "\<forall>p \<in> set (inorder a) \<union> set (inorder d). nodes s6 p = nodes s p"
    using di by (intro ballI trans [OF e6 e4]) auto
  moreover have "\<forall>p \<in> set (inorder b). nodes s6 p = h2 p"
    using di by (intro ballI trans [OF e6]) (auto simp: s4_def)
  ultimately have "tree (nodes s6) a x" "tree (nodes s6) d y" "tree (nodes s6) b x"
    using tr h2(2) tree_cong [of a "nodes s6" "nodes s" x] tree_cong [of d "nodes s6" "nodes s" y]
      tree_cong [of b "nodes s6" h2 x] by (simp_all add: ball_Un)
  moreover have "nodes s6 x = Some (mk y kx (rt b) (rt a))" "nodes s6 y = Some (mk ?P ky (rt d) x)"
    using h5(3) di by (auto simp: s6_def s4_def)
  ultimately have "tree (nodes s6) (Nd d y ky (Nd b x kx a)) ?P" using tr by auto
  moreover have "ctx_at (nodes s6) c y" using h5(2) di by (simp add: s6_def)
  ultimately have rep6: "rep s6 c (Nd d y ky (Nd b x kx a))"
    using di by (intro rep_intro [of "nodes s6"]) (auto simp: s6_def)
  then have rep': "rep (call_augment aug y (call_augment aug x s6)) c (Nd d y ky (Nd b x kx a))"
    by (simp add: rep_def)
  have "rb_rotate_right aug x s = Some (call_augment aug y (call_augment aug x s6))"
    using 1 h2(1) 3 4 h5(1) 6 unfolding rb_rotate_right_def relink_r_def [symmetric]
    by (simp add: rx rep_fields [OF ry])
  moreover have "frame aug (addrs c (Nd d y ky (Nd b x kx a))) s s6" "aux s6 = aux s"
    using same by (simp_all add: frame_def addrs_def s6_def s4_def s1_def)
  then have "frame aug (addrs c (Nd d y ky (Nd b x kx a))) s (call_augment aug y (call_augment aug x s6))"
    using rep6 by (intro frame_call) (auto simp: addrs_def rep_def)
  then have "steady aug (addrs c (Nd (Nd d y ky b) x kx a)) s (call_augment aug y (call_augment aug x s6))"
    using steady_turn_right [OF r rep', of aug] \<open>aux s6 = aux s\<close> by (auto simp: addrs_def call_augment_def)
  ultimately show ?thesis using rep' by blast
qed

end
