(* ===== verification/Rbtree_Insert.thy ===== *)
theory Rbtree_Insert
  imports Rbtree_Rotate
begin

text \<open>
  \<open>rb_insert_color\<close> of \<open>libs/rbtree.c\<close>: the rebalancing loop after a new red leaf has been linked in.
\<close>

subsection \<open>Insertion\<close>

text \<open>The whole tree as a list of addresses, from a position in it.\<close>

definition walk :: "ctx \<Rightarrow> rbt \<Rightarrow> ptr list" where
  "walk c t = before c @ inorder t @ behind c"

lemma walk_simps [simp]:
  "walk (CL c x k r) t = walk c (Nd t x k r)" "walk (CR l x k c) t = walk c (Nd l x k t)"
  "walk Top t = inorder t"
  by (simp_all add: walk_def)

lemma walk_cong: "inorder t = inorder t' \<Longrightarrow> walk c t = walk c t'"
  by (simp add: walk_def)

lemma addrs_walk: "addrs c t = set (walk c t)"
  by (simp add: addrs_def walk_def)

lemma upd_node_aux: "upd_node p f s = Some s' \<Longrightarrow> aux s' = aux s"
  by (auto simp: upd_node_def split: option.splits)

lemma steady_recolor:
  assumes "rep s c (Nd l x k r)" "rep s' c (Nd l x k' r)" "frame aug (set (walk c (Nd l x k r))) s s'" "aux s' = aux s"
  shows "steady aug (set (walk c (Nd l x k r))) s s'"
  using steady_same [OF assms(1,2), of aug] assms(3,4) by (simp add: addrs_walk)

lemma rep_black:
  assumes "rep s c (Nd l x k r)"
  obtains s' where "rb_set_black x s = Some s'" "rep s' c (Nd l x Black r)"
    "steady aug (set (walk c (Nd l x k r))) s s'"
proof -
  obtain s' where s': "rb_set_black x s = Some s'" "rep s' c (Nd l x Black r)" "frame aug (set (walk c (Nd l x k r))) s s'"
    using rep_set_black [OF assms, of aug] unfolding addrs_walk by blast
  then show thesis using that steady_recolor [OF assms s'(2,3)] upd_node_aux s'(1) [unfolded rb_set_black_def] by blast
qed

lemma rep_red:
  assumes "rep s c (Nd l x k r)"
  obtains s' where "rb_set_red x s = Some s'" "rep s' c (Nd l x Red r)"
    "steady aug (set (walk c (Nd l x k r))) s s'"
proof -
  obtain s' where s': "rb_set_red x s = Some s'" "rep s' c (Nd l x Red r)" "frame aug (set (walk c (Nd l x k r))) s s'"
    using rep_set_red [OF assms, of aug] unfolding addrs_walk by blast
  then show thesis using that steady_recolor [OF assms s'(2,3)] upd_node_aux s'(1) [unfolded rb_set_red_def] by blast
qed

lemma rep_rotate_left:
  assumes "rep s c (Nd a x kx (Nd b y ky d))"
  obtains s' where "rb_rotate_left aug x s = Some s'" "rep s' c (Nd (Nd a x kx b) y ky d)"
    "steady aug (set (walk c (Nd a x kx (Nd b y ky d)))) s s'"
  using rotate_left_rep [OF assms, of aug] unfolding addrs_walk by blast

lemma rep_rotate_right:
  assumes "rep s c (Nd (Nd d y ky b) x kx a)"
  obtains s' where "rb_rotate_right aug x s = Some s'" "rep s' c (Nd d y ky (Nd b x kx a))"
    "steady aug (set (walk c (Nd (Nd d y ky b) x kx a))) s s'"
  using rotate_right_rep [OF assms, of aug] unfolding addrs_walk by blast

fun phue :: "ctx \<Rightarrow> color" where
  "phue Top = Black"
| "phue (CL c x k r) = k"
| "phue (CR l x k c) = k"

lemma rep_parent_hue: "rep s c t \<Longrightarrow> red_child s (cpar c) = Some (phue c = Red)"
proof (cases c)
  case (CL d x k r)
  assume "rep s c t"
  then have "rep s d (Nd t x k r)" using CL by (simp add: rep_CL)
  then show ?thesis using rep_child(1) CL by fastforce
next
  case (CR l x k d)
  assume "rep s c t"
  then have "rep s d (Nd l x k t)" using CR by (simp add: rep_CR)
  then show ?thesis using rep_child(1) CR by fastforce
qed (simp add: red_child_def)

lemma insert_exit:
  assumes "rep s c (Nd l x k r)" "phue c = Black"
  shows "rb_insert_loop aug x s = Some s"
  using rep_fields [OF assms(1)] rep_parent_hue [OF assms(1)] assms(2)
  by (subst rb_insert_loop.simps) simp

lemma cinvc_black: "cinvc c h \<Longrightarrow> cinvc c Black"
  by (cases c) auto

lemma rep_left_differs: "rep s c (Nd l x k r) \<Longrightarrow> l \<noteq> Lf \<Longrightarrow> rt r \<noteq> rt l"
  using rep_siblings [of s c l x k r] rep_rt_zero [of s "CL c x k r" l] by (cases r) (auto simp: rep_CL)

text \<open>The state an operation leaves: a tree over the list \<open>L\<close> that keeps both red-black conditions.\<close>

definition fixed :: "'x rb_augment \<Rightarrow> ptr list \<Rightarrow> 'x rb_state \<Rightarrow> 'x rb_state \<Rightarrow> bool" where
  "fixed aug L s s' \<longleftrightarrow> steady aug (set L) s s' \<and>
     (\<exists>t. rep s' Top t \<and> inorder t = L \<and> invc t \<and> (\<exists>n. bal t n))"

lemma fixedI:
  assumes "rep s' c t" "walk c t = L" "invc t" "cinvc c (hue t)" "bal t n" "cbal c n" "steady aug (set L) s s'"
  shows "fixed aug L s s'"
proof -
  have "rep s' Top (plug c t)" using assms(1) by (simp add: rep_plug)
  moreover have "inorder (plug c t) = L" using assms(2) by (simp add: inorder_plug walk_def)
  moreover have "invc (plug c t)" using assms by (simp add: invc_plug)
  moreover have "\<exists>m. bal (plug c t) m" using assms bal_plug by blast
  ultimately show ?thesis using assms(7) unfolding fixed_def by blast
qed

lemma fixed_trans: "steady aug (set L) s s' \<Longrightarrow> fixed aug L s' s'' \<Longrightarrow> fixed aug L s s''"
  unfolding fixed_def using steady_trans by blast

fun depth :: "ctx \<Rightarrow> nat" where
  "depth Top = 0"
| "depth (CL c x k r) = depth c + 1"
| "depth (CR l x k c) = depth c + 1"

text \<open>One round with a red uncle: both sides lose their red, the grandparent becomes red.\<close>

lemma insert_recolor_left:
  assumes rp: "rep s (CL e g Black v) (Nd pl p Red pr)" and x: "rb_parent s x = Some p" and v: "hue v = Red"
  shows "\<exists>s' v'. rb_insert_loop aug x s = rb_insert_loop aug g s' \<and>
    rep s' e (Nd (Nd pl p Black pr) g Red (v' :: rbt)) \<and>
    steady aug (set (walk e (Nd (Nd pl p Red pr) g Black v))) s s' \<and>
    inorder v' = inorder v \<and> (invc v \<longrightarrow> invc v') \<and> hue v' = Black \<and> (\<forall>n. bal v n \<longrightarrow> bal v' (n + 1))"
proof -
  obtain va y vb where vv: "v = Nd va y Red vb" using v by (cases v) auto
  have rg: "rep s e (Nd (Nd pl p Red pr) g Black v)" and
    rv: "rep s (CR (Nd pl p Red pr) g Black e) (Nd va y Red vb)"
    using rp vv by (simp_all add: rep_CL rep_CR)
  obtain s1 where s1: "rb_set_black y s = Some s1" "rep s1 (CR (Nd pl p Red pr) g Black e) (Nd va y Black vb)"
    "steady aug (set (walk (CR (Nd pl p Red pr) g Black e) (Nd va y Red vb))) s s1"
    using rep_black [OF rv] .
  have "rep s1 (CL e g Black (Nd va y Black vb)) (Nd pl p Red pr)"
    using s1(2) by (simp add: rep_CL rep_CR)
  then obtain s2 where s2: "rb_set_black p s1 = Some s2"
    "rep s2 (CL e g Black (Nd va y Black vb)) (Nd pl p Black pr)"
    "steady aug (set (walk (CL e g Black (Nd va y Black vb)) (Nd pl p Red pr))) s1 s2"
    by (rule rep_black)
  have "rep s2 e (Nd (Nd pl p Black pr) g Black (Nd va y Black vb))"
    using s2(2) by (simp add: rep_CL)
  then obtain s3 where s3: "rb_set_red g s2 = Some s3"
    "rep s3 e (Nd (Nd pl p Black pr) g Red (Nd va y Black vb))"
    "steady aug (set (walk e (Nd (Nd pl p Black pr) g Black (Nd va y Black vb)))) s2 s3"
    by (rule rep_red)
  have "steady aug (set (walk e (Nd (Nd pl p Red pr) g Black v))) s s3"
    using s1(3) s2(3) s3(3) vv by (simp add: walk_def) (meson steady_trans)
  moreover have "rb_insert_loop aug x s = rb_insert_loop aug g s3"
    using s1(1) s2(1) s3(1) x rep_fields [OF rp] rep_fields [OF rg] rep_child(1) [OF rp]
      rep_child(1) [OF rv] vv
    by (subst rb_insert_loop.simps) simp
  ultimately show ?thesis
    using s3(2) vv by (intro exI [of _ s3] exI [of _ "Nd va y Black vb"]) simp
qed

lemma insert_recolor_right:
  assumes rp: "rep s (CR v g Black e) (Nd pr p Red pl)" and x: "rb_parent s x = Some p" and v: "hue v = Red"
  shows "\<exists>s' v'. rb_insert_loop aug x s = rb_insert_loop aug g s' \<and>
    rep s' e (Nd (v' :: rbt) g Red (Nd pr p Black pl)) \<and>
    steady aug (set (walk e (Nd v g Black (Nd pr p Red pl)))) s s' \<and>
    inorder v' = inorder v \<and> (invc v \<longrightarrow> invc v') \<and> hue v' = Black \<and> (\<forall>n. bal v n \<longrightarrow> bal v' (n + 1))"
proof -
  obtain va y vb where vv: "v = Nd vb y Red va" using v by (cases v) auto
  have rg: "rep s e (Nd v g Black (Nd pr p Red pl))" and
    rv: "rep s (CL e g Black (Nd pr p Red pl)) (Nd vb y Red va)"
    using rp vv by (simp_all add: rep_CR rep_CL)
  obtain s1 where s1: "rb_set_black y s = Some s1" "rep s1 (CL e g Black (Nd pr p Red pl)) (Nd vb y Black va)"
    "steady aug (set (walk (CL e g Black (Nd pr p Red pl)) (Nd vb y Red va))) s s1"
    using rep_black [OF rv] .
  have "rep s1 (CR (Nd vb y Black va) g Black e) (Nd pr p Red pl)"
    using s1(2) by (simp add: rep_CR rep_CL)
  then obtain s2 where s2: "rb_set_black p s1 = Some s2"
    "rep s2 (CR (Nd vb y Black va) g Black e) (Nd pr p Black pl)"
    "steady aug (set (walk (CR (Nd vb y Black va) g Black e) (Nd pr p Red pl))) s1 s2"
    by (rule rep_black)
  have "rep s2 e (Nd (Nd vb y Black va) g Black (Nd pr p Black pl))"
    using s2(2) by (simp add: rep_CR)
  then obtain s3 where s3: "rb_set_red g s2 = Some s3"
    "rep s3 e (Nd (Nd vb y Black va) g Red (Nd pr p Black pl))"
    "steady aug (set (walk e (Nd (Nd vb y Black va) g Black (Nd pr p Black pl)))) s2 s3"
    by (rule rep_red)
  have "steady aug (set (walk e (Nd v g Black (Nd pr p Red pl)))) s s3"
    using s1(3) s2(3) s3(3) vv by (simp add: walk_def) (meson steady_trans)
  moreover have "rb_insert_loop aug x s = rb_insert_loop aug g s3"
    using s1(1) s2(1) s3(1) x rep_fields [OF rp] rep_fields [OF rg] rep_child(1) [OF rp]
      rep_child(1) [OF rv] rep_siblings [OF rg] vv
    by (subst rb_insert_loop.simps) simp
  ultimately show ?thesis
    using s3(2) vv by (intro exI [of _ s3] exI [of _ "Nd vb y Black va"]) simp
qed

text \<open>The last round with a black uncle: recolour and rotate at the grandparent.\<close>

lemma insert_rotate_right:
  assumes rq: "rep s (CL e g Black v) (Nd (Nd a y k b) q Red B)"
  shows "\<exists>s'. (do { s \<leftarrow> rb_set_black q s; s \<leftarrow> rb_set_red g s; s \<leftarrow> rb_rotate_right aug g s;
                    rb_insert_loop aug y s }) = Some s' \<and>
    rep s' e (Nd (Nd a y k b) q Black (Nd B g Red v)) \<and>
    steady aug (set (walk e (Nd (Nd (Nd a y k b) q Red B) g Black v))) s s'"
proof -
  let ?A = "Nd a y k b"
  obtain s1 where s1: "rb_set_black q s = Some s1" "rep s1 (CL e g Black v) (Nd ?A q Black B)"
    "steady aug (set (walk (CL e g Black v) (Nd ?A q Red B))) s s1"
    using rep_black [OF rq] .
  have "rep s1 e (Nd (Nd ?A q Black B) g Black v)" using s1(2) by (simp add: rep_CL)
  then obtain s2 where s2: "rb_set_red g s1 = Some s2" "rep s2 e (Nd (Nd ?A q Black B) g Red v)"
    "steady aug (set (walk e (Nd (Nd ?A q Black B) g Black v))) s1 s2"
    by (rule rep_red)
  obtain s3 where s3: "rb_rotate_right aug g s2 = Some s3" "rep s3 e (Nd ?A q Black (Nd B g Red v))"
    "steady aug (set (walk e (Nd (Nd ?A q Black B) g Red v))) s2 s3"
    using rep_rotate_right [OF s2(2)] .
  have "rep s3 (CL e q Black (Nd B g Red v)) (Nd a y k b)" using s3(2) by (simp add: rep_CL)
  then have "rb_insert_loop aug y s3 = Some s3" by (rule insert_exit) simp
  moreover have "steady aug (set (walk e (Nd (Nd ?A q Red B) g Black v))) s s3"
    using s1(3) s2(3) s3(3) by (simp add: walk_def) (meson steady_trans)
  ultimately show ?thesis using s1(1) s2(1) s3(1,2) by (intro exI [of _ s3]) simp
qed

lemma insert_rotate_left:
  assumes rq: "rep s (CR v g Black e) (Nd B q Red (Nd b y k a))"
  shows "\<exists>s'. (do { s \<leftarrow> rb_set_black q s; s \<leftarrow> rb_set_red g s; s \<leftarrow> rb_rotate_left aug g s;
                    rb_insert_loop aug y s }) = Some s' \<and>
    rep s' e (Nd (Nd v g Red B) q Black (Nd b y k a)) \<and>
    steady aug (set (walk e (Nd v g Black (Nd B q Red (Nd b y k a))))) s s'"
proof -
  let ?A = "Nd b y k a"
  obtain s1 where s1: "rb_set_black q s = Some s1" "rep s1 (CR v g Black e) (Nd B q Black ?A)"
    "steady aug (set (walk (CR v g Black e) (Nd B q Red ?A))) s s1"
    using rep_black [OF rq] .
  have "rep s1 e (Nd v g Black (Nd B q Black ?A))" using s1(2) by (simp add: rep_CR)
  then obtain s2 where s2: "rb_set_red g s1 = Some s2" "rep s2 e (Nd v g Red (Nd B q Black ?A))"
    "steady aug (set (walk e (Nd v g Black (Nd B q Black ?A)))) s1 s2"
    by (rule rep_red)
  obtain s3 where s3: "rb_rotate_left aug g s2 = Some s3" "rep s3 e (Nd (Nd v g Red B) q Black ?A)"
    "steady aug (set (walk e (Nd v g Red (Nd B q Black ?A)))) s2 s3"
    using rep_rotate_left [OF s2(2)] .
  have "rep s3 (CR (Nd v g Red B) q Black e) (Nd b y k a)" using s3(2) by (simp add: rep_CR)
  then have "rb_insert_loop aug y s3 = Some s3" by (rule insert_exit) simp
  moreover have "steady aug (set (walk e (Nd v g Black (Nd B q Red ?A)))) s s3"
    using s1(3) s2(3) s3(3) by (simp add: walk_def) (meson steady_trans)
  ultimately show ?thesis using s1(1) s2(1) s3(1,2) by (intro exI [of _ s3]) simp
qed

lemma insert_outer_left:
  assumes rp: "rep s (CL e g Black v) (Nd (Nd a x k b) p Red pr)" and v: "hue v = Black"
  shows "\<exists>s'. rb_insert_loop aug x s = Some s' \<and> rep s' e (Nd (Nd a x k b) p Black (Nd pr g Red v)) \<and>
    steady aug (set (walk e (Nd (Nd (Nd a x k b) p Red pr) g Black v))) s s'"
proof -
  have rx: "rep s (CL (CL e g Black v) p Red pr) (Nd a x k b)" and
    rg: "rep s e (Nd (Nd (Nd a x k b) p Red pr) g Black v)" and
    rv: "rep s (CR (Nd (Nd a x k b) p Red pr) g Black e) v"
    using rp by (simp_all add: rep_CL rep_CR)
  have "rt pr \<noteq> x" using rep_left_differs [OF rp] by simp
  then have "rb_insert_loop aug x s =
      do { s \<leftarrow> rb_set_black p s; s \<leftarrow> rb_set_red g s; s \<leftarrow> rb_rotate_right aug g s;
           rb_insert_loop aug x s }"
    using rep_fields [OF rx] rep_fields [OF rp] rep_fields [OF rg] rep_child(1) [OF rp] rep_child(1) [OF rv] v
    by (subst rb_insert_loop.simps) simp
  then show ?thesis using insert_rotate_right [OF rp, of aug] by simp
qed

lemma insert_inner_left:
  assumes rp: "rep s (CL e g Black v) (Nd pl p Red (Nd a x Red b))" and v: "hue v = Black"
  shows "\<exists>s'. rb_insert_loop aug x s = Some s' \<and>
    rep s' e (Nd (Nd pl p Red a) x Black (Nd b g Red v)) \<and>
    steady aug (set (walk e (Nd (Nd pl p Red (Nd a x Red b)) g Black v))) s s'"
proof -
  have rx: "rep s (CR pl p Red (CL e g Black v)) (Nd a x Red b)" and
    rg: "rep s e (Nd (Nd pl p Red (Nd a x Red b)) g Black v)" and
    rv: "rep s (CR (Nd pl p Red (Nd a x Red b)) g Black e) v"
    using rp by (simp_all add: rep_CL rep_CR)
  obtain s1 where s1: "rb_rotate_left aug p s = Some s1" "rep s1 (CL e g Black v) (Nd (Nd pl p Red a) x Red b)"
    "steady aug (set (walk (CL e g Black v) (Nd pl p Red (Nd a x Red b)))) s s1"
    using rep_rotate_left [OF rp] .
  obtain s2 where s2: "do { s \<leftarrow> rb_set_black x s1; s \<leftarrow> rb_set_red g s; s \<leftarrow> rb_rotate_right aug g s;
           rb_insert_loop aug p s } = Some s2" "rep s2 e (Nd (Nd pl p Red a) x Black (Nd b g Red v))"
    "steady aug (set (walk e (Nd (Nd (Nd pl p Red a) x Red b) g Black v))) s1 s2"
    using insert_rotate_right [OF s1(2), of aug] by blast
  have "rb_insert_loop aug x s = Some s2"
    using rep_fields [OF rx] rep_fields [OF rp] rep_fields [OF rg] rep_child(1) [OF rp] rep_child(1) [OF rv]
      v s1(1) s2(1)
    by (subst rb_insert_loop.simps) simp
  moreover have "steady aug (set (walk e (Nd (Nd pl p Red (Nd a x Red b)) g Black v))) s s2"
    using s1(3) s2(3) by (simp add: walk_def) (meson steady_trans)
  ultimately show ?thesis using s2(2) by blast
qed

lemma insert_outer_right:
  assumes rp: "rep s (CR v g Black e) (Nd pr p Red (Nd b x k a))" and v: "hue v = Black"
  shows "\<exists>s'. rb_insert_loop aug x s = Some s' \<and> rep s' e (Nd (Nd v g Red pr) p Black (Nd b x k a)) \<and>
    steady aug (set (walk e (Nd v g Black (Nd pr p Red (Nd b x k a))))) s s'"
proof -
  have rx: "rep s (CR pr p Red (CR v g Black e)) (Nd b x k a)" and
    rg: "rep s e (Nd v g Black (Nd pr p Red (Nd b x k a)))" and
    rv: "rep s (CL e g Black (Nd pr p Red (Nd b x k a))) v"
    using rp by (simp_all add: rep_CR rep_CL)
  have "rt pr \<noteq> x" "rt v \<noteq> p" using rep_siblings [OF rp] rep_siblings [OF rg] by simp_all
  then have "rb_insert_loop aug x s =
      do { s \<leftarrow> rb_set_black p s; s \<leftarrow> rb_set_red g s; s \<leftarrow> rb_rotate_left aug g s;
           rb_insert_loop aug x s }"
    using rep_fields [OF rx] rep_fields [OF rp] rep_fields [OF rg] rep_child(1) [OF rp] rep_child(1) [OF rv] v
    by (subst rb_insert_loop.simps) simp
  then show ?thesis using insert_rotate_left [OF rp, of aug] by simp
qed

lemma insert_inner_right:
  assumes rp: "rep s (CR v g Black e) (Nd (Nd b x Red a) p Red pl)" and v: "hue v = Black"
  shows "\<exists>s'. rb_insert_loop aug x s = Some s' \<and>
    rep s' e (Nd (Nd v g Red b) x Black (Nd a p Red pl)) \<and>
    steady aug (set (walk e (Nd v g Black (Nd (Nd b x Red a) p Red pl)))) s s'"
proof -
  have rx: "rep s (CL (CR v g Black e) p Red pl) (Nd b x Red a)" and
    rg: "rep s e (Nd v g Black (Nd (Nd b x Red a) p Red pl))" and
    rv: "rep s (CL e g Black (Nd (Nd b x Red a) p Red pl)) v"
    using rp by (simp_all add: rep_CR rep_CL)
  obtain s1 where s1: "rb_rotate_right aug p s = Some s1" "rep s1 (CR v g Black e) (Nd b x Red (Nd a p Red pl))"
    "steady aug (set (walk (CR v g Black e) (Nd (Nd b x Red a) p Red pl))) s s1"
    using rep_rotate_right [OF rp] .
  obtain s2 where s2: "do { s \<leftarrow> rb_set_black x s1; s \<leftarrow> rb_set_red g s; s \<leftarrow> rb_rotate_left aug g s;
           rb_insert_loop aug p s } = Some s2" "rep s2 e (Nd (Nd v g Red b) x Black (Nd a p Red pl))"
    "steady aug (set (walk e (Nd v g Black (Nd b x Red (Nd a p Red pl))))) s1 s2"
    using insert_rotate_left [OF s1(2), of aug] by blast
  have "rb_insert_loop aug x s = Some s2"
    using rep_fields [OF rx] rep_fields [OF rp] rep_fields [OF rg] rep_child(1) [OF rp] rep_child(1) [OF rv]
      rep_siblings [OF rg] v s1(1) s2(1)
    by (subst rb_insert_loop.simps) simp
  moreover have "steady aug (set (walk e (Nd v g Black (Nd (Nd b x Red a) p Red pl)))) s s2"
    using s1(3) s2(3) by (simp add: walk_def) (meson steady_trans)
  ultimately show ?thesis using s2(2) by blast
qed

lemma cinvc_red: "phue c = Black \<Longrightarrow> cinvc c Black \<Longrightarrow> cinvc c Red"
  by (cases c) auto

text \<open>The loop invariant: a red node whose subtree and context are fine apart from its red parent.\<close>

definition climbing :: "ctx \<Rightarrow> rbt \<Rightarrow> bool" where
  "climbing c t \<longleftrightarrow> invc t \<and> hue t = Red \<and> cinvc c Black \<and> ctop c Black = Black \<and> (\<exists>n. bal t n \<and> cbal c n)"

lemma climbing_exit:
  assumes "rep s c (Nd a x Red b)" "climbing c (Nd a x Red b)" "phue c = Black"
  shows "\<exists>s'. rb_insert_loop aug x s = Some s' \<and> fixed aug (walk c (Nd a x Red b)) s s'"
  using insert_exit [OF assms(1,3)] fixedI [OF assms(1) refl] cinvc_red [OF assms(3)] assms(2)
  by (auto simp: climbing_def)

lemma climbing_left:
  assumes IH: "\<And>s t. rep s e t \<Longrightarrow> climbing e t \<Longrightarrow>
      \<exists>s'. rb_insert_loop aug (rt t) s = Some s' \<and> fixed aug (walk e t) s s'"
    and rp: "rep s (CL e g Black v) (Nd pl p Red pr)" and i: "invc pl" "invc pr"
    and x: "x = rt pl \<and> hue pl = Red \<and> hue pr = Black \<or> x = rt pr \<and> hue pr = Red \<and> hue pl = Black"
    and c: "invc v" "cinvc e Black" "ctop e Black = Black" and b: "bal pl n" "bal pr n" "bal v n" "cbal e (n + 1)"
  shows "\<exists>s'. rb_insert_loop aug x s = Some s' \<and> fixed aug (walk e (Nd (Nd pl p Red pr) g Black v)) s s'"
proof (cases "hue v")
  case Red
  have "rb_parent s x = Some p"
  proof (cases "x = rt pl \<and> hue pl = Red")
    case True
    then obtain a k d where "pl = Nd a x k d" by (cases pl) auto
    then have "rep s (CL (CL e g Black v) p Red pr) (Nd a x k d)" using rp by (simp add: rep_CL)
    then show ?thesis using rep_fields(3) by fastforce
  next
    case False
    then obtain a k d where "pr = Nd a x k d" using x by (cases pr) auto
    then have "rep s (CR pl p Red (CL e g Black v)) (Nd a x k d)" using rp by (simp add: rep_CL rep_CR)
    then show ?thesis using rep_fields(3) by fastforce
  qed
  then obtain s1 v' where s1: "rb_insert_loop aug x s = rb_insert_loop aug g s1"
    "rep s1 e (Nd (Nd pl p Black pr) g Red v')"
    "steady aug (set (walk e (Nd (Nd pl p Red pr) g Black v))) s s1"
    "inorder v' = inorder v" "invc v \<longrightarrow> invc v'" "hue v' = Black" "\<forall>n. bal v n \<longrightarrow> bal v' (n + 1)"
    using insert_recolor_left [OF rp _ Red, of x aug] by blast
  have "climbing e (Nd (Nd pl p Black pr) g Red v')"
    using i c b s1(5,6,7) unfolding climbing_def by (auto intro!: exI [of _ "n + 1"])
  then obtain s2 where "rb_insert_loop aug g s1 = Some s2"
    "fixed aug (walk e (Nd (Nd pl p Black pr) g Red v')) s1 s2"
    using IH [OF s1(2)] by auto
  moreover have "walk e (Nd (Nd pl p Black pr) g Red v') = walk e (Nd (Nd pl p Red pr) g Black v)"
    using s1(4) by (simp add: walk_def)
  ultimately show ?thesis using s1(1) fixed_trans [OF s1(3)] by auto
next
  case Black
  show ?thesis
  proof (cases "x = rt pl \<and> hue pl = Red")
    case True
    then obtain a d where pl: "pl = Nd a x Red d" using x by (cases pl) auto
    then obtain s1 where s1: "rb_insert_loop aug x s = Some s1" "rep s1 e (Nd pl p Black (Nd pr g Red v))"
      "steady aug (set (walk e (Nd (Nd pl p Red pr) g Black v))) s s1"
      using insert_outer_left [of s e g v a x Red d p pr aug] rp Black by auto
    have "fixed aug (walk e (Nd (Nd pl p Red pr) g Black v)) s s1"
      using i c b s1(3) x True Black by (intro fixedI [OF s1(2), of _ "n + 1"]) (auto simp: walk_def)
    then show ?thesis using s1(1) by blast
  next
    case False
    then obtain a d where pr: "pr = Nd a x Red d" using x by (cases pr) auto
    then obtain s1 where s1: "rb_insert_loop aug x s = Some s1"
      "rep s1 e (Nd (Nd pl p Red a) x Black (Nd d g Red v))"
      "steady aug (set (walk e (Nd (Nd pl p Red pr) g Black v))) s s1"
      using insert_inner_left [of s e g v pl p a x d aug] rp Black by auto
    have "fixed aug (walk e (Nd (Nd pl p Red pr) g Black v)) s s1"
      using i c b s1(3) x False Black pr by (intro fixedI [OF s1(2), of _ "n + 1"]) (auto simp: walk_def)
    then show ?thesis using s1(1) by blast
  qed
qed

lemma climbing_right:
  assumes IH: "\<And>s t. rep s e t \<Longrightarrow> climbing e t \<Longrightarrow>
      \<exists>s'. rb_insert_loop aug (rt t) s = Some s' \<and> fixed aug (walk e t) s s'"
    and rp: "rep s (CR v g Black e) (Nd pr p Red pl)" and i: "invc pl" "invc pr"
    and x: "x = rt pl \<and> hue pl = Red \<and> hue pr = Black \<or> x = rt pr \<and> hue pr = Red \<and> hue pl = Black"
    and c: "invc v" "cinvc e Black" "ctop e Black = Black" and b: "bal pl n" "bal pr n" "bal v n" "cbal e (n + 1)"
  shows "\<exists>s'. rb_insert_loop aug x s = Some s' \<and> fixed aug (walk e (Nd v g Black (Nd pr p Red pl))) s s'"
proof (cases "hue v")
  case Red
  have "rb_parent s x = Some p"
  proof (cases "x = rt pl \<and> hue pl = Red")
    case True
    then obtain a k d where "pl = Nd d x k a" by (cases pl) auto
    then have "rep s (CR pr p Red (CR v g Black e)) (Nd d x k a)" using rp by (simp add: rep_CR)
    then show ?thesis using rep_fields(3) by fastforce
  next
    case False
    then obtain a k d where "pr = Nd d x k a" using x by (cases pr) auto
    then have "rep s (CL (CR v g Black e) p Red pl) (Nd d x k a)" using rp by (simp add: rep_CR rep_CL)
    then show ?thesis using rep_fields(3) by fastforce
  qed
  then obtain s1 v' where s1: "rb_insert_loop aug x s = rb_insert_loop aug g s1"
    "rep s1 e (Nd v' g Red (Nd pr p Black pl))"
    "steady aug (set (walk e (Nd v g Black (Nd pr p Red pl)))) s s1"
    "inorder v' = inorder v" "invc v \<longrightarrow> invc v'" "hue v' = Black" "\<forall>n. bal v n \<longrightarrow> bal v' (n + 1)"
    using insert_recolor_right [OF rp _ Red, of x aug] by blast
  have "climbing e (Nd v' g Red (Nd pr p Black pl))"
    using i c b s1(5,6,7) unfolding climbing_def by (auto intro!: exI [of _ "n + 1"])
  then obtain s2 where "rb_insert_loop aug g s1 = Some s2"
    "fixed aug (walk e (Nd v' g Red (Nd pr p Black pl))) s1 s2"
    using IH [OF s1(2)] by auto
  moreover have "walk e (Nd v' g Red (Nd pr p Black pl)) = walk e (Nd v g Black (Nd pr p Red pl))"
    using s1(4) by (simp add: walk_def)
  ultimately show ?thesis using s1(1) fixed_trans [OF s1(3)] by auto
next
  case Black
  show ?thesis
  proof (cases "x = rt pl \<and> hue pl = Red")
    case True
    then obtain a d where pl: "pl = Nd d x Red a" using x by (cases pl) auto
    then obtain s1 where s1: "rb_insert_loop aug x s = Some s1" "rep s1 e (Nd (Nd v g Red pr) p Black pl)"
      "steady aug (set (walk e (Nd v g Black (Nd pr p Red pl)))) s s1"
      using insert_outer_right [of s v g e pr p d x Red a aug] rp Black by auto
    have "fixed aug (walk e (Nd v g Black (Nd pr p Red pl))) s s1"
      using i c b s1(3) x True Black by (intro fixedI [OF s1(2), of _ "n + 1"]) (auto simp: walk_def)
    then show ?thesis using s1(1) by blast
  next
    case False
    then obtain a d where pr: "pr = Nd d x Red a" using x by (cases pr) auto
    then obtain s1 where s1: "rb_insert_loop aug x s = Some s1"
      "rep s1 e (Nd (Nd v g Red d) x Black (Nd a p Red pl))"
      "steady aug (set (walk e (Nd v g Black (Nd pr p Red pl)))) s s1"
      using insert_inner_right [of s v g e d x a p pl aug] rp Black by auto
    have "fixed aug (walk e (Nd v g Black (Nd pr p Red pl))) s s1"
      using i c b s1(3) x False Black pr by (intro fixedI [OF s1(2), of _ "n + 1"]) (auto simp: walk_def)
    then show ?thesis using s1(1) by blast
  qed
qed

lemma climbing_loop:
  "rep s c t \<Longrightarrow> climbing c t \<Longrightarrow> \<exists>s'. rb_insert_loop aug (rt t) s = Some s' \<and> fixed aug (walk c t) s s'"
proof (induction "depth c" arbitrary: s c t rule: less_induct)
  case less
  obtain a x b where t: "t = Nd a x Red b" using less.prems(2) by (cases t) (auto simp: climbing_def)
  show ?case
  proof (cases "phue c")
    case Black
    then show ?thesis using climbing_exit [of s c a x b aug] less.prems t by simp
  next
    case Red
    from less.prems(2) obtain n where n: "invc t" "cinvc c Black" "ctop c Black = Black" "bal t n" "cbal c n"
      by (auto simp: climbing_def)
    consider d p u where "c = CL d p Red u" | d p u where "c = CR u p Red d"
      using Red by (cases c) auto
    then show ?thesis
    proof cases
      case (1 d p u)
      have IH: "\<And>s e t. depth e < depth d \<Longrightarrow> rep s e t \<Longrightarrow> climbing e t \<Longrightarrow>
          \<exists>s'. rb_insert_loop aug (rt t) s = Some s' \<and> fixed aug (walk e t) s s'"
        using less.hyps 1 by simp
      consider e g v where "d = CL e g Black v" | e g v where "d = CR v g Black e"
        using n(2,3) 1 by (cases d) (auto simp: not_red [symmetric])
      then show ?thesis
      proof cases
        case (1 e g v)
        then show ?thesis
          using climbing_left [OF IH, of e s g v t p u "rt t" n] n less.prems t \<open>c = _\<close>
          by (simp add: rep_CL)
      next
        case (2 e g v)
        then show ?thesis
          using climbing_right [OF IH, of e s v g t p u "rt t" n] n less.prems t \<open>c = _\<close>
          by (simp add: rep_CL rep_CR)
      qed
    next
      case (2 d p u)
      have IH: "\<And>s e t. depth e < depth d \<Longrightarrow> rep s e t \<Longrightarrow> climbing e t \<Longrightarrow>
          \<exists>s'. rb_insert_loop aug (rt t) s = Some s' \<and> fixed aug (walk e t) s s'"
        using less.hyps 2 by simp
      consider e g v where "d = CL e g Black v" | e g v where "d = CR v g Black e"
        using n(2,3) 2 by (cases d) (auto simp: not_red [symmetric])
      then show ?thesis
      proof cases
        case (1 e g v)
        then show ?thesis
          using climbing_left [OF IH, of e s g v u p t "rt t" n] n less.prems t \<open>c = _\<close>
          by (simp add: rep_CL rep_CR)
      next
        case (2 e g v)
        then show ?thesis
          using climbing_right [OF IH, of e s v g u p t "rt t" n] n less.prems t \<open>c = _\<close>
          by (simp add: rep_CR)
      qed
    qed
  qed
qed

lemma bal_blacken: "bal (Nd l x k r) n \<Longrightarrow> \<exists>m. bal (Nd l x Black r) m"
  by (metis bal_step)

text \<open>What every operation promises: a red-black tree over \<open>L\<close>, everything else unchanged.\<close>

definition holds_tree :: "'x rb_state \<Rightarrow> ptr list \<Rightarrow> bool" where
  "holds_tree s L \<longleftrightarrow> (\<exists>t. rep s Top t \<and> rb_tree t \<and> inorder t = L)"

lemma insert_color_fixed:
  assumes "rep s c t" "climbing c t"
  shows "\<exists>s'. rb_insert_color_aug aug (rt t) s = Some s' \<and> holds_tree s' (walk c t) \<and>
    steady aug (set (walk c t)) s s'"
proof -
  obtain s1 u where s1: "rb_insert_loop aug (rt t) s = Some s1" "steady aug (set (walk c t)) s s1"
    "rep s1 Top u" "inorder u = walk c t" "invc u" "\<exists>n. bal u n"
    using climbing_loop [OF assms, of aug] unfolding fixed_def by blast
  have "walk c t \<noteq> []" using assms(2) by (cases t) (auto simp: climbing_def walk_def)
  then obtain l x k r where u: "u = Nd l x k r" using s1(4) by (cases u) auto
  have "root s1 = x" using s1(3) u by (simp add: rep_def)
  obtain s2 where s2: "rb_set_black x s1 = Some s2" "rep s2 Top (Nd l x Black r)"
    "steady aug (set (walk Top (Nd l x k r))) s1 s2"
    using rep_black [of s1 Top l x k r aug] s1(3) u by blast
  have "rb_tree (Nd l x Black r)" using s1(5,6) u bal_blacken by (auto simp: rb_tree_def)
  moreover have "inorder (Nd l x Black r) = walk c t" using s1(4) u by simp
  ultimately have "holds_tree s2 (walk c t)" using s2(2) unfolding holds_tree_def by blast
  moreover have "steady aug (set (walk c t)) s s2"
    using s1(2,4) s2(3) u steady_trans by auto
  ultimately show ?thesis
    using s1(1) s2(1) \<open>root s1 = x\<close> by (simp add: rb_insert_color_aug_def)
qed

subsection \<open>Linking and the augmentation path\<close>

fun link_of :: "ctx \<Rightarrow> rb_link" where
  "link_of Top = Link_Root"
| "link_of (CL c x k r) = Link_Left x"
| "link_of (CR l x k c) = Link_Right x"

lemma rep_get_link: "rep s c t \<Longrightarrow> get_link s (link_of c) = Some (rt t)"
  by (cases c) (auto simp: rep_def get_left_def get_right_def node_at_def ok_def)

lemma link_node_rep:
  assumes r: "rep s c Lf" and x: "ok x" "nodes s x \<noteq> None" "x \<notin> set (walk c Lf)"
  shows "\<exists>s'. link_node x (cpar c) (link_of c) s = Some s' \<and> rep s' c (Nd Lf x Red Lf) \<and>
    frame aug (set (walk c (Nd Lf x Red Lf))) s s' \<and> aux s' = aux s"
proof -
  define s1 where "s1 = s\<lparr>nodes := (nodes s)(x \<mapsto> mk (cpar c) Red 0 0)\<rparr>"
  have x0: "x \<noteq> 0" using x(1) by (simp add: ok_def)
  have u: "upd_node x (\<lambda>n. \<lparr>rb_parent_color = cpar c, rb_right = 0, rb_left = 0\<rparr>) s = Some s1"
    using x(2) x0 by (auto simp: upd_node_def node_at_def s1_def mk_def KRB_RED_def)
  have xc: "x \<notin> set (before c)" "x \<notin> set (behind c)" using x(3) by (simp_all add: walk_def)
  have di: "distinct (before c @ behind c)" using r by (simp add: rep_def)
  have c1: "ctx_at (nodes s1) c 0" "root s1 = croot c 0" using r xc by (simp_all add: rep_def s1_def)
  have "\<exists>s'. set_link (link_of c) x s1 = Some s' \<and> ctx_at (nodes s') c x \<and> root s' = croot c x \<and>
      (\<forall>p. p \<notin> set (before c) \<union> set (behind c) \<longrightarrow> nodes s' p = nodes s1 p) \<and> aux s' = aux s1"
  proof (cases c)
    case (CL d z k r)
    then have "node_at s1 z = Some (mk (cpar d) k 0 (rt r))" using c1 by (auto simp: node_at_def ok_def)
    then show ?thesis using c1 di CL by (auto simp: set_left_def upd_node_Some)
  next
    case (CR l z k d)
    then have "node_at s1 z = Some (mk (cpar d) k (rt l) 0)" using c1 by (auto simp: node_at_def ok_def)
    then show ?thesis using c1 di CR by (auto simp: set_right_def upd_node_Some)
  qed simp
  then obtain s2 where s2: "set_link (link_of c) x s1 = Some s2" "ctx_at (nodes s2) c x" "root s2 = croot c x"
    "\<forall>p. p \<notin> set (before c) \<union> set (behind c) \<longrightarrow> nodes s2 p = nodes s1 p" "aux s2 = aux s1" by blast
  have "rep s2 c (Nd Lf x Red Lf)"
    using s2 di xc x(1) by (auto simp: rep_def s1_def)
  moreover have "frame aug (set (walk c (Nd Lf x Red Lf))) s s2"
    using s2(4,5) by (auto simp: frame_def walk_def s1_def)
  moreover have "aux s2 = aux s" using s2(5) by (simp add: s1_def)
  ultimately show ?thesis using u s2(1) by (simp add: link_node_def)
qed

lemma climbing_leaf: "rb_tree (plug c Lf) \<Longrightarrow> climbing c (Nd Lf x Red Lf)"
  by (auto simp: rb_tree_plug climbing_def intro!: exI [of _ 0])

fun path_up :: "ctx \<Rightarrow> ptr list" where
  "path_up Top = []"
| "path_up (CL c x k r) = x # path_up c"
| "path_up (CR l x k c) = x # path_up c"

lemma rep_aux [simp]: "rep (s\<lparr>aux := a\<rparr>) c t = rep s c t"
  by (simp add: rep_def)

lemma rb_parent_aux [simp]: "rb_parent (s\<lparr>aux := a\<rparr>) p = rb_parent s p"
  by (simp add: rb_parent_def node_at_def)

lemma augment_loop_path:
  assumes "rep s c (Nd l x k r)"
  shows "rb_augment_loop (Some f) x s =
    Some (s\<lparr>aux := fold (f (nodes s)) (x # path_up c) (aux s)\<rparr>)"
  using assms
proof (induction c arbitrary: s l x k r)
  case Top
  then show ?case using rep_fields(3) [OF Top] rep_node(2) [OF Top]
    by (simp add: rb_augment_loop.simps [of _ x] rb_augment_loop.simps [of _ 0] call_augment_def)
next
  case (CL c y j v)
  have r: "rep (s\<lparr>aux := f (nodes s) x (aux s)\<rparr>) c (Nd (Nd l x k r) y j v)" using CL.prems by (simp add: rep_CL)
  show ?case using rep_fields(3) [OF CL.prems] rep_node(2) [OF CL.prems] CL.IH [OF r]
    by (simp add: rb_augment_loop.simps [of _ x] call_augment_def)
next
  case (CR v y j c)
  have r: "rep (s\<lparr>aux := f (nodes s) x (aux s)\<rparr>) c (Nd v y j (Nd l x k r))" using CR.prems by (simp add: rep_CR)
  show ?case using rep_fields(3) [OF CR.prems] rep_node(2) [OF CR.prems] CR.IH [OF r]
    by (simp add: rb_augment_loop.simps [of _ x] call_augment_def)
qed

lemma path_up_in: "set (path_up c) \<subseteq> set (before c @ behind c)"
  by (induction c) auto

lemma path_up_distinct: "distinct (before c @ behind c) \<Longrightarrow> distinct (path_up c)"
proof (induction c)
  case (CL c x k r)
  then show ?case using path_up_in [of c] by auto
next
  case (CR l x k c)
  then show ?case using path_up_in [of c] by auto
qed simp

lemma path_up_position:
  "rep s c t \<Longrightarrow> path_up c = us @ p # vs \<Longrightarrow>
   \<exists>e l k r. rep s e (Nd l p k r) \<and> addrs e (Nd l p k r) = addrs c t \<and> path_up e = vs"
proof (induction c arbitrary: t us)
  case (CL c x k r)
  have a: "addrs c (Nd t x k r) = addrs (CL c x k r) t" by (auto simp: addrs_def)
  show ?case
  proof (cases us)
    case Nil
    then show ?thesis using CL.prems a by (auto simp: rep_CL)
  next
    case (Cons u us')
    then show ?thesis using CL.IH [of "Nd t x k r" us'] CL.prems a by (auto simp: rep_CL)
  qed
next
  case (CR l x k c)
  have a: "addrs c (Nd l x k t) = addrs (CR l x k c) t" by (auto simp: addrs_def)
  show ?case
  proof (cases us)
    case Nil
    then show ?thesis using CR.prems a by (auto simp: rep_CR)
  next
    case (Cons u us')
    then show ?thesis using CR.IH [of "Nd l x k t" us'] CR.prems a by (auto simp: rep_CR)
  qed
qed simp

lemma calls_fold:
  assumes "set ps \<subseteq> A" "0 \<notin> A" "\<And>p. p \<in> A \<Longrightarrow> \<exists>l r. kids h p = Some (l, r) \<and> {l, r} \<subseteq> insert 0 A"
  shows "calls f A m (fold (f h) ps m)"
  using assms(1)
proof (induction ps rule: rev_induct)
  case (snoc p ps)
  then show ?case using assms(2) assms(3) [of p] by (auto intro: calls.more)
qed simp

lemma hd_path_up: "cpar c = (case path_up c of [] \<Rightarrow> 0 | p # _ \<Rightarrow> p)"
  by (cases c) auto

lemma path_settles:
  assumes "rep s c t" "augmentation f" "\<And>z. z \<in> addrs c t \<Longrightarrow> z \<notin> set (path_up c) \<Longrightarrow> f (nodes s) z (aux s) = aux s"
  shows "settled f (addrs c t) (s\<lparr>aux := fold (f (nodes s)) (path_up c) (aux s)\<rparr>)"
proof -
  have "\<exists>l r. kids (nodes s) p = Some (l, r) \<and> p \<notin> {l, r} \<and>
      (\<forall>z \<in> addrs c t. \<forall>u v. kids (nodes s) z = Some (u, v) \<longrightarrow> p \<in> {u, v} \<longrightarrow> z \<in> set vs)" if pu: "path_up c = us @ p # vs" for us p vs
  proof -
    obtain e l k r where e: "rep s e (Nd l p k r)" "addrs e (Nd l p k r) = addrs c t" "path_up e = vs"
      using path_up_position [OF assms(1) pu] by blast
    have "z \<in> set vs" if z: "z \<in> addrs c t" "kids (nodes s) z = Some (u, v)" "p \<in> {u, v}" for z u v
    proof -
      have "z \<in> addrs e (Nd l p k r)" unfolding e(2) by (rule z(1))
      then have "z = cpar e" by (rule rep_only_parent [OF e(1) _ z(2,3)])
      moreover have "z \<noteq> 0" using z(1) rep_not_zero [OF assms(1)] by metis
      ultimately have "cpar e = z" "z \<noteq> 0" by simp_all
      then show ?thesis using hd_path_up [of e] e(3) by (auto split: list.splits)
    qed
    moreover have "p \<in> addrs e (Nd l p k r)" by (simp add: addrs_def)
    then obtain i j where "kids (nodes s) p = Some (i, j)" "p \<notin> {i, j}" using rep_kids [OF e(1)] by metis
    ultimately show ?thesis by (intro exI [of _ i] exI [of _ j]) blast
  qed
  moreover have "distinct (path_up c)" using assms(1) by (intro path_up_distinct) (auto simp: rep_def)
  ultimately show ?thesis
    using augmentation.settled_path [OF assms(2), of "path_up c" "nodes s" "addrs c t" "aux s"] rep_kids [OF assms(1)] assms(3)
    by (fastforce simp: settled_def)
qed

text \<open>The augmentation path, from the parent of a position to the root.\<close>

lemma augment_path_rep:
  assumes "rep s c t"
  shows "\<exists>a. rb_augment_path aug (cpar c) s = Some (s\<lparr>aux := a\<rparr>) \<and> frame aug (addrs c t) s (s\<lparr>aux := a\<rparr>) \<and>
    (\<forall>f. aug = Some f \<and> augmentation f \<and> (\<forall>z \<in> addrs c t. z \<notin> set (path_up c) \<longrightarrow> f (nodes s) z (aux s) = aux s) \<longrightarrow>
       settled f (addrs c t) (s\<lparr>aux := a\<rparr>))"
proof (cases aug)
  case (Some f)
  have "rb_augment_loop (Some f) (cpar c) s = Some (s\<lparr>aux := fold (f (nodes s)) (path_up c) (aux s)\<rparr>)"
  proof (cases c)
    case (CL d x k r)
    then show ?thesis using augment_loop_path [of s d t x k r f] assms by (simp add: rep_CL)
  next
    case (CR l x k d)
    then show ?thesis using augment_loop_path [of s d l x k t f] assms by (simp add: rep_CR)
  qed (simp add: rb_augment_loop.simps)
  moreover have "calls f (addrs c t) (aux s) (fold (f (nodes s)) (path_up c) (aux s))"
  proof (rule calls_fold [OF _ rep_not_zero [OF assms]])
    show "set (path_up c) \<subseteq> addrs c t" using path_up_in [of c] by (auto simp: addrs_def)
    fix p assume "p \<in> addrs c t"
    from rep_kids [OF assms this] obtain l r where "kids (nodes s) p = Some (l, r)" "{l, r} \<subseteq> insert 0 (addrs c t)" by metis
    then show "\<exists>l r. kids (nodes s) p = Some (l, r) \<and> {l, r} \<subseteq> insert 0 (addrs c t)" by blast
  qed
  ultimately show ?thesis using path_settles [OF assms] Some by (auto simp: rb_augment_path_def frame_def)
qed (auto simp: rb_augment_path_def intro: exI [of _ "aux s"])

text \<open>Away from the path, the nodes of a context keep their children when the hole is filled anew.\<close>

lemma off_path_kids:
  assumes "rep s c t" "rep s' c t'" "z \<in> set (before c @ behind c)" "z \<notin> set (path_up c)"
  shows "kids (nodes s') z = kids (nodes s) z"
proof -
  have d: "distinct (before c @ inorder t @ behind c)" using assms(1) by (simp add: rep_def)
  obtain l r where k: "(z, l, r) \<in> trip t \<union> ctrip c (rt t)" "kids (nodes s) z = Some (l, r)"
    using rep_kids [OF assms(1), of z] assms(3) by (auto simp: addrs_def)
  have "(z, l, r) \<notin> trip t" using trip_in [of z l r t] d assms(3) by auto
  moreover have "(z, l, r) \<notin> cmark c (rt t)" using assms(4) by (cases c) auto
  ultimately have "(z, l, r) \<in> cfix c" using k(1) ctrip_split by blast
  then show ?thesis using rep_trip [OF assms(2), of z l r] k(2) ctrip_split by auto
qed

text \<open>The contract of an insertion: link a red leaf, then rebalance.\<close>

lemma insert_holds_tree:
  assumes "rep s c Lf" "rb_tree (plug c Lf)" "ok x" "nodes s x \<noteq> None" "x \<notin> set (walk c Lf)"
  shows "\<exists>s1 s2. link_node x (cpar c) (link_of c) s = Some s1 \<and> rb_insert_augmented aug x s1 = Some s2 \<and>
    holds_tree s2 (before c @ x # behind c) \<and> frame aug (set (before c @ x # behind c)) s s2 \<and>
    (\<forall>f. aug = Some f \<and> augmentation f \<and> settled f (set (walk c Lf)) s \<longrightarrow> settled f (set (before c @ x # behind c)) s2)"
proof -
  let ?t = "Nd Lf x Red Lf" and ?L = "before c @ x # behind c"
  obtain s1 where s1: "link_node x (cpar c) (link_of c) s = Some s1" "rep s1 c ?t" "frame aug (set ?L) s s1" "aux s1 = aux s"
    using link_node_rep [OF assms(1,3,4,5), of aug] by (auto simp: walk_def)
  have r1: "rep s1 (CL c x Red Lf) Lf" "addrs (CL c x Red Lf) Lf = set ?L" using s1(2) by (simp_all add: rep_CL addrs_def)
  obtain a where a: "rb_augment_path aug x s1 = Some (s1\<lparr>aux := a\<rparr>)" "frame aug (set ?L) s1 (s1\<lparr>aux := a\<rparr>)"
    "\<And>f. aug = Some f \<Longrightarrow> augmentation f \<Longrightarrow> (\<forall>z \<in> set ?L. z \<notin> set (x # path_up c) \<longrightarrow> f (nodes s1) z (aux s1) = aux s1) \<Longrightarrow>
       settled f (set ?L) (s1\<lparr>aux := a\<rparr>)"
    using augment_path_rep [OF r1(1), of aug] unfolding r1(2) by auto
  have "rep (s1\<lparr>aux := a\<rparr>) c ?t" using s1(2) by simp
  then obtain s2 where s2: "rb_insert_color_aug aug x (s1\<lparr>aux := a\<rparr>) = Some s2" "holds_tree s2 ?L"
    "steady aug (set ?L) (s1\<lparr>aux := a\<rparr>) s2"
    using insert_color_fixed [OF _ climbing_leaf [OF assms(2)]] by (fastforce simp: walk_def)
  have "settled f (set ?L) s2" if f: "aug = Some f" "augmentation f" "settled f (set (walk c Lf)) s" for f
  proof -
    have "f (nodes s1) z (aux s1) = aux s1" if z: "z \<in> set ?L" "z \<notin> set (x # path_up c)" for z
    proof -
      have "z \<in> set (before c @ behind c)" using z by auto
      then show ?thesis
        using augmentation.looks [OF f(2) off_path_kids [OF assms(1) s1(2)], of z] f(3) z s1(4) by (simp add: settled_def walk_def)
    qed
    then show ?thesis using a(3) f s2(3) unfolding steady_def by blast
  qed
  moreover have "frame aug (set ?L) s s2" using frame_trans [OF frame_trans [OF s1(3) a(2)] steady_frame [OF s2(3)]] .
  ultimately show ?thesis using s1(1) a(1) s2(1,2) by (auto simp: rb_insert_augmented_def)
qed

lemma insert_color_is_augmented: "rb_insert_color x s = rb_insert_augmented None x s"
  by (simp add: rb_insert_color_def rb_insert_augmented_def rb_augment_path_def)

end
