(* ===== verification/Rbtree_Erase.thy ===== *)
theory Rbtree_Erase
  imports Rbtree_Insert
begin

text \<open>
  \<open>rb_erase\<close> of \<open>libs/rbtree.c\<close>: taking a node out of the tree and the rebalancing loop after it.
\<close>

subsection \<open>The rebalancing loop\<close>

fun paint :: "rbt \<Rightarrow> rbt" where
  "paint Lf = Lf"
| "paint (Nd l x k r) = Nd l x Black r"

lemma paint_simps [simp]: "hue (paint t) = Black" "rt (paint t) = rt t" "inorder (paint t) = inorder t"
  by (cases t; simp)+

lemma paint_black: "hue t = Black \<Longrightarrow> paint t = t"
  by (cases t) simp_all

text \<open>The loop invariant: the subtree is one black node short, and its root may be red with red children.\<close>

definition lacking :: "ctx \<Rightarrow> rbt \<Rightarrow> bool" where
  "lacking c t \<longleftrightarrow> invc (paint t) \<and> cinvc c Black \<and> ctop c Black = Black \<and> (\<exists>n. bal t n \<and> cbal c (n + 1))"

text \<open>The state at the end of the loop: one more node to be coloured black.\<close>

definition ready :: "'x rb_augment \<Rightarrow> ptr list \<Rightarrow> 'x rb_state \<Rightarrow> ptr \<Rightarrow> 'x rb_state \<Rightarrow> bool" where
  "ready aug L s node s' \<longleftrightarrow> steady aug (set L) s s' \<and>
     (\<exists>c t. rep s' c t \<and> node = rt t \<and> walk c t = L \<and> rb_tree (plug c (paint t)))"

lemma ready_trans: "steady aug (set L) s s' \<Longrightarrow> ready aug L s' n s'' \<Longrightarrow> ready aug L s n s''"
  unfolding ready_def using steady_trans by blast

lemma ready_exit:
  assumes "rep s c t" "lacking c t" "hue t = Red \<or> c = Top"
  shows "ready aug (walk c t) s (rt t) s"
proof -
  obtain n where n: "invc (paint t)" "cinvc c Black" "ctop c Black = Black" "bal t n" "cbal c (n + 1)"
    using assms(2) by (auto simp: lacking_def)
  have "\<exists>m. bal (paint t) m \<and> cbal c m"
    using n(4,5) assms(3) by (cases t; cases "hue t") (auto simp: bal_step)
  then show ?thesis using n assms(1) unfolding ready_def by (auto simp: rb_tree_plug)
qed

lemma croot_in: "c \<noteq> Top \<Longrightarrow> croot c p \<in> set (before c) \<union> set (behind c)"
proof (induction c arbitrary: p)
  case (CL c x k r)
  then show ?case by (cases "c = Top") auto
next
  case (CR l x k c)
  then show ?case by (cases "c = Top") auto
qed simp

lemma rep_not_root:
  assumes "rep s c t" "c \<noteq> Top"
  shows "rt t \<noteq> root s"
proof (cases t)
  case Lf
  have "croot c (rt t) \<noteq> 0"
  proof -
    have "ctx_at h c p \<Longrightarrow> c \<noteq> Top \<Longrightarrow> croot c p \<noteq> 0" for h p
    proof (induction c arbitrary: p)
      case (CL c x k r)
      then show ?case by (cases "c = Top") (auto simp: ok_def)
    next
      case (CR l x k c)
      then show ?case by (cases "c = Top") (auto simp: ok_def)
    qed simp
    then show ?thesis using assms by (auto simp: rep_def)
  qed
  then show ?thesis using assms Lf by (simp add: rep_def)
next
  case (Nd l x k r)
  then show ?thesis using croot_in [OF assms(2), of x] assms(1) by (auto simp: rep_def)
qed

text \<open>The loop body after the case of a red sibling, for a left and for a right child.\<close>

definition erase_tail_left ::
  "'x rb_augment \<Rightarrow> ptr \<Rightarrow> ptr \<Rightarrow> 'x rb_state \<Rightarrow> (ptr \<times> 'x rb_state) option" where
  "erase_tail_left augment parent other s =
     do { oleft \<leftarrow> get_left s other;
          oright \<leftarrow> get_right s other;
          lblack \<leftarrow> black_child s oleft;
          both \<leftarrow> (if lblack then black_child s oright else Some False);
          if both
          then do { s \<leftarrow> rb_set_red other s;
                    gparent \<leftarrow> rb_parent s parent;
                    rb_erase_loop augment parent gparent s }
          else do {
            rblack \<leftarrow> black_child s oright;
            (other, s) \<leftarrow>
              (if rblack
               then do { s \<leftarrow> rb_set_black oleft s;
                         s \<leftarrow> rb_set_red other s;
                         s \<leftarrow> rb_rotate_right augment other s;
                         other \<leftarrow> get_right s parent;
                         Some (other, s) }
               else Some (other, s));
            color \<leftarrow> rb_color s parent;
            s \<leftarrow> rb_set_color other color s;
            s \<leftarrow> rb_set_black parent s;
            oright \<leftarrow> get_right s other;
            s \<leftarrow> rb_set_black oright s;
            s \<leftarrow> rb_rotate_left augment parent s;
            Some (root s, s) } }"

definition erase_tail_right ::
  "'x rb_augment \<Rightarrow> ptr \<Rightarrow> ptr \<Rightarrow> 'x rb_state \<Rightarrow> (ptr \<times> 'x rb_state) option" where
  "erase_tail_right augment parent other s =
     do { oleft \<leftarrow> get_left s other;
          oright \<leftarrow> get_right s other;
          lblack \<leftarrow> black_child s oleft;
          both \<leftarrow> (if lblack then black_child s oright else Some False);
          if both
          then do { s \<leftarrow> rb_set_red other s;
                    gparent \<leftarrow> rb_parent s parent;
                    rb_erase_loop augment parent gparent s }
          else do {
            (other, s) \<leftarrow>
              (if lblack
               then do { s \<leftarrow> rb_set_black oright s;
                         s \<leftarrow> rb_set_red other s;
                         s \<leftarrow> rb_rotate_left augment other s;
                         other \<leftarrow> get_left s parent;
                         Some (other, s) }
               else Some (other, s));
            color \<leftarrow> rb_color s parent;
            s \<leftarrow> rb_set_color other color s;
            s \<leftarrow> rb_set_black parent s;
            oleft \<leftarrow> get_left s other;
            s \<leftarrow> rb_set_black oleft s;
            s \<leftarrow> rb_rotate_right augment parent s;
            Some (root s, s) } }"

lemma erase_loop_left:
  assumes r: "rep s (CL d p kp (Nd a y ky b)) t" and t: "hue t = Black"
  shows "rb_erase_loop aug (rt t) p s =
    (if ky = Red
     then do { s \<leftarrow> rb_set_black y s; s \<leftarrow> rb_set_red p s; s \<leftarrow> rb_rotate_left aug p s;
               other \<leftarrow> get_right s p; erase_tail_left aug p other s }
     else erase_tail_left aug p y s)"
proof -
  have rp: "rep s d (Nd t p kp (Nd a y ky b))" and ry: "rep s (CR t p kp d) (Nd a y ky b)"
    using r by (simp_all add: rep_CL rep_CR)
  have "rt t \<noteq> root s" using rep_not_root [OF r] by simp
  then show ?thesis
    using rep_fields [OF rp] rep_fields [OF ry] rep_child(2) [OF r] t
    by (subst rb_erase_loop.simps) (simp add: erase_tail_left_def)
qed

lemma erase_loop_right:
  assumes r: "rep s (CR (Nd b y ky a) p kp d) t" and t: "hue t = Black"
  shows "rb_erase_loop aug (rt t) p s =
    (if ky = Red
     then do { s \<leftarrow> rb_set_black y s; s \<leftarrow> rb_set_red p s; s \<leftarrow> rb_rotate_right aug p s;
               other \<leftarrow> get_left s p; erase_tail_right aug p other s }
     else erase_tail_right aug p y s)"
proof -
  have rp: "rep s d (Nd (Nd b y ky a) p kp t)" and ry: "rep s (CL d p kp t) (Nd b y ky a)"
    using r by (simp_all add: rep_CL rep_CR)
  have "rt t \<noteq> root s" "y \<noteq> rt t" using rep_not_root [OF r] rep_left_differs [OF rp] by auto
  then show ?thesis
    using rep_fields [OF rp] rep_fields [OF ry] rep_child(2) [OF r] t
    by (subst rb_erase_loop.simps) (simp add: erase_tail_right_def)
qed

lemma rep_paint:
  assumes "rep s c (Nd l x k r)"
  obtains s' where "rb_set_color x (colw k') s = Some s'" "rep s' c (Nd l x k' r)"
    "steady aug (set (walk c (Nd l x k r))) s s'"
proof -
  obtain s' where s': "rb_set_color x (colw k') s = Some s'" "rep s' c (Nd l x k' r)" "frame aug (set (walk c (Nd l x k r))) s s'"
    using rep_set_color [OF assms, of k' aug] unfolding addrs_walk by blast
  then show thesis using that steady_recolor [OF assms s'(2,3)] upd_node_aux s'(1) [unfolded rb_set_color_def] by blast
qed

lemma erase_exit:
  assumes "rep s c t" "hue t = Red \<or> c = Top"
  shows "rb_erase_loop aug (rt t) q s = Some (rt t, s)"
  using rep_child(2) [OF assms(1)] assms
  by (subst rb_erase_loop.simps) (auto simp: rep_def)

lemma erase_both_left:
  assumes r: "rep s (CL d p kp (Nd a y Black b)) t" and h: "hue a = Black" "hue b = Black"
  shows "\<exists>s'. erase_tail_left aug p y s = rb_erase_loop aug p (cpar d) s' \<and>
    rep s' d (Nd t p kp (Nd a y Red b)) \<and> steady aug (set (walk d (Nd t p kp (Nd a y Black b)))) s s'"
proof -
  have ry: "rep s (CR t p kp d) (Nd a y Black b)" and ra: "rep s (CL (CR t p kp d) y Black b) a" and
    rb: "rep s (CR a y Black (CR t p kp d)) b"
    using r by (simp_all add: rep_CL rep_CR)
  obtain s1 where s1: "rb_set_red y s = Some s1" "rep s1 (CR t p kp d) (Nd a y Red b)"
    "steady aug (set (walk (CR t p kp d) (Nd a y Black b))) s s1"
    using rep_red [OF ry] .
  have rp: "rep s1 d (Nd t p kp (Nd a y Red b))" using s1(2) by (simp add: rep_CR)
  have "erase_tail_left aug p y s = rb_erase_loop aug p (cpar d) s1"
    using rep_fields [OF ry] rep_child(2) [OF ra] rep_child(2) [OF rb] h s1(1) rep_fields [OF rp]
    by (simp add: erase_tail_left_def)
  then show ?thesis using rp s1(3) by auto
qed

lemma erase_final_left:
  assumes r: "rep s (CL d p kp (Nd a q Black (Nd e z Red f))) t"
  shows "\<exists>s'. do { color \<leftarrow> rb_color s p; s \<leftarrow> rb_set_color q color s; s \<leftarrow> rb_set_black p s;
               o_out \<leftarrow> get_right s q; s \<leftarrow> rb_set_black o_out s; s \<leftarrow> rb_rotate_left aug p s;
               Some (root s, s) } = Some (root s', s') \<and>
    rep s' d (Nd (Nd t p Black a) q kp (Nd e z Black f)) \<and>
    steady aug (set (walk d (Nd t p kp (Nd a q Black (Nd e z Red f))))) s s'"
proof -
  have rp: "rep s d (Nd t p kp (Nd a q Black (Nd e z Red f)))" and
    rq: "rep s (CR t p kp d) (Nd a q Black (Nd e z Red f))"
    using r by (simp_all add: rep_CL rep_CR)
  obtain s1 where s1: "rb_set_color q (colw kp) s = Some s1" "rep s1 (CR t p kp d) (Nd a q kp (Nd e z Red f))"
    "steady aug (set (walk (CR t p kp d) (Nd a q Black (Nd e z Red f)))) s s1"
    using rep_paint [OF rq, of kp] .
  have "rep s1 d (Nd t p kp (Nd a q kp (Nd e z Red f)))" using s1(2) by (simp add: rep_CR)
  then obtain s2 where s2: "rb_set_black p s1 = Some s2" "rep s2 d (Nd t p Black (Nd a q kp (Nd e z Red f)))"
    "steady aug (set (walk d (Nd t p kp (Nd a q kp (Nd e z Red f))))) s1 s2"
    by (rule rep_black)
  have q2: "rep s2 (CR t p Black d) (Nd a q kp (Nd e z Red f))" and
    z2: "rep s2 (CR a q kp (CR t p Black d)) (Nd e z Red f)" using s2(2) by (simp_all add: rep_CR)
  obtain s3 where s3: "rb_set_black z s2 = Some s3" "rep s3 (CR a q kp (CR t p Black d)) (Nd e z Black f)"
    "steady aug (set (walk (CR a q kp (CR t p Black d)) (Nd e z Red f))) s2 s3"
    using rep_black [OF z2] .
  have "rep s3 d (Nd t p Black (Nd a q kp (Nd e z Black f)))" using s3(2) by (simp add: rep_CR)
  then obtain s4 where s4: "rb_rotate_left aug p s3 = Some s4"
    "rep s4 d (Nd (Nd t p Black a) q kp (Nd e z Black f))"
    "steady aug (set (walk d (Nd t p Black (Nd a q kp (Nd e z Black f))))) s3 s4"
    by (rule rep_rotate_left)
  have "steady aug (set (walk d (Nd t p kp (Nd a q Black (Nd e z Red f))))) s s4"
    using s1(3) s2(3) s3(3) s4(3) by (simp add: walk_def) (meson steady_trans)
  then show ?thesis
    using rep_fields [OF rp] s1(1) s2(1) rep_fields [OF q2] s3(1) s4(1,2)
    by (intro exI [of _ s4]) simp
qed

lemma erase_outer_left:
  assumes r: "rep s (CL d p kp (Nd a y Black (Nd e z Red f))) t"
  shows "\<exists>s'. erase_tail_left aug p y s = Some (root s', s') \<and>
    rep s' d (Nd (Nd t p Black a) y kp (Nd e z Black f)) \<and>
    steady aug (set (walk d (Nd t p kp (Nd a y Black (Nd e z Red f))))) s s'"
proof -
  have ry: "rep s (CR t p kp d) (Nd a y Black (Nd e z Red f))" and
    ra: "rep s (CL (CR t p kp d) y Black (Nd e z Red f)) a" and
    rb: "rep s (CR a y Black (CR t p kp d)) (Nd e z Red f)"
    using r by (simp_all add: rep_CL rep_CR)
  show ?thesis
    using erase_final_left [OF r, of aug] rep_fields [OF ry] rep_child(2) [OF ra] rep_child(2) [OF rb]
    by (simp add: erase_tail_left_def)
qed

lemma erase_inner_left:
  assumes r: "rep s (CL d p kp (Nd (Nd e z Red f) y Black b)) t" and h: "hue b = Black"
  shows "\<exists>s'. erase_tail_left aug p y s = Some (root s', s') \<and>
    rep s' d (Nd (Nd t p Black e) z kp (Nd f y Black b)) \<and>
    steady aug (set (walk d (Nd t p kp (Nd (Nd e z Red f) y Black b)))) s s'"
proof -
  have ry: "rep s (CR t p kp d) (Nd (Nd e z Red f) y Black b)" and
    rz: "rep s (CL (CR t p kp d) y Black b) (Nd e z Red f)" and
    rb: "rep s (CR (Nd e z Red f) y Black (CR t p kp d)) b"
    using r by (simp_all add: rep_CL rep_CR)
  obtain s1 where s1: "rb_set_black z s = Some s1" "rep s1 (CL (CR t p kp d) y Black b) (Nd e z Black f)"
    "steady aug (set (walk (CL (CR t p kp d) y Black b) (Nd e z Red f))) s s1"
    using rep_black [OF rz] .
  have "rep s1 (CR t p kp d) (Nd (Nd e z Black f) y Black b)" using s1(2) by (simp add: rep_CL)
  then obtain s2 where s2: "rb_set_red y s1 = Some s2" "rep s2 (CR t p kp d) (Nd (Nd e z Black f) y Red b)"
    "steady aug (set (walk (CR t p kp d) (Nd (Nd e z Black f) y Black b))) s1 s2"
    by (rule rep_red)
  obtain s3 where s3: "rb_rotate_right aug y s2 = Some s3" "rep s3 (CR t p kp d) (Nd e z Black (Nd f y Red b))"
    "steady aug (set (walk (CR t p kp d) (Nd (Nd e z Black f) y Red b))) s2 s3"
    using rep_rotate_right [OF s2(2)] .
  have p3: "rep s3 d (Nd t p kp (Nd e z Black (Nd f y Red b)))" and
    t3: "rep s3 (CL d p kp (Nd e z Black (Nd f y Red b))) t" using s3(2) by (simp_all add: rep_CR rep_CL)
  obtain s4 where s4: "do { color \<leftarrow> rb_color s3 p; s \<leftarrow> rb_set_color z color s3; s \<leftarrow> rb_set_black p s;
               o_out \<leftarrow> get_right s z; s \<leftarrow> rb_set_black o_out s; s \<leftarrow> rb_rotate_left aug p s;
               Some (root s, s) } = Some (root s4, s4)"
    "rep s4 d (Nd (Nd t p Black e) z kp (Nd f y Black b))"
    "steady aug (set (walk d (Nd t p kp (Nd e z Black (Nd f y Red b))))) s3 s4"
    using erase_final_left [OF t3, of aug] by blast
  have "steady aug (set (walk d (Nd t p kp (Nd (Nd e z Red f) y Black b)))) s s4"
    using s1(3) s2(3) s3(3) s4(3) by (simp add: walk_def) (meson steady_trans)
  moreover have "erase_tail_left aug p y s = Some (root s4, s4)"
    using rep_fields [OF ry] rep_child(2) [OF rz] rep_child(2) [OF rb] h s1(1) s2(1) s3(1)
      rep_fields [OF p3] s4(1)
    by (simp add: erase_tail_left_def)
  ultimately show ?thesis using s4(2) by blast
qed
lemma erase_both_right:
  assumes r: "rep s (CR (Nd b y Black a) p kp d) t" and h: "hue a = Black" "hue b = Black"
  shows "\<exists>s'. erase_tail_right aug p y s = rb_erase_loop aug p (cpar d) s' \<and>
    rep s' d (Nd (Nd b y Red a) p kp t) \<and> steady aug (set (walk d (Nd (Nd b y Black a) p kp t))) s s'"
proof -
  have ry: "rep s (CL d p kp t) (Nd b y Black a)" and ra: "rep s (CR b y Black (CL d p kp t)) a" and
    rb: "rep s (CL (CL d p kp t) y Black a) b"
    using r by (simp_all add: rep_CR rep_CL)
  obtain s1 where s1: "rb_set_red y s = Some s1" "rep s1 (CL d p kp t) (Nd b y Red a)"
    "steady aug (set (walk (CL d p kp t) (Nd b y Black a))) s s1"
    using rep_red [OF ry] .
  have rp: "rep s1 d (Nd (Nd b y Red a) p kp t)" using s1(2) by (simp add: rep_CL)
  have "erase_tail_right aug p y s = rb_erase_loop aug p (cpar d) s1"
    using rep_fields [OF ry] rep_child(2) [OF ra] rep_child(2) [OF rb] h s1(1) rep_fields [OF rp]
    by (simp add: erase_tail_right_def)
  then show ?thesis using rp s1(3) by auto
qed

lemma erase_final_right:
  assumes r: "rep s (CR (Nd (Nd f z Red e) q Black a) p kp d) t"
  shows "\<exists>s'. do { color \<leftarrow> rb_color s p; s \<leftarrow> rb_set_color q color s; s \<leftarrow> rb_set_black p s;
               o_out \<leftarrow> get_left s q; s \<leftarrow> rb_set_black o_out s; s \<leftarrow> rb_rotate_right aug p s;
               Some (root s, s) } = Some (root s', s') \<and>
    rep s' d (Nd (Nd f z Black e) q kp (Nd a p Black t)) \<and>
    steady aug (set (walk d (Nd (Nd (Nd f z Red e) q Black a) p kp t))) s s'"
proof -
  have rp: "rep s d (Nd (Nd (Nd f z Red e) q Black a) p kp t)" and
    rq: "rep s (CL d p kp t) (Nd (Nd f z Red e) q Black a)"
    using r by (simp_all add: rep_CR rep_CL)
  obtain s1 where s1: "rb_set_color q (colw kp) s = Some s1" "rep s1 (CL d p kp t) (Nd (Nd f z Red e) q kp a)"
    "steady aug (set (walk (CL d p kp t) (Nd (Nd f z Red e) q Black a))) s s1"
    using rep_paint [OF rq, of kp] .
  have "rep s1 d (Nd (Nd (Nd f z Red e) q kp a) p kp t)" using s1(2) by (simp add: rep_CL)
  then obtain s2 where s2: "rb_set_black p s1 = Some s2" "rep s2 d (Nd (Nd (Nd f z Red e) q kp a) p Black t)"
    "steady aug (set (walk d (Nd (Nd (Nd f z Red e) q kp a) p kp t))) s1 s2"
    by (rule rep_black)
  have q2: "rep s2 (CL d p Black t) (Nd (Nd f z Red e) q kp a)" and
    z2: "rep s2 (CL (CL d p Black t) q kp a) (Nd f z Red e)" using s2(2) by (simp_all add: rep_CL)
  obtain s3 where s3: "rb_set_black z s2 = Some s3" "rep s3 (CL (CL d p Black t) q kp a) (Nd f z Black e)"
    "steady aug (set (walk (CL (CL d p Black t) q kp a) (Nd f z Red e))) s2 s3"
    using rep_black [OF z2] .
  have "rep s3 d (Nd (Nd (Nd f z Black e) q kp a) p Black t)" using s3(2) by (simp add: rep_CL)
  then obtain s4 where s4: "rb_rotate_right aug p s3 = Some s4"
    "rep s4 d (Nd (Nd f z Black e) q kp (Nd a p Black t))"
    "steady aug (set (walk d (Nd (Nd (Nd f z Black e) q kp a) p Black t))) s3 s4"
    by (rule rep_rotate_right)
  have "steady aug (set (walk d (Nd (Nd (Nd f z Red e) q Black a) p kp t))) s s4"
    using s1(3) s2(3) s3(3) s4(3) by (simp add: walk_def) (meson steady_trans)
  then show ?thesis
    using rep_fields [OF rp] s1(1) s2(1) rep_fields [OF q2] s3(1) s4(1,2)
    by (intro exI [of _ s4]) simp
qed

lemma erase_outer_right:
  assumes r: "rep s (CR (Nd (Nd f z Red e) y Black a) p kp d) t"
  shows "\<exists>s'. erase_tail_right aug p y s = Some (root s', s') \<and>
    rep s' d (Nd (Nd f z Black e) y kp (Nd a p Black t)) \<and>
    steady aug (set (walk d (Nd (Nd (Nd f z Red e) y Black a) p kp t))) s s'"
proof -
  have ry: "rep s (CL d p kp t) (Nd (Nd f z Red e) y Black a)" and
    ra: "rep s (CR (Nd f z Red e) y Black (CL d p kp t)) a" and
    rb: "rep s (CL (CL d p kp t) y Black a) (Nd f z Red e)"
    using r by (simp_all add: rep_CR rep_CL)
  show ?thesis
    using erase_final_right [OF r, of aug] rep_fields [OF ry] rep_child(2) [OF ra] rep_child(2) [OF rb]
    by (simp add: erase_tail_right_def)
qed

lemma erase_inner_right:
  assumes r: "rep s (CR (Nd b y Black (Nd f z Red e)) p kp d) t" and h: "hue b = Black"
  shows "\<exists>s'. erase_tail_right aug p y s = Some (root s', s') \<and>
    rep s' d (Nd (Nd b y Black f) z kp (Nd e p Black t)) \<and>
    steady aug (set (walk d (Nd (Nd b y Black (Nd f z Red e)) p kp t))) s s'"
proof -
  have ry: "rep s (CL d p kp t) (Nd b y Black (Nd f z Red e))" and
    rz: "rep s (CR b y Black (CL d p kp t)) (Nd f z Red e)" and
    rb: "rep s (CL (CL d p kp t) y Black (Nd f z Red e)) b"
    using r by (simp_all add: rep_CR rep_CL)
  obtain s1 where s1: "rb_set_black z s = Some s1" "rep s1 (CR b y Black (CL d p kp t)) (Nd f z Black e)"
    "steady aug (set (walk (CR b y Black (CL d p kp t)) (Nd f z Red e))) s s1"
    using rep_black [OF rz] .
  have "rep s1 (CL d p kp t) (Nd b y Black (Nd f z Black e))" using s1(2) by (simp add: rep_CR)
  then obtain s2 where s2: "rb_set_red y s1 = Some s2" "rep s2 (CL d p kp t) (Nd b y Red (Nd f z Black e))"
    "steady aug (set (walk (CL d p kp t) (Nd b y Black (Nd f z Black e)))) s1 s2"
    by (rule rep_red)
  obtain s3 where s3: "rb_rotate_left aug y s2 = Some s3" "rep s3 (CL d p kp t) (Nd (Nd b y Red f) z Black e)"
    "steady aug (set (walk (CL d p kp t) (Nd b y Red (Nd f z Black e)))) s2 s3"
    using rep_rotate_left [OF s2(2)] .
  have p3: "rep s3 d (Nd (Nd (Nd b y Red f) z Black e) p kp t)" and
    t3: "rep s3 (CR (Nd (Nd b y Red f) z Black e) p kp d) t" using s3(2) by (simp_all add: rep_CL rep_CR)
  obtain s4 where s4: "do { color \<leftarrow> rb_color s3 p; s \<leftarrow> rb_set_color z color s3; s \<leftarrow> rb_set_black p s;
               o_out \<leftarrow> get_left s z; s \<leftarrow> rb_set_black o_out s; s \<leftarrow> rb_rotate_right aug p s;
               Some (root s, s) } = Some (root s4, s4)"
    "rep s4 d (Nd (Nd b y Black f) z kp (Nd e p Black t))"
    "steady aug (set (walk d (Nd (Nd (Nd b y Red f) z Black e) p kp t))) s3 s4"
    using erase_final_right [OF t3, of aug] by blast
  have "steady aug (set (walk d (Nd (Nd b y Black (Nd f z Red e)) p kp t))) s s4"
    using s1(3) s2(3) s3(3) s4(3) by (simp add: walk_def) (meson steady_trans)
  moreover have "erase_tail_right aug p y s = Some (root s4, s4)"
    using rep_fields [OF ry] rep_child(2) [OF rz] rep_child(2) [OF rb] h s1(1) s2(1) s3(1)
      rep_fields [OF p3] s4(1)
    by (simp add: erase_tail_right_def)
  ultimately show ?thesis using s4(2) by blast
qed

lemma red_node: "hue t = Red \<Longrightarrow> \<exists>l x r. t = Nd l x Red r"
  by (cases t) auto

lemma ctop_black: "ctop c k = Black \<Longrightarrow> ctop c Black = Black"
  by (cases c) auto

lemma rep_root_top: "rep s d u \<Longrightarrow> rb_tree (plug d u) \<Longrightarrow> u \<noteq> Lf \<Longrightarrow>
  \<exists>c t. rep s c t \<and> root s = rt t \<and> walk c t = walk d u \<and> rb_tree (plug c (paint t))"
proof (intro exI conjI)
  assume r: "rep s d u" and b: "rb_tree (plug d u)"
  then have t: "rep s Top (plug d u)" by (simp add: rep_plug)
  then show "rep s Top (plug d u)" .
  show "root s = rt (plug d u)" using t by (simp add: rep_def)
  show "walk Top (plug d u) = walk d u" by (simp add: inorder_plug walk_def)
  show "rb_tree (plug Top (paint (plug d u)))" using b by (simp add: rb_tree_def paint_black)
qed

lemma erase_tail_left_ready:
  assumes H: "\<And>s u. rep s d u \<Longrightarrow> lacking d u \<Longrightarrow> rt u = p \<Longrightarrow> hue u = kp \<Longrightarrow>
      \<exists>n s'. rb_erase_loop aug p (cpar d) s = Some (n, s') \<and> ready aug (walk d u) s n s'"
    and r: "rep s (CL d p kp (Nd a y Black b)) t" and t: "hue t = Black"
    and l: "lacking (CL d p kp (Nd a y Black b)) t"
  shows "\<exists>n s'. erase_tail_left aug p y s = Some (n, s') \<and>
    ready aug (walk d (Nd t p kp (Nd a y Black b))) s n s'"
proof -
  let ?L = "walk d (Nd t p kp (Nd a y Black b))"
  obtain n where n: "invc t" "invc a" "invc b" "cinvc d kp" "ctop d kp = Black" "bal t n" "bal a n" "bal b n"
      "cbal d (if kp = Black then Suc n + 1 else Suc n)"
    using l t by (auto simp: lacking_def paint_black)
  consider "hue a = Black" "hue b = Black" | e z f where "b = Nd e z Red f" |
      e z f where "a = Nd e z Red f" "hue b = Black"
    using red_node [of a] red_node [of b] color.exhaust by metis
  then show ?thesis
  proof cases
    case 1
    obtain s1 where s1: "erase_tail_left aug p y s = rb_erase_loop aug p (cpar d) s1"
      "rep s1 d (Nd t p kp (Nd a y Red b))" "steady aug (set ?L) s s1"
      using erase_both_left [OF r 1, of aug] by blast
    have "lacking d (Nd t p kp (Nd a y Red b))"
      using n 1 cinvc_black [OF n(4)] ctop_black [OF n(5)] unfolding lacking_def
      by (cases kp) (auto intro!: exI [of _ "if kp = Black then n + 1 else n"])
    then show ?thesis using H [OF s1(2)] s1(1) ready_trans [OF s1(3)] by (auto simp: walk_def)
  next
    case (2 e z f)
    obtain s1 where s1: "erase_tail_left aug p y s = Some (root s1, s1)"
      "rep s1 d (Nd (Nd t p Black a) y kp (Nd e z Black f))" "steady aug (set ?L) s s1"
      using erase_outer_left [of s d p kp a y e z f t aug] r 2 by auto
    have "rb_tree (plug d (Nd (Nd t p Black a) y kp (Nd e z Black f)))"
      using n 2 by (cases kp) (auto simp: rb_tree_plug intro!: exI [of _ "if kp = Black then n + 2 else n + 1"])
    then have "ready aug ?L s (root s1) s1"
      using rep_root_top [OF s1(2)] s1(3) 2 unfolding ready_def by (auto simp: walk_def)
    then show ?thesis using s1(1) by blast
  next
    case (3 e z f)
    obtain s1 where s1: "erase_tail_left aug p y s = Some (root s1, s1)"
      "rep s1 d (Nd (Nd t p Black e) z kp (Nd f y Black b))" "steady aug (set ?L) s s1"
      using erase_inner_left [of s d p kp e z f y b t aug] r 3 by auto
    have "rb_tree (plug d (Nd (Nd t p Black e) z kp (Nd f y Black b)))"
      using n 3 by (cases kp) (auto simp: rb_tree_plug intro!: exI [of _ "if kp = Black then n + 2 else n + 1"])
    then have "ready aug ?L s (root s1) s1"
      using rep_root_top [OF s1(2)] s1(3) 3 unfolding ready_def by (auto simp: walk_def)
    then show ?thesis using s1(1) by blast
  qed
qed

lemma erase_tail_right_ready:
  assumes H: "\<And>s u. rep s d u \<Longrightarrow> lacking d u \<Longrightarrow> rt u = p \<Longrightarrow> hue u = kp \<Longrightarrow>
      \<exists>n s'. rb_erase_loop aug p (cpar d) s = Some (n, s') \<and> ready aug (walk d u) s n s'"
    and r: "rep s (CR (Nd b y Black a) p kp d) t" and t: "hue t = Black"
    and l: "lacking (CR (Nd b y Black a) p kp d) t"
  shows "\<exists>n s'. erase_tail_right aug p y s = Some (n, s') \<and>
    ready aug (walk d (Nd (Nd b y Black a) p kp t)) s n s'"
proof -
  let ?L = "walk d (Nd (Nd b y Black a) p kp t)"
  obtain n where n: "invc t" "invc a" "invc b" "cinvc d kp" "ctop d kp = Black" "bal t n" "bal a n" "bal b n"
      "cbal d (if kp = Black then Suc n + 1 else Suc n)"
    using l t by (auto simp: lacking_def paint_black)
  consider "hue a = Black" "hue b = Black" | e z f where "b = Nd f z Red e" |
      e z f where "a = Nd f z Red e" "hue b = Black"
    using red_node [of a] red_node [of b] color.exhaust by metis
  then show ?thesis
  proof cases
    case 1
    obtain s1 where s1: "erase_tail_right aug p y s = rb_erase_loop aug p (cpar d) s1"
      "rep s1 d (Nd (Nd b y Red a) p kp t)" "steady aug (set ?L) s s1"
      using erase_both_right [OF r 1, of aug] by blast
    have "lacking d (Nd (Nd b y Red a) p kp t)"
      using n 1 cinvc_black [OF n(4)] ctop_black [OF n(5)] unfolding lacking_def
      by (cases kp) (auto intro!: exI [of _ "if kp = Black then n + 1 else n"])
    then show ?thesis using H [OF s1(2)] s1(1) ready_trans [OF s1(3)] by (auto simp: walk_def)
  next
    case (2 e z f)
    obtain s1 where s1: "erase_tail_right aug p y s = Some (root s1, s1)"
      "rep s1 d (Nd (Nd f z Black e) y kp (Nd a p Black t))" "steady aug (set ?L) s s1"
      using erase_outer_right [of s f z e y a p kp d t aug] r 2 by auto
    have "rb_tree (plug d (Nd (Nd f z Black e) y kp (Nd a p Black t)))"
      using n 2 by (cases kp) (auto simp: rb_tree_plug intro!: exI [of _ "if kp = Black then n + 2 else n + 1"])
    then have "ready aug ?L s (root s1) s1"
      using rep_root_top [OF s1(2)] s1(3) 2 unfolding ready_def by (auto simp: walk_def)
    then show ?thesis using s1(1) by blast
  next
    case (3 e z f)
    obtain s1 where s1: "erase_tail_right aug p y s = Some (root s1, s1)"
      "rep s1 d (Nd (Nd b y Black f) z kp (Nd e p Black t))" "steady aug (set ?L) s s1"
      using erase_inner_right [of s b y f z e p kp d t aug] r 3 by auto
    have "rb_tree (plug d (Nd (Nd b y Black f) z kp (Nd e p Black t)))"
      using n 3 by (cases kp) (auto simp: rb_tree_plug intro!: exI [of _ "if kp = Black then n + 2 else n + 1"])
    then have "ready aug ?L s (root s1) s1"
      using rep_root_top [OF s1(2)] s1(3) 3 unfolding ready_def by (auto simp: walk_def)
    then show ?thesis using s1(1) by blast
  qed
qed

text \<open>A red sibling is rotated up first; the node then has a red parent and a black sibling.\<close>

lemma erase_red_left:
  assumes r: "rep s (CL d p Black (Nd a y Red b)) t"
  shows "\<exists>s'. do { s \<leftarrow> rb_set_black y s; s \<leftarrow> rb_set_red p s; s \<leftarrow> rb_rotate_left aug p s;
               other \<leftarrow> get_right s p; erase_tail_left aug p other s } = erase_tail_left aug p (rt a) s' \<and>
    rep s' (CL (CL d y Black b) p Red a) t \<and> steady aug (set (walk d (Nd t p Black (Nd a y Red b)))) s s'"
proof -
  have ry: "rep s (CR t p Black d) (Nd a y Red b)" using r by (simp add: rep_CL rep_CR)
  obtain s1 where s1: "rb_set_black y s = Some s1" "rep s1 (CR t p Black d) (Nd a y Black b)"
    "steady aug (set (walk (CR t p Black d) (Nd a y Red b))) s s1"
    using rep_black [OF ry] .
  have "rep s1 d (Nd t p Black (Nd a y Black b))" using s1(2) by (simp add: rep_CR)
  then obtain s2 where s2: "rb_set_red p s1 = Some s2" "rep s2 d (Nd t p Red (Nd a y Black b))"
    "steady aug (set (walk d (Nd t p Black (Nd a y Black b)))) s1 s2"
    by (rule rep_red)
  obtain s3 where s3: "rb_rotate_left aug p s2 = Some s3" "rep s3 d (Nd (Nd t p Red a) y Black b)"
    "steady aug (set (walk d (Nd t p Red (Nd a y Black b)))) s2 s3"
    using rep_rotate_left [OF s2(2)] .
  have p3: "rep s3 (CL d y Black b) (Nd t p Red a)" and t3: "rep s3 (CL (CL d y Black b) p Red a) t"
    using s3(2) by (simp_all add: rep_CL)
  have "steady aug (set (walk d (Nd t p Black (Nd a y Red b)))) s s3"
    using s1(3) s2(3) s3(3) by (simp add: walk_def) (meson steady_trans)
  then show ?thesis
    using s1(1) s2(1) s3(1) rep_fields [OF p3] t3 by (intro exI [of _ s3]) simp
qed

lemma erase_loop_left_ready:
  assumes H: "\<And>s u. rep s d u \<Longrightarrow> lacking d u \<Longrightarrow>
      \<exists>n s'. rb_erase_loop aug (rt u) (cpar d) s = Some (n, s') \<and> ready aug (walk d u) s n s'"
    and r: "rep s (CL d p kp (Nd a y ky b)) t" and t: "hue t = Black"
    and l: "lacking (CL d p kp (Nd a y ky b)) t"
  shows "\<exists>n s'. rb_erase_loop aug (rt t) p s = Some (n, s') \<and>
    ready aug (walk d (Nd t p kp (Nd a y ky b))) s n s'"
proof (cases ky)
  case Black
  have b: "rep s (CL d p kp (Nd a y Black b)) t" "lacking (CL d p kp (Nd a y Black b)) t" using r l Black by simp_all
  have H': "\<And>s u. rep s d u \<Longrightarrow> lacking d u \<Longrightarrow> rt u = p \<Longrightarrow> hue u = kp \<Longrightarrow>
      \<exists>n s'. rb_erase_loop aug p (cpar d) s = Some (n, s') \<and> ready aug (walk d u) s n s'"
    using H by blast
  have "rb_erase_loop aug (rt t) p s = erase_tail_left aug p y s"
    using erase_loop_left [OF b(1) t, of aug] by simp
  then show ?thesis unfolding Black
    by (simp only:) (rule erase_tail_left_ready [OF _ b(1) t b(2)], rule H')
next
  case Red
  have kp: "kp = Black" using l Red by (cases kp) (auto simp: lacking_def)
  obtain n where n: "invc t" "invc a" "invc b" "hue a = Black" "hue b = Black" "bal t n" "bal a (Suc n)"
      "bal b (Suc n)" "cinvc d Black" "ctop d Black = Black" "cbal d (Suc n + 1)"
    using l t Red kp by (auto simp: lacking_def paint_black)
  obtain s1 where s1: "rb_erase_loop aug (rt t) p s = erase_tail_left aug p (rt a) s1"
    "rep s1 (CL (CL d y Black b) p Red a) t" "steady aug (set (walk d (Nd t p kp (Nd a y ky b)))) s s1"
    using erase_red_left [of s d p a y b t aug] r erase_loop_left [OF r t, of aug] Red kp by auto
  obtain e z f where a: "a = Nd e z Black f" using n(4,7) by (cases a) auto
  have l1: "lacking (CL (CL d y Black b) p Red (Nd e z Black f)) t"
    using n a t by (auto simp: lacking_def paint_black intro!: exI [of _ n])
  have "\<exists>n s'. erase_tail_left aug p z s1 = Some (n, s') \<and>
      ready aug (walk (CL d y Black b) (Nd t p Red (Nd e z Black f))) s1 n s'"
  proof (rule erase_tail_left_ready [OF _ s1(2) [unfolded a] t l1])
    fix s :: "'a rb_state" and u assume u: "rep s (CL d y Black b) u" "lacking (CL d y Black b) u" "rt u = p" "hue u = Red"
    then show "\<exists>n s'. rb_erase_loop aug p (cpar (CL d y Black b)) s = Some (n, s') \<and>
        ready aug (walk (CL d y Black b) u) s n s'"
      using erase_exit [OF u(1), of aug] ready_exit [OF u(1,2), of aug] by auto
  qed
  then show ?thesis
    using s1(1) ready_trans [OF s1(3)] a by (auto simp: walk_def)
qed

lemma erase_red_right:
  assumes r: "rep s (CR (Nd b y Red a) p Black d) t"
  shows "\<exists>s'. do { s \<leftarrow> rb_set_black y s; s \<leftarrow> rb_set_red p s; s \<leftarrow> rb_rotate_right aug p s;
               other \<leftarrow> get_left s p; erase_tail_right aug p other s } = erase_tail_right aug p (rt a) s' \<and>
    rep s' (CR a p Red (CR b y Black d)) t \<and> steady aug (set (walk d (Nd (Nd b y Red a) p Black t))) s s'"
proof -
  have ry: "rep s (CL d p Black t) (Nd b y Red a)" using r by (simp add: rep_CR rep_CL)
  obtain s1 where s1: "rb_set_black y s = Some s1" "rep s1 (CL d p Black t) (Nd b y Black a)"
    "steady aug (set (walk (CL d p Black t) (Nd b y Red a))) s s1"
    using rep_black [OF ry] .
  have "rep s1 d (Nd (Nd b y Black a) p Black t)" using s1(2) by (simp add: rep_CL)
  then obtain s2 where s2: "rb_set_red p s1 = Some s2" "rep s2 d (Nd (Nd b y Black a) p Red t)"
    "steady aug (set (walk d (Nd (Nd b y Black a) p Black t))) s1 s2"
    by (rule rep_red)
  obtain s3 where s3: "rb_rotate_right aug p s2 = Some s3" "rep s3 d (Nd b y Black (Nd a p Red t))"
    "steady aug (set (walk d (Nd (Nd b y Black a) p Red t))) s2 s3"
    using rep_rotate_right [OF s2(2)] .
  have p3: "rep s3 (CR b y Black d) (Nd a p Red t)" and t3: "rep s3 (CR a p Red (CR b y Black d)) t"
    using s3(2) by (simp_all add: rep_CR)
  have "steady aug (set (walk d (Nd (Nd b y Red a) p Black t))) s s3"
    using s1(3) s2(3) s3(3) by (simp add: walk_def) (meson steady_trans)
  then show ?thesis
    using s1(1) s2(1) s3(1) rep_fields [OF p3] t3 by (intro exI [of _ s3]) simp
qed

lemma erase_loop_right_ready:
  assumes H: "\<And>s u. rep s d u \<Longrightarrow> lacking d u \<Longrightarrow>
      \<exists>n s'. rb_erase_loop aug (rt u) (cpar d) s = Some (n, s') \<and> ready aug (walk d u) s n s'"
    and r: "rep s (CR (Nd b y ky a) p kp d) t" and t: "hue t = Black"
    and l: "lacking (CR (Nd b y ky a) p kp d) t"
  shows "\<exists>n s'. rb_erase_loop aug (rt t) p s = Some (n, s') \<and>
    ready aug (walk d (Nd (Nd b y ky a) p kp t)) s n s'"
proof (cases ky)
  case Black
  have b: "rep s (CR (Nd b y Black a) p kp d) t" "lacking (CR (Nd b y Black a) p kp d) t" using r l Black by simp_all
  have H': "\<And>s u. rep s d u \<Longrightarrow> lacking d u \<Longrightarrow> rt u = p \<Longrightarrow> hue u = kp \<Longrightarrow>
      \<exists>n s'. rb_erase_loop aug p (cpar d) s = Some (n, s') \<and> ready aug (walk d u) s n s'"
    using H by blast
  have "rb_erase_loop aug (rt t) p s = erase_tail_right aug p y s"
    using erase_loop_right [OF b(1) t, of aug] by simp
  then show ?thesis unfolding Black
    by (simp only:) (rule erase_tail_right_ready [OF _ b(1) t b(2)], rule H')
next
  case Red
  have kp: "kp = Black" using l Red by (cases kp) (auto simp: lacking_def)
  obtain n where n: "invc t" "invc a" "invc b" "hue a = Black" "hue b = Black" "bal t n" "bal a (Suc n)"
      "bal b (Suc n)" "cinvc d Black" "ctop d Black = Black" "cbal d (Suc n + 1)"
    using l t Red kp by (auto simp: lacking_def paint_black)
  obtain s1 where s1: "rb_erase_loop aug (rt t) p s = erase_tail_right aug p (rt a) s1"
    "rep s1 (CR a p Red (CR b y Black d)) t" "steady aug (set (walk d (Nd (Nd b y ky a) p kp t))) s s1"
    using erase_red_right [of s b y a p d t aug] r erase_loop_right [OF r t, of aug] Red kp by auto
  obtain e z f where a: "a = Nd f z Black e" using n(4,7) by (cases a) auto
  have l1: "lacking (CR (Nd f z Black e) p Red (CR b y Black d)) t"
    using n a t by (auto simp: lacking_def paint_black intro!: exI [of _ n])
  have "\<exists>n s'. erase_tail_right aug p z s1 = Some (n, s') \<and>
      ready aug (walk (CR b y Black d) (Nd (Nd f z Black e) p Red t)) s1 n s'"
  proof (rule erase_tail_right_ready [OF _ s1(2) [unfolded a] t l1])
    fix s :: "'a rb_state" and u assume u: "rep s (CR b y Black d) u" "lacking (CR b y Black d) u" "rt u = p" "hue u = Red"
    then show "\<exists>n s'. rb_erase_loop aug p (cpar (CR b y Black d)) s = Some (n, s') \<and>
        ready aug (walk (CR b y Black d) u) s n s'"
      using erase_exit [OF u(1), of aug] ready_exit [OF u(1,2), of aug] by auto
  qed
  then show ?thesis
    using s1(1) ready_trans [OF s1(3)] a by (auto simp: walk_def)
qed

lemma erase_loop_ready:
  "rep s c t \<Longrightarrow> lacking c t \<Longrightarrow>
   \<exists>n s'. rb_erase_loop aug (rt t) (cpar c) s = Some (n, s') \<and> ready aug (walk c t) s n s'"
proof (induction c arbitrary: s t)
  case Top
  then show ?case using erase_exit [of s Top t aug] ready_exit [of s Top t aug] by auto
next
  case (CL d p kp u)
  show ?case
  proof (cases "hue t = Red")
    case True
    then show ?thesis
      using erase_exit [OF CL.prems(1), of aug] ready_exit [OF CL.prems, of aug] by auto
  next
    case False
    obtain a y ky b where u: "u = Nd a y ky b" using CL.prems(2) by (cases u) (auto simp: lacking_def)
    have t: "hue t = Black" using False not_red by blast
    show ?thesis unfolding u cpar.simps walk_simps
      by (rule erase_loop_left_ready [OF _ CL.prems(1) [unfolded u] t CL.prems(2) [unfolded u]], rule CL.IH)
  qed
next
  case (CR u p kp d)
  show ?case
  proof (cases "hue t = Red")
    case True
    then show ?thesis
      using erase_exit [OF CR.prems(1), of aug] ready_exit [OF CR.prems, of aug] by auto
  next
    case False
    obtain a y ky b where u: "u = Nd b y ky a" using CR.prems(2) by (cases u) (auto simp: lacking_def)
    have t: "hue t = Black" using False not_red by blast
    show ?thesis unfolding u cpar.simps walk_simps
      by (rule erase_loop_right_ready [OF _ CR.prems(1) [unfolded u] t CR.prems(2) [unfolded u]], rule CR.IH)
  qed
qed

lemma erase_color_holds:
  assumes "rep s c t" "lacking c t"
  shows "\<exists>s'. rb_erase_color aug (rt t) (cpar c) s = Some s' \<and> holds_tree s' (walk c t) \<and>
    steady aug (set (walk c t)) s s'"
proof -
  obtain s1 d u where s1: "rb_erase_loop aug (rt t) (cpar c) s = Some (rt u, s1)" "steady aug (set (walk c t)) s s1"
    "rep s1 d u" "walk d u = walk c t" "rb_tree (plug d (paint u))"
    using erase_loop_ready [OF assms, of aug] unfolding ready_def by blast
  show ?thesis
  proof (cases u)
    case Lf
    then have "holds_tree s1 (walk c t)"
      using s1(3,4,5) rep_plug [of s1 d u] unfolding holds_tree_def by (metis inorder_plug paint.simps(1) walk_def)
    then show ?thesis using s1(1,2) Lf by (simp add: rb_erase_color_def)
  next
    case (Nd l x k r)
    obtain s2 where s2: "rb_set_black x s1 = Some s2" "rep s2 d (Nd l x Black r)"
      "steady aug (set (walk d (Nd l x k r))) s1 s2"
      using rep_black [of s1 d l x k r aug] s1(3) Nd by blast
    have "rep s2 Top (plug d (paint u))" using s2(2) Nd by (simp add: rep_plug)
    moreover have "inorder (plug d (paint u)) = walk c t"
      using s1(4) by (simp add: inorder_plug walk_def)
    ultimately have "holds_tree s2 (walk c t)" using s1(5) unfolding holds_tree_def by blast
    moreover have "steady aug (set (walk c t)) s s2"
      using s1(2,4) s2(3) Nd steady_trans by (metis)
    moreover have "x \<noteq> 0" using rep_node(2) s1(3) Nd by blast
    ultimately show ?thesis using s1(1) s2(1) Nd by (simp add: rb_erase_color_def)
  qed
qed

subsection \<open>Taking a node out\<close>

lemma bal_zero: "bal t 0 \<Longrightarrow> hue t = Black \<Longrightarrow> t = Lf"
  by (cases t) auto

lemma invc_paint: "invc t \<Longrightarrow> invc (paint t)"
  by (cases t) auto

text \<open>A node with at most one child is replaced by it.\<close>

lemma unlink_lacking:
  assumes "rb_tree (plug c (Nd l x k r))" "l = Lf \<and> ch = r \<or> r = Lf \<and> ch = l"
  shows "if k = Black then lacking c ch else rb_tree (plug c ch)"
proof -
  obtain n where n: "invc l" "invc r" "k = Red \<longrightarrow> hue l = Black \<and> hue r = Black" "cinvc c k" "ctop c k = Black"
    "bal l n" "bal r n" "cbal c (if k = Black then n + 1 else n)"
    using assms(1) unfolding rb_tree_plug bal_step by auto
  have "n = 0" using assms(2) n(6,7) by auto
  then have ch: "bal ch 0" "invc ch" "k = Red \<longrightarrow> hue ch = Black" using assms(2) n by auto
  show ?thesis
  proof (cases k)
    case Black
    then show ?thesis
      using ch n(4,5,8) \<open>n = 0\<close> by (auto simp: lacking_def invc_paint)
  next
    case Red
    then have "ch = Lf" using ch bal_zero by blast
    then show ?thesis
      using Red n(4,5,8) \<open>n = 0\<close> cinvc_black ctop_black by (auto simp: rb_tree_plug)
  qed
qed

lemma rb_erase_one_relink:
  "rb_erase_one node child s =
     do { parent \<leftarrow> rb_parent s node;
          color \<leftarrow> rb_color s node;
          s \<leftarrow> (if child \<noteq> 0 then rb_set_parent child parent s else Some s);
          s \<leftarrow> relink_l parent node child s;
          Some (child, parent, parent, color, s) }"
  unfolding rb_erase_one_def relink_l_def eq_commute [of node] ..

lemma erase_one_rep:
  assumes r: "rep s c (Nd l x k r)" and ch: "l = Lf \<and> ch = r \<or> r = Lf \<and> ch = l"
  shows "\<exists>s'. rb_erase_one x (rt ch) s = Some (rt ch, cpar c, cpar c, colw k, s') \<and> rep s' c ch \<and>
    frame aug (set (walk c (Nd l x k r))) s s' \<and> aux s' = aux s"
proof -
  have tr: "tree (nodes s) ch x" and cx: "ctx_at (nodes s) c x" "root s = croot c x" and x: "x \<noteq> 0" "x AND 3 = 0"
    and di: "distinct (before c @ inorder (Nd l x k r) @ behind c)"
    using r ch by (auto simp: rep_def ok_def)
  have dch: "distinct (inorder ch)" "x \<notin> set (inorder ch)" "set (inorder ch) \<inter> (set (before c) \<union> set (behind c)) = {}"
    "x \<notin> set (before c)" "x \<notin> set (behind c)" "distinct (before c @ behind c)"
    using di ch by auto
  obtain h1 where h1: "(if rt ch \<noteq> 0 then rb_set_parent (rt ch) (cpar c) s else Some s) = Some (s\<lparr>nodes := h1\<rparr>)"
    "tree h1 ch (cpar c)" "\<forall>a. a \<notin> set (inorder ch) \<longrightarrow> h1 a = nodes s a"
    using reparent [OF tr x(2) dch(1), of "cpar c"] by blast
  have "\<forall>p \<in> set (before c) \<union> set (behind c). h1 p = nodes s p" using h1(3) dch(3) by blast
  then have c1: "ctx_at (nodes (s\<lparr>nodes := h1\<rparr>)) c x" "root (s\<lparr>nodes := h1\<rparr>) = croot c x"
    using cx ctx_cong [of c h1 "nodes s" x] by simp_all
  obtain h2 where h2: "relink_l (cpar c) x (rt ch) (s\<lparr>nodes := h1\<rparr>) = Some (s\<lparr>nodes := h2, root := croot c (rt ch)\<rparr>)"
    "ctx_at h2 c (rt ch)" "\<forall>a. a \<notin> set (before c) \<union> set (behind c) \<longrightarrow> h2 a = h1 a"
    using relink [OF c1 dch(6) x(1) dch(4,5), of "rt ch"] by auto
  define s2 where "s2 = s\<lparr>nodes := h2, root := croot c (rt ch)\<rparr>"
  have "tree h2 ch (cpar c)" using h1(2) h2(3) dch(3) tree_cong [of ch h2 h1] by blast
  then have "rep s2 c ch" using h2(2) di ch by (auto simp: rep_def s2_def)
  moreover have "frame aug (set (walk c (Nd l x k r))) s s2"
    using h1(3) h2(3) ch by (auto simp: frame_def s2_def walk_def)
  moreover have "rb_erase_one x (rt ch) s = Some (rt ch, cpar c, cpar c, colw k, s2)"
    using h1(1) h2(1) rep_fields [OF r] by (simp add: rb_erase_one_relink s2_def)
  moreover have "aux s2 = aux s" by (simp add: s2_def)
  ultimately show ?thesis by blast
qed

text \<open>The least node of a tree: its address, colour and right child, and the tree without it.\<close>

fun min_split :: "rbt \<Rightarrow> ptr \<times> color \<times> rbt" where
  "min_split (Nd Lf y k ch) = (y, k, ch)"
| "min_split (Nd (Nd a x j b) z k r) = min_split (Nd a x j b)"
| "min_split Lf = (0, Black, Lf)"

fun del_min :: "rbt \<Rightarrow> rbt" where
  "del_min (Nd Lf y k ch) = ch"
| "del_min (Nd (Nd a x j b) z k r) = Nd (del_min (Nd a x j b)) z k r"
| "del_min Lf = Lf"

fun hole_ctx :: "ctx \<Rightarrow> rbt \<Rightarrow> ctx" where
  "hole_ctx c (Nd Lf y k ch) = c"
| "hole_ctx c (Nd (Nd a x j b) z k r) = hole_ctx (CL c z k r) (Nd a x j b)"
| "hole_ctx c Lf = c"

fun has_left :: "rbt \<Rightarrow> bool" where
  "has_left (Nd (Nd a x j b) z k r) = True"
| "has_left t = False"

lemma plug_hole:
  "t \<noteq> Lf \<Longrightarrow> min_split t = (y, k, ch) \<Longrightarrow>
   plug (hole_ctx c t) (Nd Lf y k ch) = plug c t \<and> plug (hole_ctx c t) ch = plug c (del_min t)"
  by (induction c t rule: hole_ctx.induct) auto

lemma inorder_del_min: "t \<noteq> Lf \<Longrightarrow> min_split t = (y, k, ch) \<Longrightarrow> inorder t = y # inorder (del_min t)"
  by (induction t rule: del_min.induct) auto

lemma rt_del_min: "has_left t \<Longrightarrow> rt (del_min t) = rt t"
  by (cases t rule: has_left.cases) auto

lemma cpar_hole: "has_left t \<Longrightarrow> cpar (hole_ctx c t) = cpar (hole_ctx Top t)"
proof -
  have "has_left t \<Longrightarrow> cpar (hole_ctx c t) = cpar (hole_ctx d t)" for d
  proof (induction t arbitrary: c d rule: del_min.induct)
    case (2 a x j b z k r)
    then show ?case by (cases a) auto
  qed auto
  then show "has_left t \<Longrightarrow> cpar (hole_ctx c t) = cpar (hole_ctx Top t)" .
qed

lemma cpar_hole_none: "\<not> has_left t \<Longrightarrow> cpar (hole_ctx c t) = cpar c"
  by (cases t rule: has_left.cases) auto

lemma leftmost_min:
  "rep s c t \<Longrightarrow> t \<noteq> Lf \<Longrightarrow> leftmost s (rt t) = Some (fst (min_split t))"
proof (induction c t rule: hole_ctx.induct)
  case (1 c y k ch)
  then show ?case using rep_fields(1) [of s c Lf y k ch] by (simp add: leftmost.simps)
next
  case (2 c a x j b z k r)
  have r: "rep s (CL c z k r) (Nd a x j b)" using 2(2) by (simp add: rep_CL)
  then show ?case using 2(1) rep_fields(1) [OF 2(2)] rep_node(2) [OF r]
    by (simp add: leftmost.simps [of s z])
qed simp

text \<open>The pointer operations that take the least node out of a right subtree.\<close>

lemma del_min_heap:
  assumes "tree (nodes s) t q" "distinct (inorder t)" "has_left t" "min_split t = (y, ky, ch)"
  shows "\<exists>h. do { s \<leftarrow> (if rt ch \<noteq> 0 then rb_set_parent (rt ch) (cpar (hole_ctx Top t)) s else Some s);
                 set_left (cpar (hole_ctx Top t)) (rt ch) s } = Some (s\<lparr>nodes := h\<rparr>) \<and>
    tree h (del_min t) q \<and> (\<forall>a. a \<notin> set (inorder (del_min t)) \<longrightarrow> h a = nodes s a) \<and>
    (\<exists>g l r. nodes s y = Some (mk g ky l r))"
  using assms
proof (induction t arbitrary: q rule: del_min.induct)
  case (2 a x j b z k r)
  show ?case
  proof (cases a)
    case Lf
    then have y: "y = x" "ky = j" "ch = b" using 2(5) by auto
    have tx: "x AND 3 = 0" "z \<noteq> 0" using 2(2) Lf by (auto simp: ok_def)
    obtain h1 where h1: "(if rt b \<noteq> 0 then rb_set_parent (rt b) z s else Some s) = Some (s\<lparr>nodes := h1\<rparr>)"
      "tree h1 b z" "\<forall>a. a \<notin> set (inorder b) \<longrightarrow> h1 a = nodes s a"
      using reparent [of s b x z] 2(2,3) tx by auto
    have "node_at (s\<lparr>nodes := h1\<rparr>) z = Some (mk q k x (rt r))"
      using h1(3) 2(2,3) tx Lf by (auto simp: node_at_def)
    moreover define h2 where "h2 = h1(z \<mapsto> mk q k (rt b) (rt r))"
    ultimately have l2: "set_left z (rt b) (s\<lparr>nodes := h1\<rparr>) = Some (s\<lparr>nodes := h2\<rparr>)"
      by (simp add: set_left_def upd_node_Some)
    have "tree h1 r z" using 2(2,3) h1(3) tree_cong [of r h1 "nodes s" z] by auto
    then have t2: "tree h2 (Nd b z k r) q" using h1(2) 2(2,3) by (auto simp: h2_def)
    have c: "cpar (hole_ctx Top (Nd (Nd a x j b) z k r)) = z"
      "del_min (Nd (Nd a x j b) z k r) = Nd b z k r" using Lf by simp_all
    show ?thesis unfolding c y
    proof (intro exI [of _ h2] conjI t2)
      show "do { s \<leftarrow> (if rt b \<noteq> 0 then rb_set_parent (rt b) z s else Some s); set_left z (rt b) s } =
          Some (s\<lparr>nodes := h2\<rparr>)" unfolding h1(1) using l2 by simp
      show "\<forall>a. a \<notin> set (inorder (Nd b z k r)) \<longrightarrow> h2 a = nodes s a" using h1(3) by (auto simp: h2_def)
      show "\<exists>g l r. nodes s x = Some (mk g j l r)" using 2(2) by auto
    qed
  next
    case (Nd a1 x1 j1 b1)
    let ?t = "Nd a x j b"
    have cp: "cpar (hole_ctx Top (Nd ?t z k r)) = cpar (hole_ctx Top ?t)"
      using cpar_hole [of ?t "CL Top z k r"] Nd by simp
    have pre: "tree (nodes s) ?t z" "distinct (inorder ?t)" "has_left ?t" "min_split ?t = (y, ky, ch)"
      using 2(2-5) Nd by auto
    obtain h where h: "do { s \<leftarrow> (if rt ch \<noteq> 0 then rb_set_parent (rt ch) (cpar (hole_ctx Top ?t)) s else Some s);
                 set_left (cpar (hole_ctx Top ?t)) (rt ch) s } = Some (s\<lparr>nodes := h\<rparr>)"
      "tree h (del_min ?t) z" "\<forall>a. a \<notin> set (inorder (del_min ?t)) \<longrightarrow> h a = nodes s a"
      "\<exists>g l r. nodes s y = Some (mk g ky l r)"
      using 2(1) [OF pre] by blast
    have "set (inorder ?t) = insert y (set (inorder (del_min ?t)))"
      using inorder_del_min [OF _ pre(4)] by (metis list.simps(15) rbt.distinct(1))
    moreover have "z \<notin> set (inorder ?t)" "set (inorder r) \<inter> set (inorder ?t) = {}" using 2(3) by auto
    ultimately have "z \<notin> set (inorder (del_min ?t))" "set (inorder r) \<inter> set (inorder (del_min ?t)) = {}"
      by blast+
    moreover from this have "tree h r z"
      using 2(2) h(3) tree_cong [of r h "nodes s" z] by auto
    ultimately have "tree h (del_min (Nd ?t z k r)) q"
      using 2(2) h(2,3) rt_del_min [OF pre(3)] by auto
    then show ?thesis unfolding cp using h(1,3,4) by (intro exI [of _ h] conjI) auto
  qed
qed auto

definition min_parent :: "ptr \<Rightarrow> rbt \<Rightarrow> ptr" where
  "min_parent q t = (if has_left t then cpar (hole_ctx Top t) else q)"

lemma min_node:
  assumes "tree h t q" "t \<noteq> Lf" "min_split t = (y, ky, ch)"
  shows "h y = Some (mk (min_parent q t) ky 0 (rt ch)) \<and> ok y"
  using assms
proof (induction t arbitrary: q rule: del_min.induct)
  case (2 a x j b z k r)
  have "h y = Some (mk (min_parent z (Nd a x j b)) ky 0 (rt ch)) \<and> ok y" using 2 by auto
  moreover have "min_parent z (Nd a x j b) = min_parent q (Nd (Nd a x j b) z k r)"
    using cpar_hole [of "Nd a x j b" "CL Top z k r"] by (cases a) (auto simp: min_parent_def)
  ultimately show ?case by simp
qed (auto simp: min_parent_def)

lemma hole_parent_in: "has_left t \<Longrightarrow> cpar (hole_ctx Top t) \<in> set (inorder (del_min t))"
proof (induction t rule: del_min.induct)
  case (2 a x j b z k r)
  then show ?case using cpar_hole [of "Nd a x j b" "CL Top z k r"] by (cases a) auto
qed auto

lemma hole_parent_ok: "tree h t q \<Longrightarrow> has_left t \<Longrightarrow> ok (cpar (hole_ctx Top t))"
proof (induction t arbitrary: q rule: del_min.induct)
  case (2 a x j b z k r)
  then show ?case using cpar_hole [of "Nd a x j b" "CL Top z k r"] by (cases a) auto
qed auto

text \<open>The branch on \<open>parent == old\<close>: the right subtree loses its least node \<open>y\<close> and hangs below it.\<close>

definition splice_right :: "ptr \<Rightarrow> ptr \<Rightarrow> ptr \<Rightarrow> ptr \<Rightarrow> 'x rb_state \<Rightarrow> (ptr \<times> ptr \<times> 'x rb_state) option" where
  "splice_right old node child parent s =
     (if parent = old then Some (node, node, s)
      else do { s \<leftarrow> (if child \<noteq> 0 then rb_set_parent child parent s else Some s);
                s \<leftarrow> set_left parent child s;
                old_right \<leftarrow> get_right s old;
                s \<leftarrow> set_right node old_right s;
                s \<leftarrow> rb_set_parent old_right node s;
                Some (parent, parent, s) })"

lemma splice_right_rep:
  assumes tr: "tree (nodes s) r x" and r: "r \<noteq> Lf" "distinct (inorder r)" "x \<notin> set (inorder r)"
    and x: "ok x" "nodes s x = Some (mk P k L (rt r))" and m: "min_split r = (y, ky, ch)"
  shows "\<exists>h g j l. splice_right x y (rt ch) (min_parent x r) s =
      Some (min_parent y r, min_parent y r, s\<lparr>nodes := h\<rparr>) \<and> tree h (del_min r) y \<and>
    h y = Some (mk g j l (rt (del_min r))) \<and>
    (\<forall>a. a \<notin> set (inorder r) \<longrightarrow> h a = nodes s a)"
proof (cases "has_left r")
  case False
  then have rr: "r = Nd Lf y ky ch" using r(1) m by (cases r rule: has_left.cases) auto
  then show ?thesis using tr by (intro exI [of _ "nodes s"]) (auto simp: splice_right_def min_parent_def)
next
  case True
  let ?q = "cpar (hole_ctx Top r)"
  have ins: "set (inorder r) = insert y (set (inorder (del_min r)))" "y \<notin> set (inorder (del_min r))"
    "distinct (inorder (del_min r))"
    using inorder_del_min [OF r(1) m] r(2) by auto
  have q: "?q \<noteq> x" using hole_parent_in [OF True] ins r(3) by auto
  obtain h1 where h1: "do { s \<leftarrow> (if rt ch \<noteq> 0 then rb_set_parent (rt ch) ?q s else Some s);
      set_left ?q (rt ch) s } = Some (s\<lparr>nodes := h1\<rparr>)" "tree h1 (del_min r) x"
    "\<forall>a. a \<notin> set (inorder (del_min r)) \<longrightarrow> h1 a = nodes s a"
    using del_min_heap [OF tr r(2) True m] by blast
  have y: "h1 y = Some (mk ?q ky 0 (rt ch))" "ok y" using min_node [OF tr r(1) m] h1(3) ins True
    by (auto simp: min_parent_def)
  define h2 where "h2 = h1(y \<mapsto> mk ?q ky 0 (rt r))"
  have gx: "get_right (s\<lparr>nodes := h1\<rparr>) x = Some (rt r)"
    using h1(3) r(3) ins x by (auto simp: get_right_def node_at_def ok_def)
  have 2: "set_right y (rt r) (s\<lparr>nodes := h1\<rparr>) = Some (s\<lparr>nodes := h2\<rparr>)"
    using y by (auto simp: set_right_def upd_node_def node_at_def ok_def h2_def)
  have "tree (nodes (s\<lparr>nodes := h2\<rparr>)) (del_min r) x" using h1(2) ins by (simp add: h2_def)
  then obtain h3 where h3: "(if rt (del_min r) \<noteq> 0 then rb_set_parent (rt (del_min r)) y (s\<lparr>nodes := h2\<rparr>)
      else Some (s\<lparr>nodes := h2\<rparr>)) = Some (s\<lparr>nodes := h3\<rparr>)" "tree h3 (del_min r) y"
    "\<forall>a. a \<notin> set (inorder (del_min r)) \<longrightarrow> h3 a = h2 a"
    using reparent [of "s\<lparr>nodes := h2\<rparr>" "del_min r" x y] x(1) ins(3) by (auto simp: ok_def)
  have "rt r \<noteq> 0" using tree_rt_zero [OF tr] r(1) by simp
  then have 3: "rb_set_parent (rt r) y (s\<lparr>nodes := h2\<rparr>) = Some (s\<lparr>nodes := h3\<rparr>)"
    using h3(1) rt_del_min [OF True] by simp
  obtain s0 where s0: "(if rt ch \<noteq> 0 then rb_set_parent (rt ch) ?q s else Some s) = Some s0"
    "set_left ?q (rt ch) s0 = Some (s\<lparr>nodes := h1\<rparr>)"
    using h1(1) by (cases "if rt ch \<noteq> 0 then rb_set_parent (rt ch) ?q s else Some s") simp_all
  have "splice_right x y (rt ch) ?q s = Some (?q, ?q, s\<lparr>nodes := h3\<rparr>)"
    unfolding splice_right_def s0(1) using q s0(2) gx 2 3 by simp
  then show ?thesis
    using h3(2,3) h1(3) ins True rt_del_min [OF True]
    by (intro exI [of _ h3]) (auto simp: min_parent_def h2_def)
qed

lemma rb_erase_two_splice:
  "rb_erase_two old s =
     do { old_right \<leftarrow> get_right s old;
          node \<leftarrow> leftmost s old_right;
          old_parent \<leftarrow> rb_parent s old;
          s \<leftarrow> relink_l old_parent old node s;
          child \<leftarrow> get_right s node;
          parent \<leftarrow> rb_parent s node;
          color \<leftarrow> rb_color s node;
          (parent, augment_from, s) \<leftarrow> splice_right old node child parent s;
          old_node \<leftarrow> node_at s old;
          s \<leftarrow> upd_node node (\<lambda>n. n\<lparr>rb_parent_color := rb_parent_color old_node\<rparr>) s;
          old_left \<leftarrow> get_left s old;
          s \<leftarrow> set_left node old_left s;
          s \<leftarrow> rb_set_parent old_left node s;
          Some (child, parent, augment_from, color, s) }"
  unfolding rb_erase_two_def splice_right_def relink_l_def eq_commute [of old] ..

lemma mk_take_word:
  "(mk g j l r)\<lparr>rb_parent_color := rb_parent_color (mk P k a b)\<rparr> = mk P k l r"
  by (simp add: mk_def)

lemma mk_fields:
  assumes "node_at s p = Some (mk q k l r)" "q AND 3 = 0"
  shows "get_left s p = Some l" "get_right s p = Some r" "rb_parent s p = Some q" "rb_color s p = Some (colw k)"
  unfolding get_left_def get_right_def rb_parent_def rb_color_def assms(1) option.map mk_word [OF assms(2)]
  by (simp_all add: mk_def)

lemma erase_two_rep:
  assumes r: "rep s c (Nd l x k r)" and ne: "l \<noteq> Lf" "r \<noteq> Lf" and m: "min_split r = (y, ky, ch)"
  shows "\<exists>s'. rb_erase_two x s = Some (rt ch, min_parent y r, min_parent y r, colw ky, s') \<and>
    rep s' c (Nd l y k (del_min r)) \<and> frame aug (set (walk c (Nd l x k r))) s s' \<and> aux s' = aux s"
proof -
  let ?P = "cpar c"
  have tl: "tree (nodes s) l x" and trr: "tree (nodes s) r x" and okx: "ok x"
    and nx: "nodes s x = Some (mk ?P k (rt l) (rt r))"
    and cx: "ctx_at (nodes s) c x" "root s = croot c x"
    and di: "distinct (before c @ inorder l @ x # inorder r @ behind c)"
    using r by (auto simp: rep_def)
  have x: "x \<noteq> 0" "x AND 3 = 0" using okx by (auto simp: ok_def)
  have ins: "inorder r = y # inorder (del_min r)" by (rule inorder_del_min [OF ne(2) m])
  have rr: "rep s (CR l x k c) r" using r by (simp add: rep_CR)
  have lm: "leftmost s (rt r) = Some y" using leftmost_min [OF rr ne(2)] m by simp
  obtain h1 where h1: "relink_l ?P x y s = Some (s\<lparr>nodes := h1, root := croot c y\<rparr>)" "ctx_at h1 c y"
    "\<forall>a. a \<notin> set (before c) \<union> set (behind c) \<longrightarrow> h1 a = nodes s a"
    using relink [OF cx _ x(1), of y] di by auto
  define s1 where "s1 = s\<lparr>nodes := h1, root := croot c y\<rparr>"
  have e1: "h1 a = nodes s a" if "a = x \<or> a \<in> set (inorder l) \<or> a \<in> set (inorder r)" for a
    using h1(3) that di by auto
  have tr1: "tree (nodes s1) r x" and tl1: "tree h1 l x"
    using trr tl tree_cong [of r h1 "nodes s" x] tree_cong [of l h1 "nodes s" x] e1 by (auto simp: s1_def)
  have nx1: "nodes s1 x = Some (mk ?P k (rt l) (rt r))" using e1 [of x] nx by (simp add: s1_def)
  have ny: "nodes s1 y = Some (mk (min_parent x r) ky 0 (rt ch))" "ok y"
    using min_node [OF tr1 ne(2) m] by auto
  have q3: "min_parent x r AND 3 = 0"
    using hole_parent_ok [OF trr] x(2) by (auto simp: min_parent_def ok_def)
  have y0: "y \<noteq> 0" using ny(2) by (simp add: ok_def)
  have ay: "node_at s1 y = Some (mk (min_parent x r) ky 0 (rt ch))" using ny(1) y0 by (simp add: node_at_def)
  have fy: "get_right s1 y = Some (rt ch)" "rb_parent s1 y = Some (min_parent x r)" "rb_color s1 y = Some (colw ky)"
    using mk_fields [OF ay q3] by simp_all
  obtain h2 g j l' where h2: "splice_right x y (rt ch) (min_parent x r) s1 =
      Some (min_parent y r, min_parent y r, s1\<lparr>nodes := h2\<rparr>)" "tree h2 (del_min r) y"
    "h2 y = Some (mk g j l' (rt (del_min r)))" "\<forall>a. a \<notin> set (inorder r) \<longrightarrow> h2 a = nodes s1 a"
    using splice_right_rep [OF tr1 ne(2) _ _ okx nx1 m] di by auto
  define h3 where "h3 = h2(y \<mapsto> mk ?P k (rt l) (rt (del_min r)))"
  have nx2: "h2 x = Some (mk ?P k (rt l) (rt r))" using h2(4) nx1 di by auto
  have n2: "node_at (s1\<lparr>nodes := h2\<rparr>) x = Some (mk ?P k (rt l) (rt r))" using nx2 x(1) by (simp add: node_at_def)
  have yx: "y \<noteq> x" using di ins by auto
  have 3: "upd_node y (\<lambda>n. n\<lparr>rb_parent_color := rb_parent_color (mk ?P k (rt l) (rt r))\<rparr>) (s1\<lparr>nodes := h2\<rparr>) =
      Some (s1\<lparr>nodes := h2(y \<mapsto> mk ?P k l' (rt (del_min r)))\<rparr>)"
    using h2(3) y0 by (simp add: upd_node_def node_at_def mk_take_word)
  have 4: "get_left (s1\<lparr>nodes := h2(y \<mapsto> mk ?P k l' (rt (del_min r)))\<rparr>) x = Some (rt l)"
    using nx2 x(1) yx by (simp add: get_left_def node_at_def)
  have 5: "set_left y (rt l) (s1\<lparr>nodes := h2(y \<mapsto> mk ?P k l' (rt (del_min r)))\<rparr>) = Some (s1\<lparr>nodes := h3\<rparr>)"
    using y0 by (simp add: set_left_def upd_node_def node_at_def h3_def)
  have e3: "h3 a = h1 a" if "a \<notin> set (inorder r)" for a
    using that h2(4) ins by (simp add: h3_def s1_def)
  have "tree (nodes (s1\<lparr>nodes := h3\<rparr>)) l x"
    using tl1 tree_cong [of l h3 h1 x] e3 di by auto
  then obtain h4 where h4: "(if rt l \<noteq> 0 then rb_set_parent (rt l) y (s1\<lparr>nodes := h3\<rparr>) else Some (s1\<lparr>nodes := h3\<rparr>)) =
      Some (s1\<lparr>nodes := h4\<rparr>)" "tree h4 l y" "\<forall>a. a \<notin> set (inorder l) \<longrightarrow> h4 a = h3 a"
    using reparent [of "s1\<lparr>nodes := h3\<rparr>" l x y] x(2) di by auto
  have l0: "rt l \<noteq> 0" using tree_rt_zero [OF tl] ne(1) by simp
  have "tree h2 (del_min r) y = tree h4 (del_min r) y"
    using h4(3) di ins by (intro tree_cong) (auto simp: h3_def)
  moreover have "h4 y = Some (mk ?P k (rt l) (rt (del_min r)))" using h4(3) di ins by (auto simp: h3_def)
  moreover have "h4 a = h1 a" if "a \<notin> set (inorder l)" "a \<notin> set (inorder r)" for a
    using that h4(3) e3 by simp
  then have "ctx_at h4 c y = ctx_at h1 c y"
    using di by (intro ctx_cong) auto
  ultimately have "rep (s1\<lparr>nodes := h4\<rparr>) c (Nd l y k (del_min r))"
    using h2(2) h4(2) h1(2) ny(2) di ins by (auto simp: rep_def s1_def)
  moreover have "frame aug (set (walk c (Nd l x k r))) s (s1\<lparr>nodes := h4\<rparr>)"
    using h4(3) e3 h1(3) by (auto simp: frame_def s1_def walk_def)
  moreover have "rb_erase_two x s = Some (rt ch, min_parent y r, min_parent y r, colw ky, s1\<lparr>nodes := h4\<rparr>)"
    unfolding rb_erase_two_splice
    using rep_fields [OF r] lm h1(1) fy h2(1) n2 3 4 5 h4(1) l0 by (simp add: s1_def [symmetric])
  moreover have "aux (s1\<lparr>nodes := h4\<rparr>) = aux s" by (simp add: s1_def)
  ultimately show ?thesis by blast
qed

text \<open>The end of \<open>__rb_erase\<close>: the augmentation path and, if a black node went away, the rebalancing.\<close>

lemma erase_finish:
  assumes r: "rep s1 d u" and f: "frame aug A s s1" "set (walk d u) \<subseteq> A" "aux s1 = aux s"
    and k: "if k = Black then lacking d u else rb_tree (plug d u)"
    and off: "\<And>z. z \<in> set (walk d u) \<Longrightarrow> z \<notin> set (path_up d) \<Longrightarrow> kids (nodes s1) z = kids (nodes s) z"
  shows "\<exists>s'. do { s \<leftarrow> rb_augment_path aug (cpar d) s1;
        if colw k = KRB_BLACK then rb_erase_color aug (rt u) (cpar d) s else Some s } = Some s' \<and>
      holds_tree s' (walk d u) \<and> frame aug A s s' \<and>
      (\<forall>f. aug = Some f \<and> augmentation f \<and> settled f A s \<longrightarrow> settled f (set (walk d u)) s')"
proof -
  obtain a where a: "rb_augment_path aug (cpar d) s1 = Some (s1\<lparr>aux := a\<rparr>)" "frame aug (set (walk d u)) s1 (s1\<lparr>aux := a\<rparr>)"
    "\<And>f. aug = Some f \<Longrightarrow> augmentation f \<Longrightarrow> (\<forall>z \<in> set (walk d u). z \<notin> set (path_up d) \<longrightarrow> f (nodes s1) z (aux s1) = aux s1) \<Longrightarrow>
       settled f (set (walk d u)) (s1\<lparr>aux := a\<rparr>)"
    using augment_path_rep [OF r, of aug] unfolding addrs_walk by auto
  have fr: "frame aug A s (s1\<lparr>aux := a\<rparr>)" using frame_trans [OF f(1) frame_mono [OF a(2) f(2)]] .
  have st: "settled g (set (walk d u)) (s1\<lparr>aux := a\<rparr>)" if "aug = Some g" "augmentation g" "settled g A s" for g
    using that augmentation.looks [OF that(2) off] f(2,3) by (intro a(3)) (auto simp: settled_def)
  show ?thesis
  proof (cases k)
    case Red
    then have "holds_tree (s1\<lparr>aux := a\<rparr>) (walk d u)"
      using r k unfolding holds_tree_def
      by (intro exI [of _ "plug d u"]) (simp add: rep_plug inorder_plug walk_def)
    then show ?thesis using a(1) fr st Red by (simp add: KRB_RED_def KRB_BLACK_def)
  next
    case Black
    have "rep (s1\<lparr>aux := a\<rparr>) d u" using r by simp
    then obtain s2 where s2: "rb_erase_color aug (rt u) (cpar d) (s1\<lparr>aux := a\<rparr>) = Some s2" "holds_tree s2 (walk d u)"
      "steady aug (set (walk d u)) (s1\<lparr>aux := a\<rparr>) s2"
      using erase_color_holds [of "s1\<lparr>aux := a\<rparr>" d u aug] k Black by auto
    have "frame aug A s s2" using frame_trans [OF fr frame_mono [OF steady_frame [OF s2(3)] f(2)]] .
    then show ?thesis using a(1) s2 st Black unfolding steady_def by auto
  qed
qed

lemma path_up_hole: "set (path_up c) \<subseteq> set (path_up (hole_ctx c t))"
  by (induction c t rule: hole_ctx.induct) auto

lemma del_min_trip: "(z, u, v) \<in> trip (del_min t) \<Longrightarrow> z \<notin> set (path_up (hole_ctx c t)) \<Longrightarrow> (z, u, v) \<in> trip t"
proof (induction t arbitrary: c rule: del_min.induct)
  case (2 a x j b y k r)
  have "y \<in> set (path_up (hole_ctx c (Nd (Nd a x j b) y k r)))"
    using path_up_hole [of "CL c y k r" "Nd a x j b"] by auto
  then show ?case using 2(1) [of "CL c y k r"] 2(2,3) by auto
qed auto

lemma hole_position:
  assumes "rep s c (Nd l y k (del_min r))" "r \<noteq> Lf" "min_split r = (y, ky, ch)"
    and "rb_tree (plug c (Nd l x k r))"
  shows "rep s (hole_ctx (CR l y k c) r) ch" "cpar (hole_ctx (CR l y k c) r) = min_parent y r"
    "walk (hole_ctx (CR l y k c) r) ch = before c @ inorder l @ inorder r @ behind c"
    "if ky = Black then lacking (hole_ctx (CR l y k c) r) ch else rb_tree (plug (hole_ctx (CR l y k c) r) ch)"
proof -
  let ?d = "hole_ctx (CR l y k c) r"
  have p: "plug ?d (Nd Lf y ky ch) = plug c (Nd l y k r)" "plug ?d ch = plug c (Nd l y k (del_min r))"
    using plug_hole [OF assms(2,3), of "CR l y k c"] by simp_all
  show "rep s ?d ch" using assms(1) p(2) rep_plug by metis
  show "cpar ?d = min_parent y r"
    using cpar_hole [of r "CR l y k c"] cpar_hole_none [of r "CR l y k c"] by (auto simp: min_parent_def)
  have "walk ?d ch = inorder (plug ?d ch)" by (simp add: walk_def inorder_plug)
  then show "walk ?d ch = before c @ inorder l @ inorder r @ behind c"
    using inorder_del_min [OF assms(2,3)] p(2) by (simp add: inorder_plug)
  have "rb_tree (plug ?d (Nd Lf y ky ch))"
    using assms(4) unfolding p(1) rb_tree_plug by (simp add: bal_step)
  then show "if ky = Black then lacking ?d ch else rb_tree (plug ?d ch)"
    by (rule unlink_lacking) simp
qed

text \<open>The nodes away from the augmentation path keep their children.\<close>

lemma erase_one_kids:
  assumes "rep s c (Nd l x k r)" "rep s1 c ch" "l = Lf \<and> ch = r \<or> r = Lf \<and> ch = l"
    and "z \<in> set (walk c ch)" "z \<notin> set (path_up c)"
  shows "kids (nodes s1) z = kids (nodes s) z"
proof (cases "z \<in> set (before c @ behind c)")
  case True
  then show ?thesis using off_path_kids [OF assms(1,2)] assms(5) by blast
next
  case False
  then have "z \<in> set (inorder ch)" using assms(4) by (auto simp: walk_def)
  then obtain u v where "(z, u, v) \<in> trip ch" using trip_ex by blast
  then show ?thesis using rep_trip [OF assms(1), of z u v] rep_trip [OF assms(2), of z u v] assms(3) by auto
qed

lemma erase_two_kids:
  assumes "rep s c (Nd l x k r)" "rep s1 c (Nd l y k (del_min r))" "inorder r = y # inorder (del_min r)"
    and z: "z \<in> set (before c @ inorder l @ inorder r @ behind c)" "z \<notin> set (path_up (hole_ctx (CR l y k c) r))"
  shows "kids (nodes s1) z = kids (nodes s) z"
proof -
  have p: "z \<noteq> y" "z \<notin> set (path_up c)" using path_up_hole [of "CR l y k c" r] z(2) by auto
  show ?thesis
  proof (cases "z \<in> set (before c @ behind c)")
    case True
    then show ?thesis using off_path_kids [OF assms(1,2)] p(2) by blast
  next
    case False
    then have "z \<in> set (inorder l) \<or> z \<in> set (inorder (del_min r))" using z(1) p(1) assms(3) by auto
    then obtain u v where "(z, u, v) \<in> trip l \<union> trip (del_min r)" using trip_ex by blast
    then have "(z, u, v) \<in> trip (Nd l x k r)" "(z, u, v) \<in> trip (Nd l y k (del_min r))" using del_min_trip z(2) by auto
    then show ?thesis using rep_trip [OF assms(1), of z u v] rep_trip [OF assms(2), of z u v] by auto
  qed
qed

text \<open>The contract of a removal.\<close>

lemma erase_holds_tree:
  assumes r: "rep s c (Nd l x k r)" and b: "rb_tree (plug c (Nd l x k r))"
  shows "\<exists>s'. rb_erase_aug aug x s = Some s' \<and> holds_tree s' (before c @ inorder l @ inorder r @ behind c) \<and>
    frame aug (set (walk c (Nd l x k r))) s s' \<and>
    (\<forall>f. aug = Some f \<and> augmentation f \<and> settled f (set (walk c (Nd l x k r))) s \<longrightarrow>
       settled f (set (before c @ inorder l @ inorder r @ behind c)) s')"
proof -
  note f = rep_fields [OF r]
  have z: "rt l = 0 \<longleftrightarrow> l = Lf" "rt r = 0 \<longleftrightarrow> r = Lf"
    using r rep_rt_zero [of s "CL c x k r" l] rep_rt_zero [of s "CR l x k c" r] by (simp_all add: rep_CL rep_CR)
  show ?thesis
  proof (cases "l = Lf \<or> r = Lf")
    case True
    then obtain ch where ch: "l = Lf \<and> ch = r \<or> l \<noteq> Lf \<and> r = Lf \<and> ch = l" by blast
    then have ch': "l = Lf \<and> ch = r \<or> r = Lf \<and> ch = l" by blast
    obtain s1 where s1: "rb_erase_one x (rt ch) s = Some (rt ch, cpar c, cpar c, colw k, s1)" "rep s1 c ch"
      "frame aug (set (walk c (Nd l x k r))) s s1" "aux s1 = aux s"
      using erase_one_rep [OF r ch', of aug] by blast
    have e: "rb_erase_aug aug x s = do { s \<leftarrow> rb_augment_path aug (cpar c) s1;
        if colw k = KRB_BLACK then rb_erase_color aug (rt ch) (cpar c) s else Some s }"
      using f s1(1) z ch by (auto simp: rb_erase_aug_def cong: if_cong)
    have w: "walk c ch = before c @ inorder l @ inorder r @ behind c" "set (walk c ch) \<subseteq> set (walk c (Nd l x k r))"
      using ch by (auto simp: walk_def)
    show ?thesis
      using erase_finish [OF s1(2,3) w(2) s1(4) unlink_lacking [OF b ch'] erase_one_kids [OF r s1(2) ch']] unfolding e w(1) .
  next
    case False
    obtain y ky ch where m: "min_split r = (y, ky, ch)" by (cases "min_split r")
    have r0: "r \<noteq> Lf" using False by simp
    obtain s1 where s1: "rb_erase_two x s = Some (rt ch, min_parent y r, min_parent y r, colw ky, s1)"
      "rep s1 c (Nd l y k (del_min r))" "frame aug (set (walk c (Nd l x k r))) s s1" "aux s1 = aux s"
      using erase_two_rep [OF r _ _ m, of aug] False by blast
    note h = hole_position [OF s1(2) r0 m b]
    have w: "set (walk (hole_ctx (CR l y k c) r) ch) \<subseteq> set (walk c (Nd l x k r))"
      unfolding h(3) by (auto simp: walk_def)
    note kd = erase_two_kids [OF r s1(2) inorder_del_min [OF r0 m]]
    show ?thesis
      using erase_finish [OF h(1) s1(3) w s1(4) h(4)] kd f s1(1) z False unfolding h(2,3)
      by (simp add: rb_erase_aug_def cong: if_cong)
  qed
qed

end
