(* ===== verification/Rbtree_Spec.thy ===== *)
theory Rbtree_Spec
  imports Rbtree_Erase
begin

text \<open>
  What the trees of \<open>libs/rbtree.c\<close> promise to their clients: the interface as a locale over the
  list of nodes in order, its interpretation on the heap operations, the traversal, the height bound and
  the properties of insertion and removal.
\<close>

subsection \<open>Positions\<close>

lemma position_exists:
  assumes "rep s c t" "x \<in> set (inorder t)"
  shows "\<exists>d l k r. rep s d (Nd l x k r) \<and> plug d (Nd l x k r) = plug c t"
  using assms
proof (induction t arbitrary: c)
  case (Nd l y k r)
  consider "x \<in> set (inorder l)" | "x = y" | "x \<in> set (inorder r)" using Nd.prems(2) by auto
  then show ?case
  proof cases
    case 1
    then show ?thesis using Nd.IH(1) [of "CL c y k r"] Nd.prems(1) by (simp add: rep_CL)
  next
    case 2
    then show ?thesis using Nd.prems(1) by blast
  next
    case 3
    then show ?thesis using Nd.IH(2) [of "CR l y k c"] Nd.prems(1) by (simp add: rep_CR)
  qed
qed simp

lemma holds_tree_distinct: "holds_tree s L \<Longrightarrow> distinct L"
  by (auto simp: holds_tree_def rep_def)

lemma holds_tree_cong:
  "holds_tree s L \<Longrightarrow> (\<And>p. p \<in> set L \<Longrightarrow> nodes s' p = nodes s p) \<Longrightarrow> root s' = root s \<Longrightarrow> holds_tree s' L"
  unfolding holds_tree_def rep_def using tree_cong [of _ "nodes s'" "nodes s" 0] by fastforce

lemma holds_tree_position:
  assumes "holds_tree s (us @ x # vs)"
  shows "\<exists>c l k r. rep s c (Nd l x k r) \<and> rb_tree (plug c (Nd l x k r)) \<and>
    us = before c @ inorder l \<and> vs = inorder r @ behind c"
proof -
  obtain t where t: "rep s Top t" "rb_tree t" "inorder t = us @ x # vs"
    using assms unfolding holds_tree_def by blast
  obtain c l k r where p: "rep s c (Nd l x k r)" "plug c (Nd l x k r) = t"
    using position_exists [OF t(1), of x] t(3) by auto
  have "us @ x # vs = before c @ inorder l @ x # inorder r @ behind c"
    using t(3) inorder_plug [of c "Nd l x k r"] p(2) by simp
  moreover have "x \<notin> set us" "x \<notin> set vs" using holds_tree_distinct [OF assms] by auto
  ultimately have "us = before c @ inorder l" "vs = inorder r @ behind c"
    using append_Cons_eq_iff [of x us vs "before c @ inorder l" "inorder r @ behind c"] by auto
  then show ?thesis using p t(2) by blast
qed

lemma holds_tree_nonnull: "holds_tree s L \<Longrightarrow> x \<in> set L \<Longrightarrow> ok x \<and> nodes s x \<noteq> None"
proof -
  assume h: "holds_tree s L" and x: "x \<in> set L"
  obtain us vs where "L = us @ x # vs" using x by (meson split_list)
  then obtain c l k r where "rep s c (Nd l x k r)" using holds_tree_position h by blast
  then show ?thesis by (simp add: rep_def)
qed

subsection \<open>Traversal\<close>

fun hd0 :: "ptr list \<Rightarrow> ptr" where
  "hd0 [] = 0"
| "hd0 (x # xs) = x"

lemma hd0_append: "hd0 (xs @ ys) = (if xs = [] then hd0 ys else hd0 xs)"
  by (cases xs) auto

lemma inorder_empty [simp]: "inorder t = [] \<longleftrightarrow> t = Lf"
  by (cases t) auto

lemma min_split_hd: "t \<noteq> Lf \<Longrightarrow> fst (min_split t) = hd0 (inorder t)"
  by (cases "min_split t") (simp add: inorder_del_min)

lemma rb_first_hd: "holds_tree s L \<Longrightarrow> rb_first s = Some (hd0 L)"
proof -
  assume "holds_tree s L"
  then obtain t where t: "rep s Top t" "inorder t = L" unfolding holds_tree_def by blast
  then have "root s = rt t" by (simp add: rep_def)
  then show "rb_first s = Some (hd0 L)"
    using rep_rt_zero [OF t(1)] leftmost_min [OF t(1)] min_split_hd [of t] t(2)
    by (auto simp: rb_first_def)
qed

lemma rb_next_up_behind: "rep s c t \<Longrightarrow> t \<noteq> Lf \<Longrightarrow> rb_next_up s (rt t) = Some (hd0 (behind c))"
proof (induction c arbitrary: t)
  case Top
  then obtain l x k r where "t = Nd l x k r" by (cases t) auto
  then show ?case using rep_fields(3) Top by (subst rb_next_up.simps) fastforce
next
  case (CL c y k r)
  have p: "rep s c (Nd t y k r)" using CL.prems(1) by (simp add: rep_CL)
  obtain tl x kt tr where t: "t = Nd tl x kt tr" using CL.prems(2) by (cases t) auto
  show ?case
    using rep_fields(3) [of s "CL c y k r" tl x kt tr] CL.prems rep_fields(2) [OF p] rep_node(2) [OF p]
      rep_left_differs [OF p] t by (subst rb_next_up.simps) auto
next
  case (CR l y k c)
  have p: "rep s c (Nd l y k t)" using CR.prems(1) by (simp add: rep_CR)
  obtain tl x kt tr where t: "t = Nd tl x kt tr" using CR.prems(2) by (cases t) auto
  show ?case
    using rep_fields(3) [of s "CR l y k c" tl x kt tr] CR.prems rep_fields(2) [OF p] rep_node(2) [OF p]
      CR.IH [OF p] t by (subst rb_next_up.simps) auto
qed

lemma rb_next_hd: "holds_tree s (us @ x # vs) \<Longrightarrow> rb_next s x = Some (hd0 vs)"
proof -
  assume "holds_tree s (us @ x # vs)"
  then obtain c l k r where p: "rep s c (Nd l x k r)" "vs = inorder r @ behind c"
    using holds_tree_position by blast
  have rr: "rep s (CR l x k c) r" using p(1) by (simp add: rep_CR)
  have "cpar c \<noteq> x"
  proof (cases c)
    case Top
    then show ?thesis using rep_node(2) [OF p(1)] by simp
  qed (use p(1) in \<open>auto simp: rep_def\<close>)
  then show "rb_next s x = Some (hd0 vs)"
    using rep_fields [OF p(1)] rep_rt_zero [OF rr] leftmost_min [OF rr] min_split_hd [of r]
      rb_next_up_behind [OF p(1)] p(2)
    by (cases "r = Lf") (auto simp: rb_next_def hd0_append inorder_empty)
qed

subsection \<open>Height\<close>

lemma bal_size: "bal t n \<Longrightarrow> 2 ^ n \<le> length (inorder t) + 1"
proof (induction t n rule: bal.induct)
  case (2 l x r n)
  then show ?case by auto
next
  case (3 l x r n)
  then obtain m where m: "n = Suc m" "bal l m" "bal r m" by (auto simp: gr0_conv_Suc)
  then have "2 ^ m \<le> length (inorder l) + 1" "2 ^ m \<le> length (inorder r) + 1" using 3 by auto
  then show ?case using m(1) by simp
qed simp

fun height :: "rbt \<Rightarrow> nat" where
  "height Lf = 0"
| "height (Nd l x k r) = max (height l) (height r) + 1"

lemma height_bal: "invc t \<Longrightarrow> bal t n \<Longrightarrow> height t \<le> 2 * n + (if hue t = Red then 1 else 0)"
proof (induction t n rule: bal.induct)
  case (3 l x r n)
  then obtain m where m: "n = Suc m" "bal l m" "bal r m" by (auto simp: gr0_conv_Suc)
  then have "height l \<le> 2 * m + 1" "height r \<le> 2 * m + 1" using 3 by (fastforce split: if_splits)+
  then show ?case using m(1) by simp
qed auto

lemma height_plug: "length (path_up c) + height t \<le> height (plug c t)"
proof (induction c arbitrary: t)
  case (CL c x k r)
  then show ?case using CL.IH [of "Nd t x k r"] by simp
next
  case (CR l x k c)
  then show ?case using CR.IH [of "Nd l x k t"] by simp
qed simp

lemma rb_tree_height: "rb_tree t \<Longrightarrow> 2 ^ (height t div 2) \<le> length (inorder t) + 1"
proof -
  assume t: "rb_tree t"
  then obtain n where n: "bal t n" "height t \<le> 2 * n" using height_bal by (fastforce simp: rb_tree_def)
  have "(2 :: nat) ^ (height t div 2) \<le> 2 ^ n" using n(2) by (intro power_increasing) auto
  then show "2 ^ (height t div 2) \<le> length (inorder t) + 1" using bal_size [OF n(1)] by linarith
qed

subsection \<open>Allocated nodes\<close>

text \<open>The operations write to existing nodes only: none appears and none is lost.\<close>

definition keeps :: "('a \<Rightarrow> 'x rb_state) \<Rightarrow> ptr set \<Rightarrow> 'a option \<Rightarrow> bool" where
  "keeps st D m \<longleftrightarrow> (\<forall>r. m = Some r \<longrightarrow> dom (nodes (st r)) = D)"

lemma keeps_write: "keeps (\<lambda>s. s) D m \<Longrightarrow> (\<And>s. dom (nodes s) = D \<Longrightarrow> keeps st D (f s)) \<Longrightarrow> keeps st D (Option.bind m f)"
  by (cases m) (auto simp: keeps_def)

lemma keeps_pair:
  "keeps snd D m \<Longrightarrow> (\<And>a s. dom (nodes s) = D \<Longrightarrow> keeps st D (f a s)) \<Longrightarrow>
   keeps st D (Option.bind m (\<lambda>(a, s). f a s))"
  by (cases m) (auto simp: keeps_def split_beta)

lemma keeps_read: "(\<And>a. keeps st D (f a)) \<Longrightarrow> keeps st D (Option.bind m f)"
  by (cases m) (auto simp: keeps_def)

lemma keeps_if: "(b \<Longrightarrow> keeps st D m) \<Longrightarrow> (\<not> b \<Longrightarrow> keeps st D n) \<Longrightarrow> keeps st D (if b then m else n)"
  by simp

lemma keeps_Some: "dom (nodes (st r)) = D \<Longrightarrow> keeps st D (Some r)"
  by (simp add: keeps_def)

lemma keeps_upd: "dom (nodes s) = D \<Longrightarrow> keeps (\<lambda>s. s) D (upd_node p f s)"
  by (auto simp: keeps_def upd_node_def node_at_def split: option.splits if_splits)

lemma keeps_set:
  assumes "dom (nodes s) = D"
  shows "keeps (\<lambda>s. s) D (rb_set_red p s)" "keeps (\<lambda>s. s) D (rb_set_black p s)"
    "keeps (\<lambda>s. s) D (rb_set_parent p q s)" "keeps (\<lambda>s. s) D (rb_set_color p c s)"
    "keeps (\<lambda>s. s) D (set_left p q s)" "keeps (\<lambda>s. s) D (set_right p q s)"
  using assms by (simp_all add: rb_set_red_def rb_set_black_def rb_set_parent_def rb_set_color_def
      set_left_def set_right_def keeps_upd)

lemma keeps_augment: "dom (nodes s) = D \<Longrightarrow> dom (nodes (call_augment aug p s)) = D"
  by (simp add: call_augment_def split: option.splits)

lemma keeps_root: "dom (nodes s) = D \<Longrightarrow> dom (nodes (s\<lparr>root := p\<rparr>)) = D"
  by simp

lemma keeps_snd: "dom (nodes s) = D \<Longrightarrow> dom (nodes (snd (a, s))) = D"
  by simp

lemmas keeps_rules = keeps_write keeps_pair keeps_read keeps_if keeps_Some keeps_upd keeps_set keeps_augment
  keeps_root keeps_snd

lemma keeps_rotate_left: "dom (nodes s) = D \<Longrightarrow> keeps (\<lambda>s. s) D (rb_rotate_left aug p s)"
  unfolding rb_rotate_left_def Let_def by (rule keeps_rules | assumption)+

lemma keeps_rotate_right: "dom (nodes s) = D \<Longrightarrow> keeps (\<lambda>s. s) D (rb_rotate_right aug p s)"
  unfolding rb_rotate_right_def Let_def by (rule keeps_rules | assumption)+

lemma erase_loop_dom:
  assumes "rb_erase_loop aug p q s = Some r"
  shows "dom (nodes (snd r)) = dom (nodes s)"
proof (rule rb_erase_loop.raw_induct [where P = "\<lambda>aug p q s r. dom (nodes (snd r)) = dom (nodes s)",
      OF _ assms], goal_cases)
  case (1 f aug p q s r)
  have "keeps snd D (f aug p q s)" if "dom (nodes s) = D" for D p q s
    using 1(1) that by (auto simp: keeps_def)
  note rules = keeps_rules keeps_rotate_left keeps_rotate_right this
  have "dom (nodes s) = D \<Longrightarrow> keeps snd D (Some r)" for D
    unfolding 1(2) [symmetric] by (rule rules | assumption)+
  then show ?case by (simp add: keeps_def)
qed

lemma keeps_erase_loop: "dom (nodes s) = D \<Longrightarrow> keeps snd D (rb_erase_loop aug p q s)"
  using erase_loop_dom by (fastforce simp: keeps_def)

lemma augment_loop_dom:
  assumes "rb_augment_loop aug p s = Some s'"
  shows "nodes s' = nodes s"
proof (rule rb_augment_loop.raw_induct [where P = "\<lambda>aug p s s'. nodes s' = nodes s", OF _ assms], goal_cases)
  case (1 f aug p s s')
  then show ?case by (auto simp: Let_def bind_eq_Some_conv call_augment_def split: if_splits option.splits)
qed

lemma keeps_augment_path: "dom (nodes s) = D \<Longrightarrow> keeps (\<lambda>s. s) D (rb_augment_path aug p s)"
  using augment_loop_dom by (fastforce simp: keeps_def rb_augment_path_def)

lemma keeps_five:
  "keeps (\<lambda>(a, b, c, d, s). s) D m \<Longrightarrow> (\<And>a b c d s. dom (nodes s) = D \<Longrightarrow> keeps st D (f a b c d s)) \<Longrightarrow>
   keeps st D (Option.bind m (\<lambda>(a, b, c, d, s). f a b c d s))"
  by (cases m) (auto simp: keeps_def split_beta)

lemma keeps_three:
  "keeps (\<lambda>(a, b, s). s) D m \<Longrightarrow> (\<And>a b s. dom (nodes s) = D \<Longrightarrow> keeps st D (f a b s)) \<Longrightarrow>
   keeps st D (Option.bind m (\<lambda>(a, b, s). f a b s))"
  by (cases m) (auto simp: keeps_def split_beta)

lemma keeps_five_Some: "dom (nodes s) = D \<Longrightarrow> keeps (\<lambda>(a, b, c, d, s). s) D (Some (a, b, c, d, s))"
  by (simp add: keeps_def)

lemma keeps_three_Some: "dom (nodes s) = D \<Longrightarrow> keeps (\<lambda>(a, b, s). s) D (Some (a, b, s))"
  by (simp add: keeps_def)

lemmas keeps_tuple = keeps_five keeps_three keeps_five_Some keeps_three_Some

lemma keeps_erase_one: "dom (nodes s) = D \<Longrightarrow> keeps (\<lambda>(a, b, c, d, s). s) D (rb_erase_one p q s)"
  unfolding rb_erase_one_def by (rule keeps_tuple keeps_rules | assumption)+

lemma keeps_erase_two: "dom (nodes s) = D \<Longrightarrow> keeps (\<lambda>(a, b, c, d, s). s) D (rb_erase_two p s)"
  unfolding rb_erase_two_def by (rule keeps_tuple keeps_rules | assumption)+

lemma rb_erase_dom: "rb_erase_aug aug p s = Some s' \<Longrightarrow> dom (nodes s') = dom (nodes s)"
proof -
  have "dom (nodes s) = D \<Longrightarrow> keeps (\<lambda>s. s) D (rb_erase_aug aug p s)" for D
    unfolding rb_erase_aug_def rb_erase_color_def
    by (rule keeps_tuple keeps_rules keeps_erase_loop keeps_augment_path keeps_erase_one keeps_erase_two | assumption)+
  then show "rb_erase_aug aug p s = Some s' \<Longrightarrow> dom (nodes s') = dom (nodes s)" by (simp add: keeps_def)
qed

subsection \<open>The interface\<close>

text \<open>
  The tree as an ordered collection of nodes.  The clients that walk over a tree or empty it rely on
  these laws only.
\<close>

fun visit :: "('s \<Rightarrow> 'p \<Rightarrow> 'p option) \<Rightarrow> 'p \<Rightarrow> nat \<Rightarrow> 's \<Rightarrow> 'p \<Rightarrow> 'p list option" where
  "visit nxt null 0 s p = (if p = null then Some [] else None)"
| "visit nxt null (Suc n) s p =
     (if p = null then Some [] else do { q \<leftarrow> nxt s p; ps \<leftarrow> visit nxt null n s q; Some (p # ps) })"

fun drain :: "('s \<Rightarrow> 'p option) \<Rightarrow> ('p \<Rightarrow> 's \<Rightarrow> 's option) \<Rightarrow> 'p \<Rightarrow> nat \<Rightarrow> 's \<Rightarrow> ('p list \<times> 's) option" where
  "drain fst_of del null 0 s = do { p \<leftarrow> fst_of s; if p = null then Some ([], s) else None }"
| "drain fst_of del null (Suc n) s =
     do { p \<leftarrow> fst_of s;
          if p = null then Some ([], s)
          else do { s \<leftarrow> del p s; (ps, s) \<leftarrow> drain fst_of del null n s; Some (p # ps, s) } }"

locale ordered_nodes =
  fixes holds :: "'s \<Rightarrow> 'p list \<Rightarrow> bool"
    and null :: 'p
    and first :: "'s \<Rightarrow> 'p option"
    and succ :: "'s \<Rightarrow> 'p \<Rightarrow> 'p option"
    and remove :: "'p \<Rightarrow> 's \<Rightarrow> 's option"
  assumes nonnull: "holds s L \<Longrightarrow> null \<notin> set L"
    and first_empty: "holds s [] \<Longrightarrow> first s = Some null"
    and first_Cons: "holds s (x # xs) \<Longrightarrow> first s = Some x"
    and succ_end: "holds s (us @ [x]) \<Longrightarrow> succ s x = Some null"
    and succ_Cons: "holds s (us @ x # y # vs) \<Longrightarrow> succ s x = Some y"
    and remove_law: "holds s (us @ x # vs) \<Longrightarrow> \<exists>s'. remove x s = Some s' \<and> holds s' (us @ vs)"
begin

lemma visit_suffix: "holds s (us @ x # vs) \<Longrightarrow> visit succ null (length vs + 1) s x = Some (x # vs)"
proof (induction vs arbitrary: us x)
  case Nil
  then show ?case using nonnull [OF Nil] succ_end [OF Nil] by auto
next
  case (Cons y vs)
  have "visit succ null (length vs + 1) s y = Some (y # vs)" using Cons.IH [of "us @ [x]" y] Cons.prems by simp
  then show ?case using nonnull [OF Cons.prems] succ_Cons [OF Cons.prems] by auto
qed

lemma visit_all: "holds s L \<Longrightarrow> (do { p \<leftarrow> first s; visit succ null (length L) s p }) = Some L"
proof (cases L)
  case Nil
  assume "holds s L"
  then show ?thesis using first_empty Nil by simp
next
  case (Cons x xs)
  assume h: "holds s L"
  show ?thesis using visit_suffix [of s "[]" x xs] first_Cons h unfolding Cons by fastforce
qed

lemma drain_all: "holds s L \<Longrightarrow> \<exists>s'. drain first remove null (length L) s = Some (L, s') \<and> holds s' []"
proof (induction L arbitrary: s)
  case Nil
  then show ?case using first_empty by simp
next
  case (Cons x xs)
  obtain s1 where s1: "remove x s = Some s1" "holds s1 xs" using remove_law [of s "[]" x xs] Cons.prems by auto
  then show ?case using Cons.IH [OF s1(2)] first_Cons [OF Cons.prems] nonnull [OF Cons.prems] by auto
qed

end

lemma rb_erase_law:
  "holds_tree s (us @ x # vs) \<Longrightarrow> \<exists>s'. rb_erase_aug aug x s = Some s' \<and> holds_tree s' (us @ vs) \<and>
     frame aug (set (us @ x # vs)) s s' \<and>
     (\<forall>f. aug = Some f \<and> augmentation f \<and> settled f (set (us @ x # vs)) s \<longrightarrow> settled f (set (us @ vs)) s')"
proof -
  assume "holds_tree s (us @ x # vs)"
  then obtain c l k r where p: "rep s c (Nd l x k r)" "rb_tree (plug c (Nd l x k r))"
    "us = before c @ inorder l" "vs = inorder r @ behind c" using holds_tree_position by blast
  then show ?thesis using erase_holds_tree [OF p(1,2), of aug] by (simp add: walk_def)
qed

lemma holds_tree_null: "holds_tree s L \<Longrightarrow> 0 \<notin> set L"
  using holds_tree_nonnull by (auto simp: ok_def)

interpretation rbt: ordered_nodes holds_tree "0 :: ptr" rb_first rb_next rb_erase
proof unfold_locales
  fix s :: "'a rb_state" and us :: "ptr list" and x :: ptr and y :: ptr and vs :: "ptr list"
  show "holds_tree s [] \<Longrightarrow> rb_first s = Some 0" using rb_first_hd by fastforce
  show "holds_tree s (x # vs) \<Longrightarrow> rb_first s = Some x" using rb_first_hd by fastforce
  show "holds_tree s (us @ [x]) \<Longrightarrow> rb_next s x = Some 0" using rb_next_hd by fastforce
  show "holds_tree s (us @ x # y # vs) \<Longrightarrow> rb_next s x = Some y" using rb_next_hd by fastforce
  show "holds_tree s (us @ x # vs) \<Longrightarrow> \<exists>s'. rb_erase x s = Some s' \<and> holds_tree s' (us @ vs)"
    using rb_erase_law [of s us x vs None] by (auto simp: rb_erase_def)
qed (rule holds_tree_null)

subsection \<open>The properties\<close>

text \<open>A small tree: 16 with the children 8 and 24, and a node at 32 that is not linked in yet.\<close>

definition tree3 :: "unit rb_state" where
  "tree3 = \<lparr>nodes = [8 \<mapsto> mk 16 Red 0 0, 16 \<mapsto> mk 0 Black 8 24, 24 \<mapsto> mk 16 Red 0 0, 32 \<mapsto> mk 0 Red 0 0],
            root = 16, aux = ()\<rparr>"

lemma tree3_rep: "rep tree3 Top (Nd (Nd Lf 8 Red Lf) 16 Black (Nd Lf 24 Red Lf))"
  by (simp add: rep_def tree3_def ok_def)

lemma tree3_holds: "holds_tree tree3 [8, 16, 24]"
  unfolding holds_tree_def using tree3_rep
  by (intro exI [of _ "Nd (Nd Lf 8 Red Lf) 16 Black (Nd Lf 24 Red Lf)"]) (auto simp: rb_tree_def intro: exI [of _ 1])

text \<open>
  C27.  Insertion keeps the tree a red-black tree.  When a new node is linked as a red leaf at an empty
  position of a red-black tree, \<open>rb_insert_augmented\<close> (and \<open>rb_insert_color\<close>, the case without callback)
  returns, and the heap holds a red-black tree with the same nodes in the same order and the new one at
  its position: no red node has a red child, all paths have the same number of black nodes, the root is
  black, and the parent pointers agree with the children.  No other node changes.  If the callback
  obeys the laws of an augmentation and the values it keeps are right in the old tree, they are right in the
  new one.
\<close>

theorem rb_insert_red_black:
  assumes "rep s c Lf" "rb_tree (plug c Lf)" "ok x" "nodes s x \<noteq> None" "x \<notin> set (before c @ behind c)"
  shows "\<exists>s1 s2. link_node x (cpar c) (link_of c) s = Some s1 \<and> rb_insert_augmented aug x s1 = Some s2 \<and>
    holds_tree s2 (before c @ x # behind c) \<and> frame aug (set (before c @ x # behind c)) s s2 \<and>
    (\<forall>f. aug = Some f \<and> augmentation f \<and> settled f (set (before c @ behind c)) s \<longrightarrow> settled f (set (before c @ x # behind c)) s2)"
  using assms insert_holds_tree [of s c x aug] by (simp add: walk_def)

theorem rb_insert_red_black_witness:
  "\<exists>s1 s2. link_node 32 24 (Link_Right 24) tree3 = Some s1 \<and> rb_insert_augmented None 32 s1 = Some s2 \<and>
    holds_tree s2 [8, 16, 24, 32]"
proof -
  let ?c = "CR Lf 24 Red (CR (Nd Lf 8 Red Lf) 16 Black Top)"
  have "rep tree3 ?c Lf" using tree3_rep by (simp add: rep_CR)
  moreover have "rb_tree (plug ?c Lf)" by (auto simp: rb_tree_def intro: exI [of _ 1])
  moreover have "ok 32" "nodes tree3 32 \<noteq> None" "32 \<notin> set (before ?c @ behind ?c)"
    by (simp_all add: ok_def tree3_def)
  ultimately show ?thesis using rb_insert_red_black [of tree3 ?c 32 None] by auto
qed

text \<open>
  C28.  Removal keeps the tree a red-black tree.  For any node of a red-black tree, with no, one or two
  children, \<open>rb_erase_augmented\<close> (and \<open>rb_erase\<close>, the case without callback) returns, and the heap holds a
  red-black tree of the other nodes in the same order; no node outside the old tree changes.  If the
  callback obeys the laws of an augmentation, values that were right stay right.
\<close>

theorem rb_erase_red_black:
  assumes "holds_tree s (us @ x # vs)"
  shows "\<exists>s'. rb_erase_augmented aug x s = Some s' \<and> (aug = None \<longrightarrow> rb_erase x s = Some s') \<and> holds_tree s' (us @ vs) \<and>
    frame aug (set (us @ x # vs)) s s' \<and>
    (\<forall>f. aug = Some f \<and> augmentation f \<and> settled f (set (us @ x # vs)) s \<longrightarrow> settled f (set (us @ vs)) s')"
  using rb_erase_law [OF assms, of aug] by (auto simp: rb_erase_def rb_erase_augmented_def)

theorem rb_erase_red_black_witness:
  "\<exists>s'. rb_erase 16 tree3 = Some s' \<and> holds_tree s' [8, 24]"
  using rb_erase_red_black [of tree3 "[8]" 16 "[24]" None] tree3_holds by auto

text \<open>
  C29.  Traversal: starting with \<open>rb_first\<close> and following \<open>rb_next\<close> visits every node of the tree
  exactly once, in order, and ends with \<open>NULL\<close>.
\<close>

theorem rb_traversal_in_order:
  assumes "holds_tree s L"
  shows "(do { p \<leftarrow> rb_first s; visit rb_next 0 (length L) s p }) = Some L"
  using assms by (rule rbt.visit_all)

theorem rb_traversal_in_order_witness:
  "(do { p \<leftarrow> rb_first tree3; visit rb_next 0 3 tree3 p }) = Some [8, 16, 24]"
  using rb_traversal_in_order [OF tree3_holds] by (simp add: numeral_3_eq_3)

subsection \<open>Histories\<close>

text \<open>A place where a new node may be linked in: the root of an empty tree, or a missing child of a node.\<close>

definition free_place :: "'x rb_state \<Rightarrow> ptr set \<Rightarrow> ptr \<Rightarrow> rb_link \<Rightarrow> bool" where
  "free_place s N parent slot \<longleftrightarrow>
     (if N = {} then slot = Link_Root \<and> parent = 0
      else parent \<in> N \<and> (slot = Link_Left parent \<or> slot = Link_Right parent) \<and> get_link s slot = Some 0)"

text \<open>The states that insertions and removals reach from an empty tree, with the nodes that are in it.\<close>

inductive rb_history :: "'x rb_augment \<Rightarrow> ptr set \<Rightarrow> 'x rb_state \<Rightarrow> bool" for aug where
  empty: "root s = 0 \<Longrightarrow> rb_history aug {} s"
| insert: "rb_history aug N s \<Longrightarrow> free_place s N parent slot \<Longrightarrow> ok x \<Longrightarrow> nodes s x \<noteq> None \<Longrightarrow> x \<notin> N \<Longrightarrow>
    link_node x parent slot s = Some s1 \<Longrightarrow> rb_insert_augmented aug x s1 = Some s2 \<Longrightarrow> rb_history aug (insert x N) s2"
| erase: "rb_history aug N s \<Longrightarrow> x \<in> N \<Longrightarrow> rb_erase_augmented aug x s = Some s' \<Longrightarrow> rb_history aug (N - {x}) s'"

text \<open>The number of nodes on the way up from a node, the node itself included.\<close>

partial_function (option) climb :: "'x rb_state \<Rightarrow> ptr \<Rightarrow> nat option" where
  "climb s x = (if x = 0 then Some 0 else do { p \<leftarrow> rb_parent s x; n \<leftarrow> climb s p; Some (n + 1) })"

lemma free_place_ctx:
  assumes "holds_tree s L" "free_place s (set L) parent slot"
  shows "\<exists>d. rep s d Lf \<and> rb_tree (plug d Lf) \<and> link_of d = slot \<and> cpar d = parent \<and> before d @ behind d = L"
proof (cases "L = []")
  case True
  then obtain t where "rep s Top t" "rb_tree t" "inorder t = []" using assms(1) by (auto simp: holds_tree_def)
  then show ?thesis using assms(2) True by (cases t) (auto simp: free_place_def intro!: exI [of _ Top])
next
  case False
  then have p: "parent \<in> set L" "slot = Link_Left parent \<or> slot = Link_Right parent" "get_link s slot = Some 0"
    using assms(2) by (auto simp: free_place_def)
  then obtain us vs where L: "L = us @ parent # vs" by (meson split_list)
  obtain c l k r where c: "rep s c (Nd l parent k r)" "rb_tree (plug c (Nd l parent k r))" "us = before c @ inorder l" "vs = inorder r @ behind c"
    using holds_tree_position assms(1) L by blast
  have l: "rep s (CL c parent k r) l" and r: "rep s (CR l parent k c) r" using c(1) by (simp_all add: rep_CL rep_CR)
  from p(2) show ?thesis
  proof
    assume s: "slot = Link_Left parent"
    then have "l = Lf" using p(3) rep_fields(1) [OF c(1)] rep_rt_zero [OF l] by simp
    then show ?thesis using l c s L by (intro exI [of _ "CL c parent k r"]) simp
  next
    assume s: "slot = Link_Right parent"
    then have "r = Lf" using p(3) rep_fields(2) [OF c(1)] rep_rt_zero [OF r] by simp
    then show ?thesis using r c s L by (intro exI [of _ "CR l parent k c"]) simp
  qed
qed

lemma insert_place:
  assumes "holds_tree s L" "free_place s (set L) parent slot" "ok x" "nodes s x \<noteq> None" "x \<notin> set L"
  shows "\<exists>s1 s2 L'. link_node x parent slot s = Some s1 \<and> rb_insert_augmented aug x s1 = Some s2 \<and> holds_tree s2 L' \<and>
    set L' = insert x (set L)"
proof -
  obtain d where d: "rep s d Lf" "rb_tree (plug d Lf)" "link_of d = slot" "cpar d = parent" "before d @ behind d = L"
    using free_place_ctx [OF assms(1,2)] by blast
  then have "set (before d @ x # behind d) = insert x (set L)" by auto
  moreover have "\<exists>s1 s2. link_node x parent slot s = Some s1 \<and> rb_insert_augmented aug x s1 = Some s2 \<and> holds_tree s2 (before d @ x # behind d)"
    using insert_holds_tree [OF d(1,2) assms(3,4), of aug] assms(5) d(3-5) by (auto simp: walk_def)
  ultimately show ?thesis by blast
qed

lemma history_tree: "rb_history aug N s \<Longrightarrow> \<exists>L. holds_tree s L \<and> set L = N"
proof (induction rule: rb_history.induct)
  case (empty s)
  then have "holds_tree s []" by (auto simp: holds_tree_def rep_def rb_tree_def intro!: exI [of _ Lf])
  then show ?case by (intro exI [of _ "[]"]) simp
next
  case (insert N s parent slot x s1 s2)
  then show ?case using insert_place [of s _ parent slot x aug] by fastforce
next
  case (erase N s x s')
  then obtain us vs where L: "holds_tree s (us @ x # vs)" "set (us @ x # vs) = N" by (metis split_list)
  then have "holds_tree s' (us @ vs)" "x \<notin> set (us @ vs)"
    using rb_erase_law [OF L(1), of aug] erase.hyps(3) holds_tree_distinct [OF L(1)] by (auto simp: rb_erase_augmented_def)
  then show ?case using L(2) by (intro exI [of _ "us @ vs"]) auto
qed

lemma climb_step:
  assumes "rep s c (Nd l x k r)"
  shows "climb s x = map_option Suc (climb s (cpar c))"
  using rep_fields(3) [OF assms] rep_node(2) [OF assms] by (cases "climb s (cpar c)") (auto simp: climb.simps [of s x])

lemma climb_path: "rep s c (Nd l x k r) \<Longrightarrow> climb s x = Some (length (path_up c) + 1)"
proof (induction c arbitrary: l x k r)
  case Top
  then show ?case using climb_step [OF Top] by (simp add: climb.simps [of s 0])
next
  case (CL c y j t)
  then show ?case using climb_step [OF CL.prems] CL.IH [of "Nd l x k r" y j t] by (simp add: rep_CL)
next
  case (CR t y j c)
  then show ?case using climb_step [OF CR.prems] CR.IH [of t y j "Nd l x k r"] by (simp add: rep_CR)
qed

lemma climb_bound:
  assumes "holds_tree s L" "x \<in> set L"
  shows "\<exists>h. climb s x = Some h \<and> 2 ^ (h div 2) \<le> length L + 1"
proof -
  obtain us vs where L: "L = us @ x # vs" using assms(2) by (meson split_list)
  then obtain c l k r where c: "rep s c (Nd l x k r)" "rb_tree (plug c (Nd l x k r))" "us = before c @ inorder l" "vs = inorder r @ behind c"
    using holds_tree_position assms(1) by blast
  have "(2 :: nat) ^ ((length (path_up c) + 1) div 2) \<le> 2 ^ (height (plug c (Nd l x k r)) div 2)"
    using height_plug [of c "Nd l x k r"] by (intro power_increasing div_le_mono) auto
  also have "\<dots> \<le> length L + 1" using rb_tree_height [OF c(2)] L c(3,4) by (simp add: inorder_plug)
  finally show ?thesis using climb_path [OF c(1)] by simp
qed

text \<open>
  C30.  Trees stay balanced.  In every state that insertions at free places and removals reach from an empty tree,
  with or without a callback, the next insertion or removal returns, and following the parent pointers from a node
  with \<open>rb_parent\<close> reaches \<open>NULL\<close> after \<open>h\<close> nodes with \<open>2 ^ (h div 2) \<le> n + 1\<close> for the \<open>n\<close> nodes of the tree, so that the
  descents and climbs of the code take at most about \<open>2 log (n + 1)\<close> steps.
\<close>

theorem rb_history_balanced:
  assumes "rb_history aug N s"
  shows "finite N \<and> (\<forall>x \<in> N. \<exists>h. climb s x = Some h \<and> 2 ^ (h div 2) \<le> card N + 1) \<and>
    (\<forall>x \<in> N. \<exists>s'. rb_erase_augmented aug x s = Some s') \<and>
    (\<forall>x parent slot. free_place s N parent slot \<and> ok x \<and> nodes s x \<noteq> None \<and> x \<notin> N \<longrightarrow>
      (\<exists>s1 s2. link_node x parent slot s = Some s1 \<and> rb_insert_augmented aug x s1 = Some s2))"
proof -
  obtain L where L: "holds_tree s L" "set L = N" using history_tree [OF assms] by blast
  have "length L = card N" using distinct_card [OF holds_tree_distinct [OF L(1)]] L(2) by simp
  then have "\<forall>x \<in> N. \<exists>h. climb s x = Some h \<and> 2 ^ (h div 2) \<le> card N + 1" using climb_bound [OF L(1)] L(2) by simp
  moreover have "\<exists>s'. rb_erase_augmented aug x s = Some s'" if "x \<in> N" for x
    using rb_erase_law [of s _ x _ aug] L that unfolding rb_erase_augmented_def by (metis split_list)
  moreover have "\<exists>s1 s2. link_node x parent slot s = Some s1 \<and> rb_insert_augmented aug x s1 = Some s2"
    if "free_place s N parent slot" "ok x" "nodes s x \<noteq> None" "x \<notin> N" for x parent slot
    using insert_place [OF L(1), of parent slot x aug] that L(2) by auto
  ultimately show ?thesis using L(2) by auto
qed

text \<open>Three nodes that are not linked in, and the tree after inserting them in ascending order.\<close>

definition loose3 :: "unit rb_state" where
  "loose3 = \<lparr>nodes = [8 \<mapsto> mk 0 Red 0 0, 16 \<mapsto> mk 0 Red 0 0, 24 \<mapsto> mk 0 Red 0 0], root = 0, aux = ()\<rparr>"

definition link_insert :: "ptr \<Rightarrow> ptr \<Rightarrow> rb_link \<Rightarrow> unit rb_state \<Rightarrow> unit rb_state" where
  "link_insert x parent slot s = the (do { s \<leftarrow> link_node x parent slot s; rb_insert_augmented None x s })"

theorem rb_history_balanced_witness:
  "\<exists>(s :: unit rb_state) h. rb_history None {24, 16, 8} s \<and> climb s 24 = Some h \<and> 2 ^ (h div 2) \<le> (4 :: nat)"
proof -
  have grow: "rb_history None (insert x N) (link_insert x parent slot s)"
    if g: "rb_history None N s" "free_place s N parent slot" "ok x" "nodes s x \<noteq> None" "x \<notin> N" for N s x parent slot
  proof -
    obtain s1 s2 where "link_node x parent slot s = Some s1" "rb_insert_augmented None x s1 = Some s2"
      using rb_history_balanced [OF g(1)] g(2-5) by blast
    then show ?thesis using rb_history.insert [OF g] by (simp add: link_insert_def)
  qed
  let ?s1 = "link_insert 8 0 Link_Root loose3" and ?s2 = "link_insert 16 8 (Link_Right 8) (link_insert 8 0 Link_Root loose3)"
  have "get_link ?s1 (Link_Right 8) = Some 0 \<and> nodes ?s1 16 \<noteq> None" "get_link ?s2 (Link_Right 16) = Some 0 \<and> nodes ?s2 24 \<noteq> None"
    by code_simp+
  moreover have "rb_history None {8} ?s1"
    by (rule grow [OF rb_history.empty]) (simp_all add: loose3_def free_place_def ok_def)
  ultimately have "rb_history None {16, 8} ?s2" by - (rule grow, simp_all add: free_place_def ok_def)
  then have h: "rb_history None {24, 16, 8} (link_insert 24 16 (Link_Right 16) ?s2)"
    using \<open>get_link ?s2 (Link_Right 16) = Some 0 \<and> nodes ?s2 24 \<noteq> None\<close> by - (rule grow, simp_all add: free_place_def ok_def)
  have c: "card {24, 16, 8 :: ptr} + 1 = 4" by simp
  have "\<exists>h. climb (link_insert 24 16 (Link_Right 16) ?s2) 24 = Some h \<and> 2 ^ (h div 2) \<le> (4 :: nat)"
    using rb_history_balanced [OF h, THEN conjunct2, THEN conjunct1, rule_format, of 24] unfolding c by blast
  then show ?thesis using h by blast
qed

end
