(* ===== verification/Vma.thy ===== *)
theory Vma
  imports Rbtree_Spec
begin

text \<open>
  The virtual memory areas of a process: \<open>mm/vma.c\<close> and \<open>mm/vma.h\<close>.  A \<open>vma_t\<close> contains its tree node
  \<open>vm_rb\<close>; both have the address of the \<open>vma_t\<close> here, so that \<open>rb_entry\<close> is the identity.  The node
  fields are in the node heap of the tree, the others in \<open>vmas\<close>.  The operations run under the lock
  of the manager; the null checks of the manager pointer are left out.  \<open>malloc\<close> and \<open>strdup\<close> are
  parameters, functions of the state; calls into the file system are recorded in order.
\<close>

subsection \<open>State\<close>

definition VMA_STACK :: u64 where "VMA_STACK = 0x80"

datatype vma_type = VMA_TYPE_ANON | VMA_TYPE_FILE | VMA_TYPE_SHM

record vma =
  vm_start :: u64
  vm_end :: u64
  vm_flags :: u64
  vm_type :: vma_type
  inode :: ptr
  shm :: ptr
  vm_offset :: u64
  vm_file_len :: u64
  vm_file_flags :: u64
  shm_id :: u32
  vm_name :: "u8 list option"

datatype vfs_call = Igrab ptr | Iput ptr | Reap ptr

text \<open>The manager's counters and the memory its areas live in; the root is in the tree state.\<close>

record vma_memory =
  vmas :: "ptr \<Rightarrow> vma option"
  vm_used :: u64
  initialized :: bool
  vfs_calls :: "vfs_call list"

type_synonym vma_state = "vma_memory rb_state"

record vma_env =
  malloc :: "vma_state \<Rightarrow> ptr"
  strdup :: "vma_state \<Rightarrow> u8 list \<Rightarrow> u8 list option"

definition get_vma :: "vma_state \<Rightarrow> ptr \<Rightarrow> vma option" where
  "get_vma s p = (if p = 0 then None else vmas (aux s) p)"

definition upd_vma :: "ptr \<Rightarrow> (vma \<Rightarrow> vma) \<Rightarrow> vma_state \<Rightarrow> vma_state option" where
  "upd_vma p f s =
     (case get_vma s p of None \<Rightarrow> None
      | Some v \<Rightarrow> Some (s\<lparr>aux := (aux s)\<lparr>vmas := (vmas (aux s))(p \<mapsto> f v)\<rparr>\<rparr>))"

definition add_used :: "u64 \<Rightarrow> vma_state \<Rightarrow> vma_state" where
  "add_used n s = s\<lparr>aux := (aux s)\<lparr>vm_used := vm_used (aux s) + n\<rparr>\<rparr>"

definition sub_used :: "u64 \<Rightarrow> vma_state \<Rightarrow> vma_state" where
  "sub_used n s = s\<lparr>aux := (aux s)\<lparr>vm_used := vm_used (aux s) - n\<rparr>\<rparr>"

definition call_vfs :: "vfs_call \<Rightarrow> vma_state \<Rightarrow> vma_state" where
  "call_vfs c s = s\<lparr>aux := (aux s)\<lparr>vfs_calls := vfs_calls (aux s) @ [c]\<rparr>\<rparr>"

subsection \<open>Searching\<close>

definition vma_len :: "vma \<Rightarrow> u64" where
  "vma_len v = (if vm_flags v AND VMA_STACK \<noteq> 0 then 0 else vm_end v - vm_start v)"

partial_function (option) vma_prev_loop :: "vma_state \<Rightarrow> u64 \<Rightarrow> ptr \<Rightarrow> ptr \<Rightarrow> ptr option" where
  "vma_prev_loop s start node best =
     (if node \<noteq> 0
      then do { v \<leftarrow> get_vma s node;
                if start \<le> vm_start v
                then do { l \<leftarrow> get_left s node; vma_prev_loop s start l best }
                else do { r \<leftarrow> get_right s node; vma_prev_loop s start r node } }
      else Some best)"

definition vma_prev :: "vma_state \<Rightarrow> ptr \<Rightarrow> ptr option" where
  "vma_prev s target = do { t \<leftarrow> get_vma s target; vma_prev_loop s (vm_start t) (root s) 0 }"

partial_function (option) vma_next_loop :: "vma_state \<Rightarrow> u64 \<Rightarrow> ptr \<Rightarrow> ptr \<Rightarrow> ptr option" where
  "vma_next_loop s start node best =
     (if node \<noteq> 0
      then do { v \<leftarrow> get_vma s node;
                if start < vm_start v
                then do { l \<leftarrow> get_left s node; vma_next_loop s start l node }
                else do { r \<leftarrow> get_right s node; vma_next_loop s start r best } }
      else Some best)"

definition vma_next :: "vma_state \<Rightarrow> ptr \<Rightarrow> ptr option" where
  "vma_next s target = do { t \<leftarrow> get_vma s target; vma_next_loop s (vm_start t) (root s) 0 }"

text \<open>The descents of \<open>vma_find\<close> and \<open>vma_find_intersection\<close>, for the range from \<open>start\<close> to below \<open>end\<close>.\<close>

partial_function (option) vma_find_loop :: "vma_state \<Rightarrow> u64 \<Rightarrow> ptr \<Rightarrow> ptr option" where
  "vma_find_loop s addr node =
     (if node \<noteq> 0
      then do { v \<leftarrow> get_vma s node;
                if addr < vm_start v then do { l \<leftarrow> get_left s node; vma_find_loop s addr l }
                else if addr \<ge> vm_end v then do { r \<leftarrow> get_right s node; vma_find_loop s addr r }
                else Some node }
      else Some 0)"

definition vma_find :: "vma_state \<Rightarrow> u64 \<Rightarrow> ptr option" where
  "vma_find s addr = vma_find_loop s addr (root s)"

definition vma_is_linked :: "vma_state \<Rightarrow> ptr \<Rightarrow> bool option" where
  "vma_is_linked s target =
     (if target = 0 then Some False
      else do { t \<leftarrow> get_vma s target;
                p \<leftarrow> vma_find_loop s (vm_start t) (root s);
                Some (p = target) })"

partial_function (option) vma_intersection_loop :: "vma_state \<Rightarrow> u64 \<Rightarrow> u64 \<Rightarrow> ptr \<Rightarrow> ptr option" where
  "vma_intersection_loop s start fin node =
     (if node \<noteq> 0
      then do { v \<leftarrow> get_vma s node;
                if fin \<le> vm_start v then do { l \<leftarrow> get_left s node; vma_intersection_loop s start fin l }
                else if start \<ge> vm_end v
                then do { r \<leftarrow> get_right s node; vma_intersection_loop s start fin r }
                else Some node }
      else Some 0)"

definition vma_find_intersection :: "vma_state \<Rightarrow> u64 \<Rightarrow> u64 \<Rightarrow> ptr option" where
  "vma_find_intersection s start fin = vma_intersection_loop s start fin (root s)"

subsection \<open>Allocation\<close>

definition vma_manager_init :: "bool \<Rightarrow> vma_state \<Rightarrow> vma_state" where
  "vma_manager_init ini s = s\<lparr>root := 0, aux := (aux s)\<lparr>vm_used := 0, initialized := ini\<rparr>\<rparr>"

definition vma_alloc :: "vma_env \<Rightarrow> vma_state \<Rightarrow> ptr \<times> vma_state" where
  "vma_alloc env s =
     (let p = malloc env s
      in if p = 0 then (0, s)
         else (p, s\<lparr>nodes := (nodes s)(p \<mapsto> \<lparr>rb_parent_color = 0, rb_right = 0, rb_left = 0\<rparr>),
                    aux := (aux s)\<lparr>vmas := (vmas (aux s))(p \<mapsto>
                      \<lparr>vm_start = 0, vm_end = 0, vm_flags = 0, vm_type = VMA_TYPE_ANON, inode = 0, shm = 0,
                       vm_offset = 0, vm_file_len = 0, vm_file_flags = 0, shm_id = - 1, vm_name = None\<rparr>)\<rparr>\<rparr>))"

definition vma_free :: "ptr \<Rightarrow> vma_state \<Rightarrow> vma_state option" where
  "vma_free p s =
     (if p = 0 then Some s
      else do { v \<leftarrow> get_vma s p;
                let s = (if inode v \<noteq> 0 then call_vfs (Reap (inode v)) (call_vfs (Iput (inode v)) s) else s);
                Some (s\<lparr>nodes := (nodes s)(p := None),
                        aux := (aux s)\<lparr>vmas := (vmas (aux s))(p := None)\<rparr>\<rparr>) })"

subsection \<open>Insertion and removal\<close>

text \<open>The descent to the place of a new area; the inner \<open>None\<close> is the return of -1 on an overlap.\<close>

partial_function (option) vma_insert_pos ::
  "vma_state \<Rightarrow> vma \<Rightarrow> rb_link \<Rightarrow> ptr \<Rightarrow> (ptr \<times> rb_link) option option" where
  "vma_insert_pos s new link parent =
     do { p \<leftarrow> get_link s link;
          if p \<noteq> 0
          then do { v \<leftarrow> get_vma s p;
                    if vm_end new \<le> vm_start v then vma_insert_pos s new (Link_Left p) p
                    else if vm_start new \<ge> vm_end v then vma_insert_pos s new (Link_Right p) p
                    else Some None }
          else Some (Some (parent, link)) }"

definition vma_insert :: "ptr \<Rightarrow> vma_state \<Rightarrow> (int \<times> vma_state) option" where
  "vma_insert new_vma s =
     (if new_vma = 0 then Some (- 1, s)
      else do {
        new \<leftarrow> get_vma s new_vma;
        if vm_start new \<ge> vm_end new then Some (- 1, s)
        else do {
          pos \<leftarrow> vma_insert_pos s new Link_Root 0;
          case pos of
            None \<Rightarrow> Some (- 1, s)
          | Some (parent, link) \<Rightarrow>
              do { s \<leftarrow> link_node new_vma parent link s;
                   s \<leftarrow> rb_insert_color new_vma s;
                   Some (0, add_used (vma_len new) s) } } })"

definition vma_remove :: "ptr \<Rightarrow> vma_state \<Rightarrow> (int \<times> vma_state) option" where
  "vma_remove p s =
     (if p = 0 then Some (- 1, s)
      else do {
        linked \<leftarrow> vma_is_linked s p;
        if \<not> linked then Some (- 1, s)
        else do {
          s \<leftarrow> rb_erase p s;
          s \<leftarrow> clear_node p s;
          v \<leftarrow> get_vma s p;
          Some (0, sub_used (vma_len v) s) } })"

subsection \<open>Splitting and merging\<close>

text \<open>The part of \<open>vma_split\<close> that fills in the new area and divides the file length.\<close>

definition vma_split_fields ::
  "vma_env \<Rightarrow> ptr \<Rightarrow> ptr \<Rightarrow> vma \<Rightarrow> u64 \<Rightarrow> vma_state \<Rightarrow> vma_state option" where
  "vma_split_fields env vma new_vma v addr s = do {
    s \<leftarrow> upd_vma new_vma (\<lambda>n. n\<lparr>vm_start := addr, vm_end := vm_end v, vm_flags := vm_flags v,
                                 vm_type := vm_type v, inode := inode v\<rparr>) s;
    let s = (if inode v \<noteq> 0 then call_vfs (Igrab (inode v)) s else s);
    s \<leftarrow> upd_vma new_vma (\<lambda>n. n\<lparr>shm := shm v, vm_offset := vm_offset v,
                                 vm_file_len := vm_file_len v, vm_file_flags := vm_file_flags v,
                                 shm_id := shm_id v\<rparr>) s;
    s \<leftarrow> (if vm_type v = VMA_TYPE_FILE
          then do { let split_delta = addr - vm_start v;
                    s \<leftarrow> upd_vma new_vma (\<lambda>n. n\<lparr>vm_offset := vm_offset n + (addr - vm_start v),
                           vm_file_len := (if vm_file_len v > split_delta
                                           then vm_file_len v - split_delta else 0)\<rparr>) s;
                    upd_vma vma (\<lambda>v. v\<lparr>vm_file_len := min (vm_file_len v) split_delta\<rparr>) s }
          else Some s);
    case vm_name v of None \<Rightarrow> Some s
    | Some name \<Rightarrow> upd_vma new_vma (\<lambda>n. n\<lparr>vm_name := strdup env s name\<rparr>) s }"

definition vma_split :: "vma_env \<Rightarrow> ptr \<Rightarrow> u64 \<Rightarrow> vma_state \<Rightarrow> (int \<times> vma_state) option" where
  "vma_split env vma addr s =
     (if vma = 0 then Some (- 1, s)
      else do {
        v \<leftarrow> get_vma s vma;
        if addr \<le> vm_start v \<or> addr \<ge> vm_end v then Some (- 1, s)
        else do {
          let (new_vma, s) = vma_alloc env s;
          if new_vma = 0 then Some (- 1, s)
          else do {
            let old_start = vm_start v;
            let old_end = vm_end v;
            let old_file_len = vm_file_len v;
            s \<leftarrow> vma_split_fields env vma new_vma v addr s;
            s \<leftarrow> rb_erase vma s;
            let s = sub_used (old_end - old_start) s;
            s \<leftarrow> clear_node vma s;
            s \<leftarrow> upd_vma vma (\<lambda>v. v\<lparr>vm_end := addr\<rparr>) s;
            (r, s) \<leftarrow> vma_insert vma s;
            if r \<noteq> 0
            then do { s \<leftarrow> upd_vma vma (\<lambda>v. v\<lparr>vm_end := old_end, vm_file_len := old_file_len\<rparr>) s;
                      (_, s) \<leftarrow> vma_insert vma s;
                      s \<leftarrow> vma_free new_vma s;
                      Some (- 1, s) }
            else do {
              (r, s) \<leftarrow> vma_insert new_vma s;
              if r \<noteq> 0
              then do { s \<leftarrow> rb_erase vma s;
                        let s = sub_used (addr - old_start) s;
                        s \<leftarrow> clear_node vma s;
                        s \<leftarrow> upd_vma vma (\<lambda>v. v\<lparr>vm_end := old_end, vm_file_len := old_file_len\<rparr>) s;
                        (_, s) \<leftarrow> vma_insert vma s;
                        s \<leftarrow> vma_free new_vma s;
                        Some (- 1, s) }
              else Some (0, s) } } } })"

text \<open>The conditions under which \<open>vma_merge\<close> returns -1 before it changes anything.\<close>

definition vma_mergeable :: "vma \<Rightarrow> vma \<Rightarrow> bool" where
  "vma_mergeable v1 v2 =
     (vm_end v1 = vm_start v2 \<and>
      vm_flags v1 = vm_flags v2 \<and> vm_type v1 = vm_type v2 \<and> inode v1 = inode v2 \<and> shm v1 = shm v2 \<and>
      vm_file_flags v1 = vm_file_flags v2 \<and>
      (vm_type v1 = VMA_TYPE_FILE \<longrightarrow>
         vm_offset v1 + (vm_end v1 - vm_start v1) = vm_offset v2 \<and>
         (let vma1_len = vm_end v1 - vm_start v1;
              merged_file_len = vm_file_len v1 + vm_file_len v2;
              merged_len = vm_end v2 - vm_start v1
          in \<not> (merged_file_len < vm_file_len v1 \<or> merged_file_len > merged_len) \<and>
             \<not> (vm_file_len v1 < vma1_len \<and> vm_file_len v2 \<noteq> 0))))"

definition vma_merge :: "ptr \<Rightarrow> ptr \<Rightarrow> vma_state \<Rightarrow> (int \<times> vma_state) option" where
  "vma_merge vma1 vma2 s =
     (if vma1 = 0 \<or> vma2 = 0 then Some (- 1, s)
      else do {
        v1 \<leftarrow> get_vma s vma1;
        v2 \<leftarrow> get_vma s vma2;
        if \<not> vma_mergeable v1 v2 then Some (- 1, s)
        else do {
          s \<leftarrow> (if vm_name v1 = None \<and> vm_name v2 \<noteq> None
                then do { s \<leftarrow> upd_vma vma1 (\<lambda>v. v\<lparr>vm_name := vm_name v2\<rparr>) s;
                          upd_vma vma2 (\<lambda>v. v\<lparr>vm_name := None\<rparr>) s }
                else Some s);
          let new_end = vm_end v2;
          let s = sub_used (vma_len v2) s;
          s \<leftarrow> rb_erase vma2 s;
          let old_end = vm_end v1;
          let s = sub_used (vma_len v1) s;
          s \<leftarrow> rb_erase vma1 s;
          s \<leftarrow> clear_node vma1 s;
          s \<leftarrow> upd_vma vma1 (\<lambda>v. v\<lparr>vm_end := new_end\<rparr>) s;
          s \<leftarrow> (if vm_type v1 = VMA_TYPE_FILE
                then upd_vma vma1 (\<lambda>v. v\<lparr>vm_file_len := vm_file_len v + vm_file_len v2\<rparr>) s
                else Some s);
          (r, s) \<leftarrow> vma_insert vma1 s;
          if r \<noteq> 0
          then do { s \<leftarrow> upd_vma vma1 (\<lambda>v. v\<lparr>vm_end := old_end\<rparr>) s;
                    s \<leftarrow> (if vm_type v1 = VMA_TYPE_FILE
                          then upd_vma vma1 (\<lambda>v. v\<lparr>vm_file_len := vm_file_len v - vm_file_len v2\<rparr>) s
                          else Some s);
                    (_, s) \<leftarrow> vma_insert vma1 s;
                    s \<leftarrow> clear_node vma2 s;
                    (_, s) \<leftarrow> vma_insert vma2 s;
                    Some (- 1, s) }
          else do { s \<leftarrow> vma_free vma2 s; Some (0, s) } } })"

text \<open>The loop of \<open>vma_try_merge_around\<close>; the first result is the final value of \<open>*vma_ptr\<close>.\<close>

partial_function (option) vma_try_merge_around :: "ptr \<Rightarrow> vma_state \<Rightarrow> (ptr \<times> vma_state) option" where
  "vma_try_merge_around vma s =
     do { v \<leftarrow> get_vma s vma;
          prev \<leftarrow> vma_prev s vma;
          pv \<leftarrow> (if prev \<noteq> 0 then map_option Some (get_vma s prev) else Some None);
          (r, s) \<leftarrow> (case pv of
                       None \<Rightarrow> Some (- 1, s)
                     | Some pv \<Rightarrow> if vm_end pv = vm_start v then vma_merge prev vma s else Some (- 1, s));
          if r = 0 then vma_try_merge_around prev s
          else do {
            v \<leftarrow> get_vma s vma;
            nxt \<leftarrow> vma_next s vma;
            nv \<leftarrow> (if nxt \<noteq> 0 then map_option Some (get_vma s nxt) else Some None);
            (r, s) \<leftarrow> (case nv of
                         None \<Rightarrow> Some (- 1, s)
                       | Some nv \<Rightarrow> if vm_end v = vm_start nv then vma_merge vma nxt s else Some (- 1, s));
            if r = 0 then vma_try_merge_around vma s else Some (vma, s) } }"

subsection \<open>Unmapping, cleanup and copying\<close>

partial_function (option) vma_unmap_loop ::
  "vma_env \<Rightarrow> u64 \<Rightarrow> u64 \<Rightarrow> vma_state \<Rightarrow> (int \<times> vma_state) option" where
  "vma_unmap_loop env start fin s =
     do { vma \<leftarrow> vma_find_intersection s start fin;
          if vma = 0 then Some (0, s)
          else do {
            v \<leftarrow> get_vma s vma;
            if vm_start v < start
            then do { (r, s) \<leftarrow> vma_split env vma start s;
                      if r \<noteq> 0 then Some (- 1, s) else vma_unmap_loop env start fin s }
            else if vm_end v > fin
            then do { (r, s) \<leftarrow> vma_split env vma fin s;
                      if r \<noteq> 0 then Some (- 1, s) else vma_unmap_loop env start fin s }
            else do { (_, s) \<leftarrow> vma_remove vma s;
                      s \<leftarrow> vma_free vma s;
                      vma_unmap_loop env start fin s } } }"

definition vma_unmap_range :: "vma_env \<Rightarrow> u64 \<Rightarrow> u64 \<Rightarrow> vma_state \<Rightarrow> (int \<times> vma_state) option" where
  "vma_unmap_range env start fin s =
     (if start \<ge> fin then Some (- 1, s) else vma_unmap_loop env start fin s)"

partial_function (option) vma_cleanup_loop :: "vma_state \<Rightarrow> vma_state option" where
  "vma_cleanup_loop s =
     do { node \<leftarrow> rb_first s;
          if node \<noteq> 0
          then do { (_, s) \<leftarrow> vma_remove node s; s \<leftarrow> vma_free node s; vma_cleanup_loop s }
          else Some s }"

definition vma_manager_exit_cleanup :: "vma_state \<Rightarrow> vma_state option" where
  "vma_manager_exit_cleanup s =
     (if \<not> initialized (aux s) then Some s
      else do { s \<leftarrow> vma_cleanup_loop s; Some (s\<lparr>root := 0, aux := (aux s)\<lparr>vm_used := 0\<rparr>\<rparr>) })"

definition vma_copy :: "vma_env \<Rightarrow> ptr \<Rightarrow> vma_state \<Rightarrow> (ptr \<times> vma_state) option" where
  "vma_copy env src s =
     (if src = 0 then Some (0, s)
      else do {
        let (dst, s) = vma_alloc env s;
        if dst = 0 then Some (0, s)
        else do {
          v \<leftarrow> get_vma s src;
          s \<leftarrow> upd_vma dst (\<lambda>d. d\<lparr>vm_start := vm_start v, vm_end := vm_end v, vm_flags := vm_flags v,
                                   vm_type := vm_type v, inode := inode v\<rparr>) s;
          let s = (if inode v \<noteq> 0 then call_vfs (Igrab (inode v)) s else s);
          s \<leftarrow> upd_vma dst (\<lambda>d. d\<lparr>shm := shm v, vm_offset := vm_offset v, vm_file_len := vm_file_len v,
                                   vm_file_flags := vm_file_flags v, shm_id := shm_id v\<rparr>) s;
          s \<leftarrow> (case vm_name v of None \<Rightarrow> Some s
                | Some name \<Rightarrow> upd_vma dst (\<lambda>d. d\<lparr>vm_name := strdup env s name\<rparr>) s);
          Some (dst, s) } })"

text \<open>The loop of \<open>vma_manager_copy\<close> from the node \<open>node\<close> of the source; the state is the destination's.\<close>

partial_function (option) vma_copy_loop :: "vma_env \<Rightarrow> ptr \<Rightarrow> vma_state \<Rightarrow> (int \<times> vma_state) option" where
  "vma_copy_loop env node s =
     (if node = 0 then Some (0, s)
      else do {
        nxt \<leftarrow> rb_next s node;
        (dst, s) \<leftarrow> vma_copy env node s;
        if dst = 0
        then do { s \<leftarrow> vma_manager_exit_cleanup s; Some (- 1, s) }
        else do {
          (r, s) \<leftarrow> vma_insert dst s;
          if r \<noteq> 0
          then do { s \<leftarrow> vma_free dst s; s \<leftarrow> vma_manager_exit_cleanup s; Some (- 1, s) }
          else vma_copy_loop env nxt s } })"

definition vma_manager_copy :: "vma_env \<Rightarrow> ptr \<Rightarrow> bool \<Rightarrow> vma_state \<Rightarrow> (int \<times> vma_state) option" where
  "vma_manager_copy env src_root src_initialized s =
     do { let s = vma_manager_init src_initialized s;
          if \<not> src_initialized then Some (0, s)
          else do { node \<leftarrow> rb_first (s\<lparr>root := src_root\<rparr>); vma_copy_loop env node s } }"

subsection \<open>Shared memory\<close>

text \<open>
  Where a fault finds the page of a shared memory area: \<open>map_shm_fault_page_locked\<close> of \<open>mm/fault.c\<close> up to the call that
  maps the page.  The kernel address of the page, \<open>None\<close> for \<open>PF_RES_SEGF\<close>; \<open>objs\<close> gives the object at a pointer.
\<close>

record shm_t =
  shm_addr :: ptr
  shm_size :: u64

definition shm_fault_page :: "(ptr \<Rightarrow> shm_t) \<Rightarrow> vma \<Rightarrow> u64 \<Rightarrow> ptr option" where
  "shm_fault_page objs v vaddr =
     (if shm v = 0 \<or> shm_addr (objs (shm v)) = 0 then None
      else let aligned_vaddr = PADDING_DOWN vaddr PAGE_SIZE
      in if aligned_vaddr < vm_start v \<or> aligned_vaddr \<ge> vm_end v then None
      else let offset = aligned_vaddr - vm_start v
      in if offset \<ge> shm_size (objs (shm v)) then None
      else Some (shm_addr (objs (shm v)) + offset))"

declare vma_prev_loop.simps [code] vma_next_loop.simps [code] vma_find_loop.simps [code] vma_intersection_loop.simps [code]
  vma_insert_pos.simps [code] vma_try_merge_around.simps [code] vma_unmap_loop.simps [code] vma_cleanup_loop.simps [code]
  vma_copy_loop.simps [code]

end
