(* ===== verification/Vma_Spec.thy ===== *)
theory Vma_Spec
  imports Vma
begin

text \<open>
  What the areas of \<open>mm/vma.c\<close> are to their users: the tree is a sorted list of disjoint areas, and the
  areas give every address its access rights and its backing object.  Searching, insertion, removal,
  splitting, merging and unmapping are described over that list.
\<close>

subsection \<open>Areas as a sorted list\<close>

definition iv :: "vma_state \<Rightarrow> ptr \<Rightarrow> vma" where
  "iv s p = the (vmas (aux s) p)"

definition proper :: "vma \<Rightarrow> bool" where
  "proper v \<longleftrightarrow> vm_start v < vm_end v"

definition below :: "vma \<Rightarrow> vma \<Rightarrow> bool" where
  "below v w \<longleftrightarrow> vm_end v \<le> vm_start w"

text \<open>The invariant of a manager: a red-black tree of disjoint nonempty areas in ascending order.\<close>

definition areas :: "vma_state \<Rightarrow> ptr list \<Rightarrow> bool" where
  "areas s L \<longleftrightarrow> holds_tree s L \<and> (\<forall>p \<in> set L. vmas (aux s) p \<noteq> None) \<and>
     (\<forall>v \<in> set (map (iv s) L). proper v) \<and> sorted_wrt below (map (iv s) L)"

lemma areas_vma: "areas s L \<Longrightarrow> p \<in> set L \<Longrightarrow> get_vma s p = Some (iv s p)"
  using holds_tree_null [of s L] by (auto simp: areas_def get_vma_def iv_def)

definition covers :: "u64 \<Rightarrow> vma \<Rightarrow> bool" where
  "covers a v \<longleftrightarrow> vm_start v \<le> a \<and> a < vm_end v"

definition meets :: "u64 \<Rightarrow> u64 \<Rightarrow> vma \<Rightarrow> bool" where
  "meets start fin v \<longleftrightarrow> vm_start v < fin \<and> start < vm_end v"

text \<open>The facts about a subtree that the descents need.\<close>

definition sub_areas :: "vma_state \<Rightarrow> ptr list \<Rightarrow> bool" where
  "sub_areas s L \<longleftrightarrow> (\<forall>p \<in> set L. get_vma s p = Some (iv s p) \<and> proper (iv s p)) \<and>
     sorted_wrt (\<lambda>p q. below (iv s p) (iv s q)) L"

lemma areas_sub: "areas s L \<Longrightarrow> sub_areas s L"
  using areas_vma by (auto simp: areas_def sub_areas_def sorted_wrt_map)

lemma sub_areas_node:
  "sub_areas s (inorder (Nd l x k r)) \<longleftrightarrow> sub_areas s (inorder l) \<and> sub_areas s (inorder r) \<and>
     get_vma s x = Some (iv s x) \<and> proper (iv s x) \<and>
     (\<forall>p \<in> set (inorder l). below (iv s p) (iv s x)) \<and> (\<forall>q \<in> set (inorder r). below (iv s x) (iv s q)) \<and>
     (\<forall>p \<in> set (inorder l). \<forall>q \<in> set (inorder r). below (iv s p) (iv s q))"
  by (auto simp: sub_areas_def sorted_wrt_append)

lemma meets_node:
  assumes "sub_areas s (inorder (Nd l x k r))"
  shows "fin \<le> vm_start (iv s x) \<Longrightarrow> p \<in> set (inorder r) \<Longrightarrow> \<not> meets start fin (iv s p)"
    "vm_end (iv s x) \<le> start \<Longrightarrow> p \<in> set (inorder l) \<Longrightarrow> \<not> meets start fin (iv s p)"
  using assms unfolding sub_areas_node by (auto simp: meets_def below_def proper_def sub_areas_def)

lemma intersection_loop:
  assumes "rep s c t" "sub_areas s (inorder t)" "start < fin"
  shows "\<exists>p. vma_intersection_loop s start fin (rt t) = Some p \<and>
    (if p = 0 then \<forall>q \<in> set (inorder t). \<not> meets start fin (iv s q)
     else p \<in> set (inorder t) \<and> meets start fin (iv s p))"
  using assms
proof (induction t arbitrary: c)
  case Lf
  then show ?case by (simp add: vma_intersection_loop.simps)
next
  case (Nd l x k r)
  have rl: "rep s (CL c x k r) l" and rr: "rep s (CR l x k c) r"
    using Nd.prems(1) by (simp_all add: rep_CL rep_CR)
  note f = rep_fields [OF Nd.prems(1)] and n = rep_node(2) [OF Nd.prems(1)]
  have x: "get_vma s x = Some (iv s x)" "sub_areas s (inorder l)" "sub_areas s (inorder r)"
    "proper (iv s x)"
    using Nd.prems(2) unfolding sub_areas_node by auto
  consider "fin \<le> vm_start (iv s x)" | "\<not> fin \<le> vm_start (iv s x)" "vm_end (iv s x) \<le> start" |
      "\<not> fin \<le> vm_start (iv s x)" "\<not> vm_end (iv s x) \<le> start" by blast
  then show ?case
  proof cases
    case 1
    then have "\<not> meets start fin (iv s x)" by (auto simp: meets_def)
    moreover obtain p where "vma_intersection_loop s start fin (rt l) = Some p"
      "if p = 0 then \<forall>q \<in> set (inorder l). \<not> meets start fin (iv s q)
       else p \<in> set (inorder l) \<and> meets start fin (iv s p)"
      using Nd.IH(1) [OF rl x(2) Nd.prems(3)] by blast
    ultimately show ?thesis
      using meets_node(1) [OF Nd.prems(2) 1] n f x(1) 1
      by (intro exI [of _ p]) (simp add: vma_intersection_loop.simps [of s _ _ x] ball_Un split: if_splits)
  next
    case 2
    then have "\<not> meets start fin (iv s x)" by (auto simp: meets_def)
    moreover obtain p where "vma_intersection_loop s start fin (rt r) = Some p"
      "if p = 0 then \<forall>q \<in> set (inorder r). \<not> meets start fin (iv s q)
       else p \<in> set (inorder r) \<and> meets start fin (iv s p)"
      using Nd.IH(2) [OF rr x(3) Nd.prems(3)] by blast
    ultimately show ?thesis
      using meets_node(2) [OF Nd.prems(2) 2(2)] n f x(1) 2
      by (intro exI [of _ p]) (simp add: vma_intersection_loop.simps [of s _ _ x] ball_Un split: if_splits)
  next
    case 3
    then have "meets start fin (iv s x)" by (auto simp: meets_def)
    then show ?thesis using n x(1) 3
      by (intro exI [of _ x]) (simp add: vma_intersection_loop.simps [of s _ _ x])
  qed
qed

lemma find_loop:
  assumes "rep s c t" "sub_areas s (inorder t)"
  shows "\<exists>p. vma_find_loop s a (rt t) = Some p \<and>
    (if p = 0 then \<forall>q \<in> set (inorder t). \<not> covers a (iv s q)
     else p \<in> set (inorder t) \<and> covers a (iv s p))"
  using assms
proof (induction t arbitrary: c)
  case Lf
  then show ?case by (simp add: vma_find_loop.simps)
next
  case (Nd l x k r)
  have rl: "rep s (CL c x k r) l" and rr: "rep s (CR l x k c) r"
    using Nd.prems(1) by (simp_all add: rep_CL rep_CR)
  note f = rep_fields [OF Nd.prems(1)] and n = rep_node(2) [OF Nd.prems(1)]
  have x: "get_vma s x = Some (iv s x)" "sub_areas s (inorder l)" "sub_areas s (inorder r)"
    "proper (iv s x)" "\<forall>p \<in> set (inorder l). below (iv s p) (iv s x)"
    "\<forall>q \<in> set (inorder r). below (iv s x) (iv s q)"
    using Nd.prems(2) unfolding sub_areas_node by auto
  consider "a < vm_start (iv s x)" | "\<not> a < vm_start (iv s x)" "vm_end (iv s x) \<le> a" | "covers a (iv s x)"
    unfolding covers_def by (meson not_le)
  then show ?case
  proof cases
    case 1
    then have "\<forall>q \<in> set (x # inorder r). \<not> covers a (iv s q)"
      using x(4,6) by (auto simp: covers_def below_def proper_def)
    then show ?thesis using Nd.IH(1) [OF rl x(2)] n f x(1) 1
      by (auto simp: vma_find_loop.simps [of s _ x] split: if_splits)
  next
    case 2
    then have "\<forall>q \<in> set (inorder l @ [x]). \<not> covers a (iv s q)"
      using x(4,5) by (auto simp: covers_def below_def proper_def)
    then show ?thesis using Nd.IH(2) [OF rr x(3)] n f x(1) 2
      by (auto simp: vma_find_loop.simps [of s _ x] split: if_splits)
  next
    case 3
    then show ?thesis using n x(1)
      by (intro exI [of _ x]) (auto simp: vma_find_loop.simps [of s _ x] covers_def)
  qed
qed

text \<open>What the descent of \<open>vma_insert\<close> finds below a position: an overlap, or the empty place.\<close>

definition placed :: "vma_state \<Rightarrow> vma \<Rightarrow> ctx \<Rightarrow> rbt \<Rightarrow> (ptr \<times> rb_link) option \<Rightarrow> bool" where
  "placed s new c t r \<longleftrightarrow>
     (case r of None \<Rightarrow> \<exists>q \<in> set (inorder t). meets (vm_start new) (vm_end new) (iv s q)
      | Some (par, lk) \<Rightarrow> \<exists>d us ws. par = cpar d \<and> lk = link_of d \<and> rep s d Lf \<and> plug d Lf = plug c t \<and>
          inorder t = us @ ws \<and> before d = before c @ us \<and> behind d = ws @ behind c \<and>
          (\<forall>q \<in> set us. below (iv s q) new) \<and> (\<forall>q \<in> set ws. below new (iv s q)))"

lemma placedI:
  "rep s d Lf \<Longrightarrow> plug d Lf = plug c t \<Longrightarrow> inorder t = us @ ws \<Longrightarrow> before d = before c @ us \<Longrightarrow>
   behind d = ws @ behind c \<Longrightarrow> \<forall>q \<in> set us. below (iv s q) new \<Longrightarrow> \<forall>q \<in> set ws. below new (iv s q) \<Longrightarrow>
   placed s new c t (Some (cpar d, link_of d))"
  unfolding placed_def by auto

lemma placed_left:
  assumes "placed s new (CL c x k r) l p" "\<forall>q \<in> set (x # inorder r). below new (iv s q)"
  shows "placed s new c (Nd l x k r) p"
proof (cases p)
  case (Some a)
  then obtain d us ws where d: "a = (cpar d, link_of d)" "rep s d Lf" "plug d Lf = plug c (Nd l x k r)"
    "inorder l = us @ ws" "before d = before c @ us" "behind d = ws @ x # inorder r @ behind c"
    "\<forall>q \<in> set us. below (iv s q) new" "\<forall>q \<in> set ws. below new (iv s q)"
    using assms(1) by (cases a) (auto simp: placed_def)
  then show ?thesis using Some assms(2) placedI [of s d c "Nd l x k r" us "ws @ x # inorder r" new] by auto
qed (use assms(1) in \<open>auto simp: placed_def\<close>)

lemma placed_right:
  assumes "placed s new (CR l x k c) r p" "\<forall>q \<in> set (inorder l @ [x]). below (iv s q) new"
  shows "placed s new c (Nd l x k r) p"
proof (cases p)
  case (Some a)
  then obtain d us ws where d: "a = (cpar d, link_of d)" "rep s d Lf" "plug d Lf = plug c (Nd l x k r)"
    "inorder r = us @ ws" "before d = before c @ inorder l @ x # us" "behind d = ws @ behind c"
    "\<forall>q \<in> set us. below (iv s q) new" "\<forall>q \<in> set ws. below new (iv s q)"
    using assms(1) by (cases a) (auto simp: placed_def)
  then show ?thesis using Some assms(2) placedI [of s d c "Nd l x k r" "inorder l @ x # us" ws new] by auto
qed (use assms(1) in \<open>auto simp: placed_def\<close>)

lemma insert_pos:
  assumes "rep s c t" "sub_areas s (inorder t)" "proper new"
  shows "\<exists>p. vma_insert_pos s new (link_of c) (cpar c) = Some p \<and> placed s new c t p"
  using assms
proof (induction t arbitrary: c)
  case Lf
  then have "placed s new c Lf (Some (cpar c, link_of c))" using placedI [of s c c Lf "[]" "[]"] by simp
  then show ?case using rep_get_link [OF Lf.prems(1)] by (simp add: vma_insert_pos.simps)
next
  case (Nd l x k r)
  have rl: "rep s (CL c x k r) l" and rr: "rep s (CR l x k c) r"
    using Nd.prems(1) by (simp_all add: rep_CL rep_CR)
  note f = rep_get_link [OF Nd.prems(1)] and n = rep_node(2) [OF Nd.prems(1)]
  have x: "get_vma s x = Some (iv s x)" "sub_areas s (inorder l)" "sub_areas s (inorder r)"
    "proper (iv s x)" "\<forall>p \<in> set (inorder l). below (iv s p) (iv s x)"
    "\<forall>q \<in> set (inorder r). below (iv s x) (iv s q)"
    using Nd.prems(2) unfolding sub_areas_node by auto
  consider "below new (iv s x)" | "\<not> below new (iv s x)" "below (iv s x) new" |
    "\<not> below new (iv s x)" "\<not> below (iv s x) new" by blast
  then show ?case
  proof cases
    case 1
    then have "\<forall>q \<in> set (x # inorder r). below new (iv s q)"
      using x(4,6) by (auto simp: below_def proper_def)
    then show ?thesis using Nd.IH(1) [OF rl x(2) Nd.prems(3)] placed_left n f x(1) 1
      by (fastforce simp: vma_insert_pos.simps [of s _ "link_of c"] below_def)
  next
    case 2
    then have "\<forall>q \<in> set (inorder l @ [x]). below (iv s q) new"
      using x(4,5) by (auto simp: below_def proper_def)
    then show ?thesis using Nd.IH(2) [OF rr x(3) Nd.prems(3)] placed_right n f x(1) 2
      by (fastforce simp: vma_insert_pos.simps [of s _ "link_of c"] below_def)
  next
    case 3
    then have "placed s new c (Nd l x k r) None" by (auto simp: placed_def meets_def below_def)
    then show ?thesis using n x(1) f 3
      by (intro exI [of _ None]) (auto simp: vma_insert_pos.simps [of s _ "link_of c"] below_def)
  qed
qed

subsection \<open>Insertion and removal\<close>

lemma iv_cong: "vmas (aux s') p = vmas (aux s) p \<Longrightarrow> iv s' p = iv s p"
  by (simp add: iv_def)

lemma areas_cong:
  assumes "areas s L" "\<And>p. p \<in> set L \<Longrightarrow> nodes s' p = nodes s p" "root s' = root s"
    "\<And>p. p \<in> set L \<Longrightarrow> vmas (aux s') p = vmas (aux s) p"
  shows "areas s' L" "map (iv s') L = map (iv s) L"
proof -
  show m: "map (iv s') L = map (iv s) L" using assms(4) by (simp add: iv_def)
  have "holds_tree s' L" using assms(1) by (intro holds_tree_cong [OF _ assms(2,3)]) (simp_all add: areas_def)
  then show "areas s' L" using assms(1,4) unfolding areas_def m by simp
qed

definition gap :: "vma \<Rightarrow> vma list \<Rightarrow> bool" where
  "gap new A \<longleftrightarrow> (\<forall>v \<in> set A. \<not> meets (vm_start new) (vm_end new) v)"

lemma vma_insert_law:
  assumes "areas s L" "get_vma s x = Some new" "proper new" "ok x" "nodes s x \<noteq> None" "x \<notin> set L"
  shows "if gap new (map (iv s) L)
    then \<exists>s' us ws. vma_insert x s = Some (0, s') \<and> L = us @ ws \<and> areas s' (us @ x # ws) \<and>
        aux s' = (aux s)\<lparr>vm_used := vm_used (aux s) + vma_len new\<rparr> \<and>
        (\<forall>p. p \<notin> set (us @ x # ws) \<longrightarrow> nodes s' p = nodes s p)
    else vma_insert x s = Some (- 1, s)"
proof -
  obtain t where t: "rep s Top t" "rb_tree t" "inorder t = L"
    using assms(1) unfolding areas_def holds_tree_def by blast
  obtain p where p: "vma_insert_pos s new Link_Root 0 = Some p" "placed s new Top t p"
    using insert_pos [of s Top t new] t areas_sub [OF assms(1)] assms(3) by auto
  have x0: "x \<noteq> 0" "\<not> vm_end new \<le> vm_start new" using assms(3,4) by (auto simp: ok_def proper_def)
  show ?thesis
  proof (cases p)
    case None
    then show ?thesis using p t(3) x0 assms(2) by (auto simp: vma_insert_def placed_def gap_def)
  next
    case (Some a)
    then obtain d us ws where d: "a = (cpar d, link_of d)" "rep s d Lf" "plug d Lf = t" "L = us @ ws"
      "before d = us" "behind d = ws"
      "\<forall>q \<in> set us. below (iv s q) new" "\<forall>q \<in> set ws. below new (iv s q)"
      using p(2) t(3) by (cases a) (auto simp: placed_def)
    obtain s1 s2 where s: "link_node x (cpar d) (link_of d) s = Some s1" "rb_insert_augmented None x s1 = Some s2"
      "holds_tree s2 (us @ x # ws)" "frame None (set (us @ x # ws)) s s2"
      using insert_holds_tree [OF d(2), of x None] t(2) assms(4,5,6) d by (auto simp: walk_def)
    define s3 where "s3 = add_used (vma_len new) s2"
    have a3: "aux s3 = (aux s)\<lparr>vm_used := vm_used (aux s) + vma_len new\<rparr>" "nodes s3 = nodes s2" "root s3 = root s2"
      using s(4) by (simp_all add: s3_def add_used_def frame_def)
    have i3: "iv s3 q = iv s q" for q using a3(1) by (simp add: iv_def)
    have ix: "iv s x = new" using assms(2) x0 by (auto simp: get_vma_def iv_def)
    have gp: "gap new (map (iv s) L)"
      using d(4,7,8) by (force simp: gap_def meets_def below_def)
    have "holds_tree s3 (us @ x # ws)" using s(3) holds_tree_cong [of s2 "us @ x # ws" s3] a3 by simp
    moreover have "\<forall>q \<in> set (us @ x # ws). vmas (aux s3) q \<noteq> None"
      using assms(1,2) d(4) a3(1) x0 by (auto simp: areas_def get_vma_def)
    ultimately have "areas s3 (us @ x # ws)"
      using assms(1,3) d(4,7,8) ix i3 by (auto simp: areas_def sorted_wrt_append sorted_wrt_map)
    moreover have "vma_insert x s = Some (0, s3)"
      using p(1) Some d(1) s(1,2) x0 assms(2)
      by (simp add: vma_insert_def s3_def insert_color_is_augmented)
    ultimately show ?thesis using gp d(4) a3 s(4) by (auto simp: frame_def)
  qed
qed

lemma sorted_covers_unique:
  "sorted_wrt below A \<Longrightarrow> \<forall>v \<in> set A. proper v \<Longrightarrow> i < length A \<Longrightarrow> j < length A \<Longrightarrow>
   covers a (A ! i) \<Longrightarrow> covers a (A ! j) \<Longrightarrow> i = j"
  unfolding sorted_wrt_iff_nth_less by (cases i j rule: linorder_cases) (auto simp: covers_def below_def, force+)

lemma covers_unique:
  assumes "areas s L" "p \<in> set L" "q \<in> set L" "covers a (iv s p)" "covers a (iv s q)"
  shows "p = q"
proof -
  obtain i j where "i < length L" "j < length L" "p = L ! i" "q = L ! j"
    using assms(2,3) by (auto simp: in_set_conv_nth)
  then show ?thesis using sorted_covers_unique [of "map (iv s) L" i j a] assms(1,4,5) by (simp add: areas_def)
qed

lemma vma_is_linked_law:
  assumes "areas s L" "p \<in> set L"
  shows "vma_is_linked s p = Some True"
proof -
  obtain t where t: "rep s Top t" "inorder t = L" using assms(1) unfolding areas_def holds_tree_def by blast
  have c: "covers (vm_start (iv s p)) (iv s p)" using assms by (auto simp: covers_def areas_def proper_def)
  have "root s = rt t" using t(1) by (simp add: rep_def)
  moreover obtain q where q: "vma_find_loop s (vm_start (iv s p)) (rt t) = Some q"
    "if q = 0 then \<forall>q \<in> set L. \<not> covers (vm_start (iv s p)) (iv s q)
     else q \<in> set L \<and> covers (vm_start (iv s p)) (iv s q)"
    using find_loop [OF t(1)] t(2) areas_sub [OF assms(1)] by blast
  moreover have "q = p" using q(2) c assms covers_unique by (auto split: if_splits)
  moreover have "p \<noteq> 0" using assms holds_tree_null by (auto simp: areas_def)
  ultimately show ?thesis using areas_vma [OF assms] by (simp add: vma_is_linked_def)
qed

text \<open>Taking a node out of the tree and clearing its links.\<close>

lemma unlink_law:
  assumes "areas s (us @ p # ws)"
  shows "\<exists>s1 s2. rb_erase p s = Some s1 \<and> clear_node p s1 = Some s2 \<and> areas s2 (us @ ws) \<and> aux s1 = aux s \<and>
    aux s2 = aux s \<and> dom (nodes s2) = dom (nodes s) \<and>
    (\<forall>q. q \<notin> set (us @ p # ws) \<longrightarrow> nodes s2 q = nodes s q)"
proof -
  have h: "holds_tree s (us @ p # ws)" using assms by (simp add: areas_def)
  obtain s1 where s1: "rb_erase p s = Some s1" "holds_tree s1 (us @ ws)" "frame None (set (us @ p # ws)) s s1"
    using rb_erase_law [OF h, of None] by (auto simp: rb_erase_def)
  have dom1: "dom (nodes s1) = dom (nodes s)" using s1(1) rb_erase_dom unfolding rb_erase_def by blast
  have p: "p \<noteq> 0" "nodes s p \<noteq> None" "p \<notin> set (us @ ws)"
    using holds_tree_nonnull [OF h, of p] holds_tree_distinct [OF h] by (auto simp: ok_def)
  then obtain n where n: "nodes s1 p = Some n" using dom1 by blast
  define s2 where "s2 = s1\<lparr>nodes := (nodes s1)(p \<mapsto> \<lparr>rb_parent_color = 0, rb_right = 0, rb_left = 0\<rparr>)\<rparr>"
  have c: "clear_node p s1 = Some s2"
    using n p(1) by (simp add: clear_node_def upd_node_def node_at_def s2_def)
  have a: "aux s1 = aux s" "aux s2 = aux s" using s1(3) by (simp_all add: s2_def frame_def)
  have "holds_tree s2 (us @ ws)"
    using p(3) by (intro holds_tree_cong [OF s1(2)]) (auto simp: s2_def)
  moreover have "iv s2 = iv s" using a by (simp add: iv_def fun_eq_iff)
  ultimately have "areas s2 (us @ ws)" using assms a by (auto simp: areas_def sorted_wrt_append)
  moreover have "dom (nodes s2) = dom (nodes s)" using dom1 n by (auto simp: s2_def)
  ultimately show ?thesis using s1(1) c a s1(3) by (auto simp: s2_def frame_def)
qed

lemma sub_used_simps [simp]:
  "aux (sub_used n s) = (aux s)\<lparr>vm_used := vm_used (aux s) - n\<rparr>" "nodes (sub_used n s) = nodes s"
  "root (sub_used n s) = root s"
  by (simp_all add: sub_used_def)

lemma vma_remove_law:
  assumes "areas s (us @ p # ws)"
  shows "\<exists>s'. vma_remove p s = Some (0, s') \<and> areas s' (us @ ws) \<and>
    aux s' = (aux s)\<lparr>vm_used := vm_used (aux s) - vma_len (iv s p)\<rparr> \<and> dom (nodes s') = dom (nodes s) \<and>
    (\<forall>q. q \<notin> set (us @ p # ws) \<longrightarrow> nodes s' q = nodes s q)"
proof -
  obtain s1 s2 where s: "rb_erase p s = Some s1" "clear_node p s1 = Some s2" "areas s2 (us @ ws)"
    "aux s2 = aux s" "dom (nodes s2) = dom (nodes s)" "\<forall>q. q \<notin> set (us @ p # ws) \<longrightarrow> nodes s2 q = nodes s q"
    using unlink_law [OF assms] by blast
  have v: "get_vma s p = Some (iv s p)" using areas_vma [OF assms] by simp
  then have v2: "get_vma s2 p = Some (iv s p)" "p \<noteq> 0" using s(4) by (auto simp: get_vma_def split: if_splits)
  define s3 where "s3 = sub_used (vma_len (iv s p)) s2"
  have "areas s3 (us @ ws)" by (rule areas_cong(1) [OF s(3)]) (simp_all add: s3_def)
  moreover have "vma_remove p s = Some (0, s3)"
    using s(1,2) v2 vma_is_linked_law [OF assms, of p] by (simp add: vma_remove_def s3_def)
  ultimately show ?thesis using s(4-6) by (auto simp: s3_def)
qed

text \<open>Insertion at a known place.\<close>

lemma below_asym: "below v w \<Longrightarrow> proper v \<Longrightarrow> proper w \<Longrightarrow> \<not> below w v"
  by (auto simp: below_def proper_def)

lemma append_split_unique:
  assumes "us @ ws = us' @ ws'" "\<forall>q \<in> set us \<union> set us'. P q" "\<forall>q \<in> set ws \<union> set ws'. \<not> P q"
  shows "us = us' \<and> ws = ws'"
proof -
  have t: "takeWhile P (xs @ ys) = xs" if "\<forall>q \<in> set xs. P q" "\<forall>q \<in> set ys. \<not> P q" for xs ys
    using that by (cases ys) (auto simp: takeWhile_append)
  have "us = us'" using t [of us ws] t [of us' ws'] assms by auto
  then show ?thesis using assms(1) by simp
qed

lemma vma_insert_at:
  assumes "areas s (us @ ws)" "get_vma s x = Some new" "proper new" "ok x" "nodes s x \<noteq> None"
    "x \<notin> set (us @ ws)" "\<forall>q \<in> set us. below (iv s q) new" "\<forall>q \<in> set ws. below new (iv s q)"
  shows "\<exists>s'. vma_insert x s = Some (0, s') \<and> areas s' (us @ x # ws) \<and>
    aux s' = (aux s)\<lparr>vm_used := vm_used (aux s) + vma_len new\<rparr> \<and>
    (\<forall>p. p \<notin> set (us @ x # ws) \<longrightarrow> nodes s' p = nodes s p)"
proof -
  have "gap new (map (iv s) (us @ ws))" using assms(7,8) by (force simp: gap_def meets_def below_def)
  then obtain s' us' ws' where s': "vma_insert x s = Some (0, s')" "us @ ws = us' @ ws'" "areas s' (us' @ x # ws')"
    "aux s' = (aux s)\<lparr>vm_used := vm_used (aux s) + vma_len new\<rparr>"
    "\<forall>p. p \<notin> set (us' @ x # ws') \<longrightarrow> nodes s' p = nodes s p"
    using vma_insert_law [OF assms(1-6)] by auto
  have iv: "iv s' q = iv s q" for q using s'(4) by (simp add: iv_def)
  have x: "iv s' x = new" using iv assms(2) by (auto simp: get_vma_def iv_def split: if_splits)
  have up: "\<forall>q \<in> set us'. below (iv s q) new" "\<forall>q \<in> set ws'. below new (iv s q)"
    using s'(3) x iv by (auto simp: areas_def sorted_wrt_append)
  have "q \<in> set (us @ ws)" if "q \<in> set ws \<union> set ws'" for q
    using that arg_cong [OF s'(2), of set] by auto
  then have "proper (iv s q)" if "q \<in> set ws \<union> set ws'" for q
    using assms(1) that unfolding areas_def set_map by blast
  then have "\<forall>q \<in> set ws \<union> set ws'. \<not> below (iv s q) new"
    using below_asym assms(3,8) up(2) by blast
  then have "us = us' \<and> ws = ws'" using append_split_unique [OF s'(2), of "\<lambda>q. below (iv s q) new"] assms(7) up(1) by auto
  then show ?thesis using s' by auto
qed

subsection \<open>Splitting\<close>

definition split_low :: "u64 \<Rightarrow> vma \<Rightarrow> vma" where
  "split_low addr v = v\<lparr>vm_end := addr, vm_file_len :=
     (if vm_type v = VMA_TYPE_FILE then min (vm_file_len v) (addr - vm_start v) else vm_file_len v)\<rparr>"

definition split_high :: "u64 \<Rightarrow> u8 list option \<Rightarrow> vma \<Rightarrow> vma" where
  "split_high addr name v =
     (if vm_type v = VMA_TYPE_FILE
      then v\<lparr>vm_start := addr, vm_offset := vm_offset v + (addr - vm_start v),
             vm_file_len := vm_file_len v - min (vm_file_len v) (addr - vm_start v), vm_name := name\<rparr>
      else v\<lparr>vm_start := addr, vm_name := name\<rparr>)"

lemma split_bounds [simp]:
  "vm_start (split_low a v) = vm_start v" "vm_end (split_low a v) = a" "vm_start (split_high a nm v) = a"
  "vm_end (split_high a nm v) = vm_end v"
  by (simp_all add: split_low_def split_high_def)

lemma areas_bounds:
  assumes "areas s L" "\<And>p. p \<in> set L \<Longrightarrow> nodes s' p = nodes s p" "root s' = root s"
    "\<And>p. p \<in> set L \<Longrightarrow> vmas (aux s') p \<noteq> None \<and> vm_start (iv s' p) = vm_start (iv s p) \<and>
       vm_end (iv s' p) = vm_end (iv s p)"
  shows "areas s' L"
proof -
  have "holds_tree s' L" using assms(1) by (intro holds_tree_cong [OF _ assms(2,3)]) (simp_all add: areas_def)
  moreover have "sorted_wrt below (map (iv s') L)"
    using assms(1,4) sorted_wrt_mono_rel [of L "\<lambda>p q. below (iv s p) (iv s q)" "\<lambda>p q. below (iv s' p) (iv s' q)"]
    by (auto simp: areas_def sorted_wrt_map below_def)
  ultimately show ?thesis using assms(1,4) by (auto simp: areas_def proper_def)
qed

definition fresh :: "vma_env \<Rightarrow> vma_state \<Rightarrow> bool" where
  "fresh env s \<longleftrightarrow> ok (malloc env s) \<and> nodes s (malloc env s) = None \<and> vmas (aux s) (malloc env s) = None"

lemma split_fields_law:
  assumes "get_vma s p = Some v" "fresh env s" "vma_alloc env s = (n, s1)"
  shows "\<exists>s2 nm. vma_split_fields env p n v addr s1 = Some s2 \<and> nodes s2 = nodes s1 \<and> root s2 = root s \<and>
    vm_used (aux s2) = vm_used (aux s) \<and>
    vmas (aux s2) = (vmas (aux s))(n \<mapsto> split_high addr nm v, p \<mapsto> (split_low addr v)\<lparr>vm_end := vm_end v\<rparr>)"
proof -
  have n: "n \<noteq> 0" "vmas (aux s) n = None" using assms(2,3) by (auto simp: fresh_def ok_def vma_alloc_def Let_def split: if_splits)
  have p: "p \<noteq> 0" "vmas (aux s) p = Some v" "p \<noteq> n" using assms(1) n by (auto simp: get_vma_def split: if_splits)
  have m: "vmas (aux s1) p = Some v" "root s1 = root s" "vm_used (aux s1) = vm_used (aux s)"
    "vmas (aux s1) = (vmas (aux s))(n \<mapsto> the (vmas (aux s1) n))" "\<exists>w. vmas (aux s1) n = Some w"
    using assms(3) n(1) p by (auto simp: vma_alloc_def Let_def split: if_splits)
  then obtain w where w: "vmas (aux s1) n = Some w" by blast
  have wn: "vm_name w = None" using w assms(3) n(1) by (auto simp: vma_alloc_def Let_def split: if_splits)
  have min: "(if d < (c :: u64) then c - d else 0) = c - min c d" for c d by (auto simp: min_def)
  note defs = vma_split_fields_def upd_vma_def get_vma_def call_vfs_def Let_def min split_high_def split_low_def
  obtain s2 where s2: "vma_split_fields env p n v addr s1 = Some s2"
    using n(1) p(1,3) m(1) w by (cases "vm_name v"; cases "vm_type v = VMA_TYPE_FILE"; cases "inode v = 0")
      (simp_all add: defs)
  have "vmas (aux s2) = (vmas (aux s1))(n \<mapsto> split_high addr (vm_name (iv s2 n)) v,
      p \<mapsto> (split_low addr v)\<lparr>vm_end := vm_end v\<rparr>) \<and> nodes s2 = nodes s1 \<and> root s2 = root s1 \<and>
      vm_used (aux s2) = vm_used (aux s1)"
    using s2 n(1) p(1,3) m(1) w wn
    by (cases v; cases w; cases "vm_name v"; cases "vm_type v = VMA_TYPE_FILE"; cases "inode v = 0")
      (auto simp: defs iv_def)
  then show ?thesis using m s2 by auto
qed

lemma clear_node_sub_used: "clear_node p (sub_used n s) = map_option (sub_used n) (clear_node p s)"
  by (simp add: clear_node_def upd_node_def node_at_def sub_used_def split: option.split)

lemma areas_dest:
  assumes "areas s (us @ p # ws)"
  shows "p \<notin> set us" "p \<notin> set ws" "ok p" "nodes s p \<noteq> None" "vmas (aux s) p = Some (iv s p)" "proper (iv s p)"
    "\<forall>q \<in> set us. below (iv s q) (iv s p)" "\<forall>q \<in> set ws. below (iv s p) (iv s q)"
    "\<forall>q \<in> set us. \<forall>r \<in> set ws. below (iv s q) (iv s r)"
  using assms holds_tree_distinct [of s "us @ p # ws"] holds_tree_nonnull [of s "us @ p # ws" p]
  by (auto simp: areas_def iv_def sorted_wrt_append)

text \<open>The middle part of \<open>vma_split\<close>: the old area leaves the tree and comes back with a new end.\<close>

lemma resize_law:
  assumes s: "areas s (us @ p # ws)" and v: "vm_start (iv s p) < addr" "addr \<le> vm_end (iv s p)"
  shows "\<exists>s1 s2 s3 s4. rb_erase p s = Some s1 \<and> clear_node p (sub_used d s1) = Some s2 \<and>
    upd_vma p (\<lambda>v. v\<lparr>vm_end := addr\<rparr>) s2 = Some s3 \<and> vma_insert p s3 = Some (0, s4) \<and>
    areas s4 (us @ p # ws) \<and> vmas (aux s4) = (vmas (aux s))(p \<mapsto> (iv s p)\<lparr>vm_end := addr\<rparr>) \<and>
    vm_used (aux s4) = vm_used (aux s) - d + vma_len ((iv s p)\<lparr>vm_end := addr\<rparr>) \<and>
    (\<forall>q. q \<notin> set (us @ p # ws) \<longrightarrow> nodes s4 q = nodes s q)"
proof -
  note p = areas_dest [OF s]
  let ?v = "(iv s p)\<lparr>vm_end := addr\<rparr>"
  obtain s1 s2 where s2: "rb_erase p s = Some s1" "clear_node p s1 = Some s2" "areas s2 (us @ ws)"
    "aux s2 = aux s" "dom (nodes s2) = dom (nodes s)" "\<forall>q. q \<notin> set (us @ p # ws) \<longrightarrow> nodes s2 q = nodes s q"
    using unlink_law [OF s] by blast
  define s3 where "s3 = sub_used d s2\<lparr>aux := (aux (sub_used d s2))\<lparr>vmas := (vmas (aux s))(p \<mapsto> ?v)\<rparr>\<rparr>"
  have p0: "p \<noteq> 0" using p(3) by (simp add: ok_def)
  have u: "upd_vma p (\<lambda>v. v\<lparr>vm_end := addr\<rparr>) (sub_used d s2) = Some s3"
    using p(5) p0 s2(4) by (simp add: upd_vma_def get_vma_def s3_def)
  have a3: "areas s3 (us @ ws)"
    using p(1,2) s2(4) by (intro areas_cong(1) [OF s2(3)]) (auto simp: s3_def)
  have iv3: "iv s3 q = iv s q" if "q \<in> set (us @ ws)" for q using that p(1,2) by (auto simp: iv_def s3_def)
  have "proper ?v" "\<forall>q \<in> set us. below (iv s3 q) ?v" "\<forall>q \<in> set ws. below ?v (iv s3 q)"
    using p(7,8) v iv3 by (auto simp: proper_def below_def)
  moreover have "get_vma s3 p = Some ?v" "nodes s3 p \<noteq> None" "p \<notin> set (us @ ws)"
    using p0 p(1,2,4) s2(5) by (auto simp: get_vma_def s3_def)
  ultimately obtain s4 where "vma_insert p s3 = Some (0, s4)" "areas s4 (us @ p # ws)"
    "aux s4 = (aux s3)\<lparr>vm_used := vm_used (aux s3) + vma_len ?v\<rparr>"
    "\<forall>q. q \<notin> set (us @ p # ws) \<longrightarrow> nodes s4 q = nodes s3 q"
    using vma_insert_at [OF a3, of p ?v] p(3) by blast
  then show ?thesis using s2 u clear_node_sub_used [of p d s1] by (auto simp: s3_def)
qed

lemma vma_split_law:
  assumes s: "areas s (us @ p # ws)" and a: "vm_start (iv s p) < addr" "addr < vm_end (iv s p)" and f: "fresh env s"
  shows "\<exists>s' nm. vma_split env p addr s = Some (0, s') \<and> areas s' (us @ p # malloc env s # ws) \<and>
    map (iv s') (us @ p # malloc env s # ws) =
      map (iv s) us @ split_low addr (iv s p) # split_high addr nm (iv s p) # map (iv s) ws \<and>
    vm_used (aux s') = vm_used (aux s) - (vm_end (iv s p) - vm_start (iv s p)) +
      vma_len (split_low addr (iv s p)) + vma_len (split_high addr nm (iv s p))"
proof -
  note p = areas_dest [OF s]
  let ?v = "iv s p" and ?L = "us @ p # ws"
  have gv: "get_vma s p = Some ?v" "p \<noteq> 0" using p(3,5) by (auto simp: get_vma_def ok_def)
  obtain n s1 where al: "vma_alloc env s = (n, s1)" by (cases "vma_alloc env s")
  have n: "n = malloc env s" "ok n" "nodes s n = None" "vmas (aux s) n = None" "n \<noteq> 0"
    "nodes s1 n \<noteq> None" "\<forall>q. q \<noteq> n \<longrightarrow> nodes s1 q = nodes s q"
    using f al by (auto simp: fresh_def ok_def vma_alloc_def Let_def split: if_splits)
  have nL: "n \<notin> set ?L" using s n(4) unfolding areas_def by metis
  obtain s2 nm where s2: "vma_split_fields env p n ?v addr s1 = Some s2" "nodes s2 = nodes s1" "root s2 = root s"
    "vm_used (aux s2) = vm_used (aux s)"
    "vmas (aux s2) = (vmas (aux s))(n \<mapsto> split_high addr nm ?v, p \<mapsto> (split_low addr ?v)\<lparr>vm_end := vm_end ?v\<rparr>)"
    using split_fields_law [OF gv(1) f al] by blast
  have iv2: "iv s2 p = (split_low addr ?v)\<lparr>vm_end := vm_end ?v\<rparr>" "q \<in> set ?L \<Longrightarrow> q \<noteq> p \<Longrightarrow> iv s2 q = iv s q" for q
    using s2(5) nL by (auto simp: iv_def)
  have "vmas (aux s2) q \<noteq> None \<and> vm_start (iv s2 q) = vm_start (iv s q) \<and> vm_end (iv s2 q) = vm_end (iv s q)"
    if "q \<in> set ?L" for q using that iv2 s2(5) s nL by (cases "q = p") (auto simp: areas_def)
  moreover have "nodes s2 q = nodes s q" if "q \<in> set ?L" for q using that nL n(7) s2(2) by metis
  ultimately have a2: "areas s2 ?L" using s2(3) by (rule areas_bounds [OF s, rotated -1])
  have low: "(iv s2 p)\<lparr>vm_end := addr\<rparr> = split_low addr ?v" using iv2 by (simp add: split_low_def)
  have b2: "vm_start (iv s2 p) < addr" "addr \<le> vm_end (iv s2 p)" using a iv2(1) by simp_all
  obtain s3 s4 s5 s6 where r: "rb_erase p s2 = Some s3" "clear_node p (sub_used (vm_end ?v - vm_start ?v) s3) = Some s4"
    "upd_vma p (\<lambda>v. v\<lparr>vm_end := addr\<rparr>) s4 = Some s5" "vma_insert p s5 = Some (0, s6)" "areas s6 ?L"
    "vmas (aux s6) = (vmas (aux s2))(p \<mapsto> split_low addr ?v)"
    "vm_used (aux s6) = vm_used (aux s) - (vm_end ?v - vm_start ?v) + vma_len (split_low addr ?v)"
    "\<forall>q. q \<notin> set ?L \<longrightarrow> nodes s6 q = nodes s2 q"
    using resize_law [OF a2 b2, of "vm_end ?v - vm_start ?v"] unfolding low s2(4) by blast
  have v6: "vmas (aux s6) = (vmas (aux s))(n \<mapsto> split_high addr nm ?v, p \<mapsto> split_low addr ?v)"
    using r(6) s2(5) by simp
  have iv6: "iv s6 p = split_low addr ?v" "iv s6 n = split_high addr nm ?v"
    "q \<in> set (us @ ws) \<Longrightarrow> iv s6 q = iv s q" for q
    using v6 nL p(1,2) by (auto simp: iv_def)
  have "get_vma s6 n = Some (split_high addr nm ?v)" "proper (split_high addr nm ?v)" "nodes s6 n \<noteq> None"
    using v6 n(5,6) nL a(2) r(8) s2(2) by (auto simp: get_vma_def proper_def)
  moreover have "\<forall>q \<in> set (us @ [p]). below (iv s6 q) (split_high addr nm ?v)"
    "\<forall>q \<in> set ws. below (split_high addr nm ?v) (iv s6 q)"
    using p(7,8) a iv6 by (fastforce simp: below_def)+
  ultimately obtain s7 where s7: "vma_insert n s6 = Some (0, s7)" "areas s7 ((us @ [p]) @ n # ws)"
    "aux s7 = (aux s6)\<lparr>vm_used := vm_used (aux s6) + vma_len (split_high addr nm ?v)\<rparr>"
    using vma_insert_at [of s6 "us @ [p]" ws n] r(5) n(2) nL by auto
  have "iv s7 = iv s6" using s7(3) by (simp add: iv_def fun_eq_iff)
  moreover have "vma_split env p addr s = Some (0, s7)"
    using gv a al n(5) s2(1) r(1-4) s7(1) by (simp add: vma_split_def not_le)
  ultimately show ?thesis using s7 r(7) iv6 n(1) by (intro exI [of _ s7] exI [of _ nm]) auto
qed

subsection \<open>The address space\<close>

text \<open>
  What the areas say about an address: its access flags, its kind and backing object, and for a file
  mapping the offset in the file and whether the address is inside the file's data.  The position in a
  shared memory object is not part of it; \<open>backing\<close> below adds the page that a fault finds.
\<close>

type_synonym page_info = "u64 \<times> vma_type \<times> ptr \<times> ptr \<times> u64 \<times> (u64 \<times> bool) option"

definition info :: "vma \<Rightarrow> u64 \<Rightarrow> page_info" where
  "info v a = (vm_flags v, vm_type v, inode v, shm v, vm_file_flags v,
     if vm_type v = VMA_TYPE_FILE then Some (vm_offset v + (a - vm_start v), a - vm_start v < vm_file_len v) else None)"

definition space :: "vma list \<Rightarrow> u64 \<Rightarrow> page_info option" where
  "space A a = map_option (\<lambda>v. info v a) (find (covers a) A)"

lemma find_append: "find P (xs @ ys) = (case find P xs of None \<Rightarrow> find P ys | Some x \<Rightarrow> Some x)"
  by (induction xs) auto

lemma space_append: "space (A @ B) a = (case space A a of None \<Rightarrow> space B a | Some i \<Rightarrow> Some i)"
  by (simp add: space_def find_append split: option.split)

lemma space_Nil [simp]: "space [] a = None"
  by (simp add: space_def)

lemma space_Cons: "space (v # A) a = (if covers a v then Some (info v a) else space A a)"
  by (simp add: space_def)

lemma space_None: "space A a = None \<longleftrightarrow> (\<forall>v \<in> set A. \<not> covers a v)"
  by (auto simp: space_def find_None_iff)

text \<open>The backing of an address: with the page of a shared memory object that a fault maps.\<close>

definition page_of :: "(ptr \<Rightarrow> shm_t) \<Rightarrow> vma \<Rightarrow> u64 \<Rightarrow> page_info \<times> ptr option option" where
  "page_of objs v a = (info v a, if vm_type v = VMA_TYPE_SHM then Some (shm_fault_page objs v a) else None)"

definition backing :: "(ptr \<Rightarrow> shm_t) \<Rightarrow> vma list \<Rightarrow> u64 \<Rightarrow> (page_info \<times> ptr option option) option" where
  "backing objs A a = map_option (\<lambda>v. page_of objs v a) (find (covers a) A)"

lemma backing_append: "backing objs (A @ B) a = (case backing objs A a of None \<Rightarrow> backing objs B a | Some i \<Rightarrow> Some i)"
  by (simp add: backing_def find_append split: option.split)

lemma backing_Cons: "backing objs (v # A) a = (if covers a v then Some (page_of objs v a) else backing objs A a)"
  by (simp add: backing_def)

lemma backing_area:
  assumes "areas s L" "p \<in> set L" "covers a (iv s p)"
  shows "backing objs (map (iv s) L) a = Some (page_of objs (iv s p) a)"
proof -
  obtain q where q: "find (\<lambda>q. covers a (iv s q)) L = Some q"
    using assms(2,3) by (cases "find (\<lambda>q. covers a (iv s q)) L") (auto simp: find_None_iff)
  then have "q = p" using covers_unique [OF assms(1)] assms(2,3) by (auto simp: find_Some_iff)
  moreover have "find (covers a) (map (iv s) L) = map_option (iv s) (find (\<lambda>q. covers a (iv s q)) L)" by (induction L) auto
  ultimately show ?thesis using q by (simp add: backing_def)
qed

lemma word_diff_less:
  fixes a :: u64
  assumes "s \<le> m" "m \<le> a"
  shows "a - m < c - min c (m - s) \<longleftrightarrow> a - s < c"
proof -
  have "unat (a - m) = unat a - unat m" "unat (a - s) = unat a - unat s" "unat (m - s) = unat m - unat s"
    using assms by (simp_all add: unat_sub)
  moreover have "unat (c - min c (m - s)) = unat c - min (unat c) (unat m - unat s)"
    using calculation(3) by (simp add: unat_sub min_def word_le_nat_alt)
  ultimately show ?thesis using assms unfolding word_less_nat_alt word_le_nat_alt by (auto simp: min_def)
qed

lemma info_split:
  assumes "vm_start v < addr" "addr < vm_end v"
  shows "covers a (split_low addr v) \<Longrightarrow> info (split_low addr v) a = info v a"
    "covers a (split_high addr nm v) \<Longrightarrow> info (split_high addr nm v) a = info v a"
proof -
  assume "covers a (split_low addr v)"
  then have "a - vm_start v < addr - vm_start v"
    by (auto simp: covers_def word_less_nat_alt word_le_nat_alt unat_sub)
  then show "info (split_low addr v) a = info v a" by (auto simp: info_def split_low_def)
next
  assume "covers a (split_high addr nm v)"
  then have "a - addr < vm_file_len v - min (vm_file_len v) (addr - vm_start v) \<longleftrightarrow> a - vm_start v < vm_file_len v"
    using assms(1) word_diff_less [of "vm_start v" addr a] by (simp add: covers_def)
  then show "info (split_high addr nm v) a = info v a" by (simp add: info_def split_high_def)
qed

lemma space_split:
  assumes "vm_start v < addr" "addr < vm_end v"
  shows "space (A @ split_low addr v # split_high addr nm v # B) a = space (A @ v # B) a"
proof -
  have "covers a v \<longleftrightarrow> covers a (split_low addr v) \<or> covers a (split_high addr nm v)"
    using assms by (auto simp: covers_def)
  then show ?thesis using info_split [OF assms, of a] by (auto simp: space_append space_Cons split: option.split)
qed

text \<open>
  Splitting leaves the backing of every address alone, except for the upper part of a shared memory area: there the page is
  found as if the object was attached at the address of the split.
\<close>

lemma split_type [simp]: "vm_type (split_low addr v) = vm_type v" "vm_type (split_high addr nm v) = vm_type v"
  by (simp_all add: split_low_def split_high_def)

lemma page_split:
  assumes "vm_start v < addr" "addr < vm_end v"
  shows "covers a (split_low addr v) \<Longrightarrow> page_of objs (split_low addr v) a = page_of objs v a"
    "covers a (split_high addr nm v) \<Longrightarrow> page_of objs (split_high addr nm v) a =
      (info v a, if vm_type v = VMA_TYPE_SHM then Some (shm_fault_page objs (v\<lparr>vm_start := addr\<rparr>) a) else None)"
proof -
  assume c: "covers a (split_low addr v)"
  have "PADDING_DOWN a PAGE_SIZE \<le> a" by (simp add: PADDING_DOWN_def word_and_le2)
  then have "PADDING_DOWN a PAGE_SIZE < addr" using c by (auto simp: covers_def)
  then have "shm_fault_page objs (split_low addr v) a = shm_fault_page objs v a"
    using assms(2) by (auto simp: shm_fault_page_def split_low_def Let_def)
  then show "page_of objs (split_low addr v) a = page_of objs v a"
    using info_split(1) [OF assms c] by (simp add: page_of_def)
next
  assume c: "covers a (split_high addr nm v)"
  have "shm_fault_page objs (split_high addr nm v) a = shm_fault_page objs (v\<lparr>vm_start := addr\<rparr>) a"
    by (simp add: shm_fault_page_def split_high_def Let_def)
  then show "page_of objs (split_high addr nm v) a =
      (info v a, if vm_type v = VMA_TYPE_SHM then Some (shm_fault_page objs (v\<lparr>vm_start := addr\<rparr>) a) else None)"
    using info_split(2) [OF assms c] by (simp add: page_of_def)
qed

lemma backing_split:
  assumes "vm_start v < addr" "addr < vm_end v" "\<not> (vm_type v = VMA_TYPE_SHM \<and> addr \<le> a \<and> a < vm_end v)"
  shows "backing objs (A @ split_low addr v # split_high addr nm v # B) a = backing objs (A @ v # B) a"
proof -
  have c: "covers a v \<longleftrightarrow> covers a (split_low addr v) \<or> covers a (split_high addr nm v)"
    using assms by (auto simp: covers_def)
  have "covers a (split_high addr nm v) \<Longrightarrow> vm_type v \<noteq> VMA_TYPE_SHM" using assms(3) by (auto simp: covers_def)
  then have "covers a (split_high addr nm v) \<Longrightarrow> page_of objs (split_high addr nm v) a = page_of objs v a"
    using page_split(2) [OF assms(1,2), of a nm] by (simp add: page_of_def)
  then show ?thesis using c page_split(1) [OF assms(1,2), of a] by (auto simp: backing_append backing_Cons split: option.split)
qed

lemma space_remove:
  assumes "sorted_wrt below (A @ v # B)" "proper v" "\<forall>w \<in> set (A @ B). proper w"
  shows "space (A @ B) a = (if covers a v then None else space (A @ v # B) a)"
proof (cases "covers a v")
  case True
  then have "\<not> covers a w" if "w \<in> set (A @ B)" for w
    using assms that by (fastforce simp: sorted_wrt_append covers_def below_def)
  then show ?thesis using True space_None [of "A @ B" a] by simp
qed (simp add: space_append space_Cons split: option.split)

lemma vma_find_law:
  assumes "areas s L"
  shows "vma_find s a = Some (case find (\<lambda>p. covers a (iv s p)) L of None \<Rightarrow> 0 | Some p \<Rightarrow> p)"
proof -
  obtain t where t: "rep s Top t" "inorder t = L" using assms unfolding areas_def holds_tree_def by blast
  obtain p where p: "vma_find s a = Some p"
    "if p = 0 then \<forall>q \<in> set L. \<not> covers a (iv s q) else p \<in> set L \<and> covers a (iv s p)"
    using find_loop [OF t(1)] t areas_sub [OF assms] by (fastforce simp: vma_find_def rep_def)
  show ?thesis
  proof (cases "find (\<lambda>p. covers a (iv s p)) L")
    case None
    then have "\<forall>q \<in> set L. \<not> covers a (iv s q)" by (simp add: find_None_iff)
    then show ?thesis using p None by (auto split: if_splits)
  next
    case (Some q)
    then have "q \<in> set L" "covers a (iv s q)" by (auto simp: find_Some_iff)
    then show ?thesis using p Some covers_unique [OF assms] by (auto split: if_splits)
  qed
qed

lemma vma_free_law:
  assumes "get_vma s p = Some v"
  shows "\<exists>s'. vma_free p s = Some s' \<and> nodes s' = (nodes s)(p := None) \<and> root s' = root s \<and>
    vmas (aux s') = (vmas (aux s))(p := None) \<and> vm_used (aux s') = vm_used (aux s) \<and>
    initialized (aux s') = initialized (aux s)"
  using assms by (auto simp: vma_free_def call_vfs_def get_vma_def split: if_splits)

subsection \<open>Unmapping\<close>

text \<open>The steps an area needs before it is out of the range: at most two splits and a removal.\<close>

definition weight :: "u64 \<Rightarrow> u64 \<Rightarrow> vma \<Rightarrow> nat" where
  "weight start fin v =
     (if meets start fin v then 1 + of_bool (vm_start v < start) + of_bool (fin < vm_end v) else 0)"

definition cuts :: "u64 \<Rightarrow> vma \<Rightarrow> bool" where
  "cuts a v \<longleftrightarrow> vm_start v < a \<and> a < vm_end v"

abbreviation weights :: "u64 \<Rightarrow> u64 \<Rightarrow> vma list \<Rightarrow> nat" where
  "weights start fin A \<equiv> sum_list (map (weight start fin) A)"

abbreviation lens :: "vma list \<Rightarrow> u64" where
  "lens A \<equiv> sum_list (map vma_len A)"

definition no_stack :: "vma list \<Rightarrow> bool" where
  "no_stack A \<longleftrightarrow> (\<forall>v \<in> set A. vm_flags v AND VMA_STACK = 0)"

lemma weight_split:
  assumes "cuts addr v" "meets start fin v" "start < fin" "addr = start \<or> addr = fin \<and> start \<le> vm_start v"
  shows "weight start fin (split_low addr v) + weight start fin (split_high addr nm v) < weight start fin v"
  using assms by (auto simp: weight_def meets_def cuts_def)

lemma split_flags [simp]:
  "vm_flags (split_low a v) = vm_flags v" "vm_flags (split_high a nm v) = vm_flags v"
  by (simp_all add: split_low_def split_high_def)

lemma split_lens:
  "vm_flags v AND VMA_STACK = 0 \<Longrightarrow> vma_len (split_low a v) + vma_len (split_high a nm v) = vm_end v - vm_start v"
  by (simp add: vma_len_def)

text \<open>What a run of \<open>vma_unmap_range\<close> from the areas \<open>A\<close> to the areas \<open>B\<close> may do.\<close>

definition unmapped :: "u64 \<Rightarrow> u64 \<Rightarrow> int \<Rightarrow> vma list \<Rightarrow> u64 \<Rightarrow> vma list \<Rightarrow> u64 \<Rightarrow> bool" where
  "unmapped start fin r A used B used' \<longleftrightarrow>
     (\<forall>a. \<not> (start \<le> a \<and> a < fin) \<longrightarrow> space B a = space A a) \<and>
     (\<forall>a. space B a = None \<or> space B a = space A a) \<and>
     (r = 0 \<longrightarrow> (\<forall>v \<in> set B. \<not> meets start fin v)) \<and> (r = 0 \<or> r = - 1) \<and>
     ((\<forall>v \<in> set A. \<not> cuts start v \<and> \<not> cuts fin v) \<longrightarrow> r = 0) \<and>
     (no_stack A \<longrightarrow> no_stack B \<and> used' - lens B = used - lens A)"

lemma unmapped_step:
  assumes r: "unmapped start fin r A1 used1 B used'"
    and s: "\<And>a. \<not> (start \<le> a \<and> a < fin) \<Longrightarrow> space A1 a = space A a"
      "\<And>a. space A1 a = None \<or> space A1 a = space A a"
    and u: "no_stack A \<Longrightarrow> no_stack A1 \<and> used1 - lens A1 = used - lens A"
    and c: "\<forall>v \<in> set A. \<not> cuts start v \<and> \<not> cuts fin v \<Longrightarrow> \<forall>v \<in> set A1. \<not> cuts start v \<and> \<not> cuts fin v"
  shows "unmapped start fin r A used B used'"
proof -
  have "space B a = None \<or> space B a = space A a" for a using r s(2) [of a] unfolding unmapped_def by metis
  moreover have "\<not> (start \<le> a \<and> a < fin) \<Longrightarrow> space B a = space A a" for a
    using r s(1) [of a] unfolding unmapped_def by metis
  moreover have "no_stack A \<Longrightarrow> no_stack B \<and> used' - lens B = used - lens A" using r u unfolding unmapped_def by auto
  ultimately show ?thesis using r c unfolding unmapped_def by blast
qed

lemma unmapped_split:
  assumes "unmapped start fin r (U @ split_low addr v # split_high addr nm v # W)
      (used - (vm_end v - vm_start v) + vma_len (split_low addr v) + vma_len (split_high addr nm v)) B used'"
      (is "unmapped _ _ _ ?A1 ?used1 _ _")
    "cuts addr v" "addr = start \<or> addr = fin"
  shows "unmapped start fin r (U @ v # W) used B used'" (is "unmapped _ _ _ ?A _ _ _")
proof -
  have s: "space ?A1 = space ?A" using space_split [of v addr U nm W] assms(2) by (auto simp: cuts_def)
  have n: "no_stack ?A1 = no_stack ?A" by (auto simp: no_stack_def)
  have "?used1 - lens ?A1 = used - lens ?A" if "no_stack ?A"
  proof -
    have "vm_flags v AND VMA_STACK = 0" using that by (simp add: no_stack_def)
    then have "vma_len v = vm_end v - vm_start v" by (simp add: vma_len_def)
    then show ?thesis by simp
  qed
  then show ?thesis using assms(2,3) s n by (intro unmapped_step [OF assms(1)]) auto
qed

lemma unmapped_remove:
  assumes "unmapped start fin r (U @ W) (used - vma_len v) B used'" "sorted_wrt below (U @ v # W)"
    "\<forall>w \<in> set (U @ v # W). proper w" "start \<le> vm_start v" "vm_end v \<le> fin"
  shows "unmapped start fin r (U @ v # W) used B used'"
proof -
  have "space (U @ W) a = (if covers a v then None else space (U @ v # W) a)" for a
    using space_remove [OF assms(2)] assms(3) by simp
  moreover have "start \<le> a \<and> a < fin" if "covers a v" for a using that assms(4,5) by (auto simp: covers_def)
  moreover have "no_stack (U @ v # W) \<Longrightarrow> no_stack (U @ W)" by (auto simp: no_stack_def)
  ultimately show ?thesis by (intro unmapped_step [OF assms(1)]) auto
qed

definition sound_env :: "vma_env \<Rightarrow> bool" where
  "sound_env env \<longleftrightarrow> (\<forall>s. malloc env s = 0 \<or> fresh env s)"

lemma vma_split_fails:
  "get_vma s p = Some v \<Longrightarrow> malloc env s = 0 \<Longrightarrow> vma_split env p addr s = Some (- 1, s)"
  by (auto simp: vma_split_def vma_alloc_def Let_def get_vma_def split: if_splits)

lemma vma_find_intersection_law:
  assumes "areas s L" "start < fin"
  shows "\<exists>p. vma_find_intersection s start fin = Some p \<and>
    (if p = 0 then \<forall>v \<in> set (map (iv s) L). \<not> meets start fin v else p \<in> set L \<and> meets start fin (iv s p))"
proof -
  obtain t where t: "rep s Top t" "inorder t = L" using assms(1) unfolding areas_def holds_tree_def by blast
  then have "root s = rt t" by (simp add: rep_def)
  then show ?thesis using intersection_loop [OF t(1) _ assms(2)] t(2) areas_sub [OF assms(1)]
    by (auto simp: vma_find_intersection_def split: if_splits)
qed

definition unmaps :: "vma_env \<Rightarrow> u64 \<Rightarrow> u64 \<Rightarrow> vma_state \<Rightarrow> ptr list \<Rightarrow> bool" where
  "unmaps env start fin s L \<longleftrightarrow> (\<exists>r s' L'. vma_unmap_loop env start fin s = Some (r, s') \<and> areas s' L' \<and>
    unmapped start fin r (map (iv s) L) (vm_used (aux s)) (map (iv s') L') (vm_used (aux s')))"

lemma unmaps_split:
  assumes a: "areas s (us @ p # ws)" and m: "meets start fin (iv s p)" "start < fin" and env: "sound_env env"
    and d: "cuts addr (iv s p)" "addr = start \<or> addr = fin \<and> start \<le> vm_start (iv s p)"
    and eq: "vma_unmap_loop env start fin s = do { (r, s) \<leftarrow> vma_split env p addr s;
       if r \<noteq> 0 then Some (- 1, s) else vma_unmap_loop env start fin s }"
    and IH: "\<And>s' L'. areas s' L' \<Longrightarrow>
       weights start fin (map (iv s') L') < weights start fin (map (iv s) (us @ p # ws)) \<Longrightarrow> unmaps env start fin s' L'"
  shows "unmaps env start fin s (us @ p # ws)"
proof (cases "malloc env s = 0")
  case True
  then have "vma_unmap_loop env start fin s = Some (- 1, s)"
    using eq vma_split_fails [OF areas_vma [OF a]] by simp
  moreover have "unmapped start fin (- 1) (map (iv s) (us @ p # ws)) u (map (iv s) (us @ p # ws)) u" for u
    using d by (auto simp: unmapped_def)
  ultimately show ?thesis using a unfolding unmaps_def by blast
next
  case False
  let ?v = "iv s p"
  obtain s1 nm where s1: "vma_split env p addr s = Some (0, s1)" "areas s1 (us @ p # malloc env s # ws)"
    "map (iv s1) (us @ p # malloc env s # ws) = map (iv s) us @ split_low addr ?v # split_high addr nm ?v # map (iv s) ws"
    "vm_used (aux s1) = vm_used (aux s) - (vm_end ?v - vm_start ?v) + vma_len (split_low addr ?v) +
      vma_len (split_high addr nm ?v)"
    using vma_split_law [OF a, of addr env] d(1) env False unfolding cuts_def sound_env_def by blast
  have "weights start fin (map (iv s1) (us @ p # malloc env s # ws)) < weights start fin (map (iv s) (us @ p # ws))"
    unfolding s1(3) using weight_split [OF d(1) m d(2), of nm] by simp
  then obtain r s' L' where r: "vma_unmap_loop env start fin s1 = Some (r, s')" "areas s' L'"
    "unmapped start fin r (map (iv s) us @ split_low addr ?v # split_high addr nm ?v # map (iv s) ws)
       (vm_used (aux s1)) (map (iv s') L') (vm_used (aux s'))"
    using IH [OF s1(2)] unfolding unmaps_def s1(3) by blast
  then show ?thesis using unmapped_split [OF r(3) [unfolded s1(4)] d(1)] d(2) eq s1(1) unfolding unmaps_def by auto
qed

lemma unmaps_remove:
  assumes a: "areas s (us @ p # ws)" and m: "meets start fin (iv s p)"
    and d: "start \<le> vm_start (iv s p)" "vm_end (iv s p) \<le> fin"
    and eq: "vma_unmap_loop env start fin s = do { (_, s) \<leftarrow> vma_remove p s; s \<leftarrow> vma_free p s;
       vma_unmap_loop env start fin s }"
    and IH: "\<And>s' L'. areas s' L' \<Longrightarrow>
       weights start fin (map (iv s') L') < weights start fin (map (iv s) (us @ p # ws)) \<Longrightarrow> unmaps env start fin s' L'"
  shows "unmaps env start fin s (us @ p # ws)"
proof -
  note p = areas_dest [OF a]
  obtain s1 where s1: "vma_remove p s = Some (0, s1)" "areas s1 (us @ ws)"
    "aux s1 = (aux s)\<lparr>vm_used := vm_used (aux s) - vma_len (iv s p)\<rparr>"
    using vma_remove_law [OF a] by blast
  have "get_vma s1 p = Some (iv s p)" using p(3,5) s1(3) by (simp add: get_vma_def ok_def)
  then obtain s2 where s2: "vma_free p s1 = Some s2" "nodes s2 = (nodes s1)(p := None)" "root s2 = root s1"
    "vmas (aux s2) = (vmas (aux s1))(p := None)" "vm_used (aux s2) = vm_used (aux s1)"
    using vma_free_law by blast
  have a2: "areas s2 (us @ ws)" "map (iv s2) (us @ ws) = map (iv s1) (us @ ws)"
    using p(1,2) s2 by (intro areas_cong [OF s1(2)]; auto)+
  have iv1: "iv s1 = iv s" using s1(3) by (simp add: iv_def fun_eq_iff)
  have "weights start fin (map (iv s2) (us @ ws)) < weights start fin (map (iv s) (us @ p # ws))"
    unfolding a2(2) iv1 using m by (simp add: weight_def)
  then obtain r s' L' where r: "vma_unmap_loop env start fin s2 = Some (r, s')" "areas s' L'"
    "unmapped start fin r (map (iv s) us @ map (iv s) ws) (vm_used (aux s) - vma_len (iv s p))
       (map (iv s') L') (vm_used (aux s'))"
    using IH [OF a2(1)] s2(5) s1(3) unfolding unmaps_def a2(2) iv1 by auto
  have "unmapped start fin r (map (iv s) (us @ p # ws)) (vm_used (aux s)) (map (iv s') L') (vm_used (aux s'))"
    using unmapped_remove [OF r(3)] a d by (simp add: areas_def)
  then show ?thesis using r(1,2) eq s1(1) s2(1) unfolding unmaps_def by auto
qed

lemma vma_unmap_loop_law:
  assumes "areas s L" "start < fin" "sound_env env"
  shows "unmaps env start fin s L"
  using assms(1)
proof (induction "weights start fin (map (iv s) L)" arbitrary: s L rule: less_induct)
  case less
  obtain p where p: "vma_find_intersection s start fin = Some p"
    "if p = 0 then \<forall>v \<in> set (map (iv s) L). \<not> meets start fin v else p \<in> set L \<and> meets start fin (iv s p)"
    using vma_find_intersection_law [OF less.prems assms(2)] by blast
  show ?case
  proof (cases "p = 0")
    case True
    then have "vma_unmap_loop env start fin s = Some (0, s)" using p(1) by (simp add: vma_unmap_loop.simps)
    moreover have "unmapped start fin 0 (map (iv s) L) u (map (iv s) L) u" for u
      using p(2) True by (auto simp: unmapped_def)
    ultimately show ?thesis using less.prems unfolding unmaps_def by blast
  next
    case False
    then have pL: "p \<in> set L" "meets start fin (iv s p)" using p(2) by auto
    then obtain us ws where L: "L = us @ p # ws" by (meson split_list)
    have a: "areas s (us @ p # ws)" using less.prems L by simp
    note IH = less.hyps [unfolded L]
    note eq = vma_unmap_loop.simps [of env start fin s]
    have gv: "get_vma s p = Some (iv s p)" using areas_vma [OF less.prems pL(1)] .
    consider "vm_start (iv s p) < start" | "\<not> vm_start (iv s p) < start" "fin < vm_end (iv s p)" |
      "\<not> vm_start (iv s p) < start" "\<not> fin < vm_end (iv s p)" by blast
    then have "unmaps env start fin s (us @ p # ws)"
    proof cases
      case 1
      show ?thesis by (rule unmaps_split [OF a pL(2) assms(2,3), of start])
          (use 1 pL(2) False p(1) gv IH in \<open>auto simp: cuts_def meets_def eq\<close>)
    next
      case 2
      show ?thesis by (rule unmaps_split [OF a pL(2) assms(2,3), of fin])
          (use 2 pL(2) False p(1) gv IH in \<open>auto simp: cuts_def meets_def eq\<close>)
    next
      case 3
      show ?thesis by (rule unmaps_remove [OF a pL(2)])
          (use 3 False p(1) gv IH in \<open>auto simp: eq\<close>)
    qed
    then show ?thesis using L by simp
  qed
qed

subsection \<open>Merging\<close>

lemma prev_loop:
  assumes "rep s c t" "sub_areas s (inorder t)"
  shows "vma_prev_loop s st (rt t) best =
    Some (last (best # filter (\<lambda>p. vm_start (iv s p) < st) (inorder t)))"
  using assms
proof (induction t arbitrary: c best)
  case (Nd l x k r)
  have rl: "rep s (CL c x k r) l" and rr: "rep s (CR l x k c) r"
    using Nd.prems(1) by (simp_all add: rep_CL rep_CR)
  note f = rep_fields [OF Nd.prems(1)] and n = rep_node(2) [OF Nd.prems(1)]
  have x: "get_vma s x = Some (iv s x)" "sub_areas s (inorder l)" "sub_areas s (inorder r)"
    "proper (iv s x)" "\<forall>q \<in> set (inorder r). below (iv s x) (iv s q)"
    using Nd.prems(2) unfolding sub_areas_node by auto
  show ?case
  proof (cases "st \<le> vm_start (iv s x)")
    case True
    then have "filter (\<lambda>p. vm_start (iv s p) < st) (inorder r) = []"
      using x(4,5) by (auto simp: filter_empty_conv below_def proper_def)
    moreover have "\<not> vm_start (iv s x) < st" using True by simp
    ultimately show ?thesis using True Nd.IH(1) [OF rl x(2)] n f x(1) by (simp add: vma_prev_loop.simps [of s _ x])
  next
    case False
    then have "vm_start (iv s x) < st" by simp
    then show ?thesis using False Nd.IH(2) [OF rr x(3)] n f x(1) by (simp add: vma_prev_loop.simps [of s _ x])
  qed
qed (simp add: vma_prev_loop.simps)

lemma next_loop:
  assumes "rep s c t" "sub_areas s (inorder t)"
  shows "vma_next_loop s st (rt t) best =
    Some (hd (filter (\<lambda>p. st < vm_start (iv s p)) (inorder t) @ [best]))"
  using assms
proof (induction t arbitrary: c best)
  case (Nd l x k r)
  have rl: "rep s (CL c x k r) l" and rr: "rep s (CR l x k c) r"
    using Nd.prems(1) by (simp_all add: rep_CL rep_CR)
  note f = rep_fields [OF Nd.prems(1)] and n = rep_node(2) [OF Nd.prems(1)]
  have x: "get_vma s x = Some (iv s x)" "sub_areas s (inorder l)" "sub_areas s (inorder r)"
    "proper (iv s x)" "\<forall>q \<in> set (inorder l). below (iv s q) (iv s x)" "\<forall>q \<in> set (inorder l). proper (iv s q)"
    using Nd.prems(2) unfolding sub_areas_node by (auto simp: sub_areas_def)
  show ?case
  proof (cases "st < vm_start (iv s x)")
    case True
    then show ?thesis using Nd.IH(1) [OF rl x(2)] n f x(1) by (simp add: vma_next_loop.simps [of s _ x] hd_append)
  next
    case False
    then have "filter (\<lambda>p. st < vm_start (iv s p)) (inorder l) = []"
      using x(5,6) by (fastforce simp: filter_empty_conv below_def proper_def)
    then show ?thesis using False Nd.IH(2) [OF rr x(3)] n f x(1) by (simp add: vma_next_loop.simps [of s _ x])
  qed
qed (simp add: vma_next_loop.simps)

lemma below_start: "below v w \<Longrightarrow> proper v \<Longrightarrow> vm_start v < vm_start w"
  by (simp add: below_def proper_def)

lemma vma_neighbours:
  assumes "areas s (us @ p # ws)"
  shows "vma_prev s p = Some (last (0 # us))" "vma_next s p = Some (hd (ws @ [0]))"
proof -
  note p = areas_dest [OF assms]
  obtain t where t: "rep s Top t" "inorder t = us @ p # ws" using assms unfolding areas_def holds_tree_def by blast
  have rt: "root s = rt t" using t(1) by (simp add: rep_def)
  have gv: "get_vma s p = Some (iv s p)" using areas_vma [OF assms] by simp
  have pr: "\<forall>q \<in> set (us @ ws). proper (iv s q)" using assms by (auto simp: areas_def)
  have o: "\<forall>q \<in> set us. vm_start (iv s q) < vm_start (iv s p)" "\<forall>q \<in> set ws. vm_start (iv s p) < vm_start (iv s q)"
    using p(6-8) pr below_start by auto
  have "filter (\<lambda>q. vm_start (iv s q) < vm_start (iv s p)) us = us" "filter (\<lambda>q. vm_start (iv s q) < vm_start (iv s p)) ws = []"
    "filter (\<lambda>q. vm_start (iv s p) < vm_start (iv s q)) us = []" "filter (\<lambda>q. vm_start (iv s p) < vm_start (iv s q)) ws = ws"
    using o by (simp_all add: filter_id_conv filter_empty_conv, auto)
  then show "vma_prev s p = Some (last (0 # us))" "vma_next s p = Some (hd (ws @ [0]))"
    using prev_loop [OF t(1)] next_loop [OF t(1)] areas_sub [OF assms] t(2) rt gv
    by (simp_all add: vma_prev_def vma_next_def)
qed

definition merged :: "vma \<Rightarrow> vma \<Rightarrow> vma" where
  "merged v w = v\<lparr>vm_end := vm_end w,
     vm_file_len := (if vm_type v = VMA_TYPE_FILE then vm_file_len v + vm_file_len w else vm_file_len v),
     vm_name := (if vm_name v = None then vm_name w else vm_name v)\<rparr>"

lemma areas_sub_used [simp]: "areas (sub_used n s) L = areas s L"
  by (rule iffI; erule areas_cong(1); simp)

lemma iv_sub_used [simp]: "iv (sub_used n s) = iv s"
  by (simp add: iv_def fun_eq_iff)

lemma erase_areas:
  assumes "areas s (us @ p # ws)"
  shows "\<exists>s1. rb_erase p s = Some s1 \<and> areas s1 (us @ ws) \<and> aux s1 = aux s \<and> dom (nodes s1) = dom (nodes s)"
proof -
  have h: "holds_tree s (us @ p # ws)" using assms by (simp add: areas_def)
  obtain s1 where s1: "rb_erase p s = Some s1" "holds_tree s1 (us @ ws)" "frame None (set (us @ p # ws)) s s1"
    using rb_erase_law [OF h, of None] by (auto simp: rb_erase_def)
  moreover have "aux s1 = aux s" using s1(3) by (simp add: frame_def)
  moreover have "iv s1 = iv s" using calculation(4) by (simp add: iv_def fun_eq_iff)
  moreover have "dom (nodes s1) = dom (nodes s)" using s1(1) rb_erase_dom unfolding rb_erase_def by blast
  ultimately show ?thesis using assms by (auto simp: areas_def sorted_wrt_append)
qed

lemma merge_names:
  assumes "get_vma s p = Some v" "get_vma s q = Some w" "p \<noteq> q"
  shows "\<exists>s1 w'. (if vm_name v = None \<and> vm_name w \<noteq> None
      then do { s \<leftarrow> upd_vma p (\<lambda>v. v\<lparr>vm_name := vm_name w\<rparr>) s; upd_vma q (\<lambda>v. v\<lparr>vm_name := None\<rparr>) s }
      else Some s) = Some s1 \<and> nodes s1 = nodes s \<and> root s1 = root s \<and> vm_used (aux s1) = vm_used (aux s) \<and>
    vmas (aux s1) = (vmas (aux s))(p \<mapsto> v\<lparr>vm_name := if vm_name v = None then vm_name w else vm_name v\<rparr>, q \<mapsto> w') \<and>
    vm_start w' = vm_start w \<and> vm_end w' = vm_end w"
proof (cases "vm_name v = None \<and> vm_name w \<noteq> None")
  case True
  then show ?thesis using assms
    by (intro exI [of _ "s\<lparr>aux := (aux s)\<lparr>vmas := (vmas (aux s))(p \<mapsto> v\<lparr>vm_name := vm_name w\<rparr>, q \<mapsto> w\<lparr>vm_name := None\<rparr>)\<rparr>\<rparr>"]
        exI [of _ "w\<lparr>vm_name := None\<rparr>"]) (auto simp: upd_vma_def get_vma_def split: if_splits)
next
  case False
  then have "v\<lparr>vm_name := if vm_name v = None then vm_name w else vm_name v\<rparr> = v" by (cases v) auto
  moreover have "(vmas (aux s))(p \<mapsto> v, q \<mapsto> w) = vmas (aux s)"
    using assms by (auto simp: get_vma_def fun_eq_iff split: if_splits)
  ultimately show ?thesis using False by (intro exI [of _ s] exI [of _ w]) auto
qed

lemma merge_fields:
  assumes "get_vma s p = Some v"
  shows "\<exists>s1. upd_vma p (\<lambda>v. v\<lparr>vm_end := e\<rparr>) s = Some s1 \<and>
    (if c then upd_vma p (\<lambda>v. v\<lparr>vm_file_len := vm_file_len v + n\<rparr>) s1 else Some s1) =
      Some (s\<lparr>aux := (aux s)\<lparr>vmas := (vmas (aux s))(p \<mapsto>
        v\<lparr>vm_end := e, vm_file_len := if c then vm_file_len v + n else vm_file_len v\<rparr>)\<rparr>\<rparr>)"
  using assms by (cases v) (auto simp: upd_vma_def get_vma_def split: if_splits)

text \<open>The second half of a merge: the first area comes back with its new end, the second is freed.\<close>

lemma merge_tail:
  assumes a: "areas s (us @ ws)" and p: "get_vma s p = Some v" "ok p" "nodes s p \<noteq> None" "p \<notin> set (us @ ws)"
    and q: "get_vma s q = Some w" "q \<notin> set (us @ p # ws)"
    and m: "m = v\<lparr>vm_end := e, vm_file_len := if c then vm_file_len v + n else vm_file_len v\<rparr>" "proper m"
      "\<forall>r \<in> set us. below (iv s r) m" "\<forall>r \<in> set ws. below m (iv s r)"
  shows "\<exists>s1 s2 s3 s4. upd_vma p (\<lambda>v. v\<lparr>vm_end := e\<rparr>) s = Some s1 \<and>
    (if c then upd_vma p (\<lambda>v. v\<lparr>vm_file_len := vm_file_len v + n\<rparr>) s1 else Some s1) = Some s2 \<and>
    vma_insert p s2 = Some (0, s3) \<and> vma_free q s3 = Some s4 \<and> areas s4 (us @ p # ws) \<and>
    map (iv s4) (us @ p # ws) = map (iv s) us @ m # map (iv s) ws \<and> vm_used (aux s4) = vm_used (aux s) + vma_len m"
proof -
  define s2 where "s2 = s\<lparr>aux := (aux s)\<lparr>vmas := (vmas (aux s))(p \<mapsto> m)\<rparr>\<rparr>"
  have p0: "p \<noteq> 0" "q \<noteq> 0" using p(2) q(1) by (auto simp: ok_def get_vma_def)
  have b2: "iv s2 r = iv s r" if "r \<in> set (us @ ws)" for r using that p(4) by (auto simp: iv_def s2_def)
  have "areas s2 (us @ ws)" using p(4) by (intro areas_cong(1) [OF a]) (auto simp: s2_def)
  moreover have "\<forall>r \<in> set us. below (iv s2 r) m" "\<forall>r \<in> set ws. below m (iv s2 r)" using m(3,4) b2 by auto
  moreover have "get_vma s2 p = Some m" "nodes s2 p \<noteq> None" using p0 p(3) by (simp_all add: get_vma_def s2_def)
  ultimately obtain s3 where s3: "vma_insert p s2 = Some (0, s3)" "areas s3 (us @ p # ws)"
    "aux s3 = (aux s2)\<lparr>vm_used := vm_used (aux s2) + vma_len m\<rparr>"
    using vma_insert_at [of s2 us ws p m] p(2,4) m(2) by blast
  have "get_vma s3 q = Some w" using s3(3) p0 q by (auto simp: s2_def get_vma_def)
  then obtain s4 where s4: "vma_free q s3 = Some s4" "nodes s4 = (nodes s3)(q := None)" "root s4 = root s3"
    "vmas (aux s4) = (vmas (aux s3))(q := None)" "vm_used (aux s4) = vm_used (aux s3)" using vma_free_law by blast
  have a4: "areas s4 (us @ p # ws)" "map (iv s4) (us @ p # ws) = map (iv s3) (us @ p # ws)"
    using q(2) s4 by (intro areas_cong [OF s3(2)]; auto)+
  have "map (iv s3) (us @ p # ws) = map (iv s) us @ m # map (iv s) ws"
    using b2 s3(3) by (auto simp: iv_def s2_def)
  then show ?thesis using merge_fields [OF p(1), of e c n] s3 s4 a4 unfolding s2_def m(1) [symmetric] by auto
qed

lemma vma_merge_law:
  assumes a: "areas s (us @ p # q # ws)"
  shows "if vma_mergeable (iv s p) (iv s q)
    then \<exists>s'. vma_merge p q s = Some (0, s') \<and> areas s' (us @ p # ws) \<and>
      map (iv s') (us @ p # ws) = map (iv s) us @ merged (iv s p) (iv s q) # map (iv s) ws \<and>
      vm_used (aux s') = vm_used (aux s) - vma_len (iv s q) - vma_len (iv s p) + vma_len (merged (iv s p) (iv s q))
    else vma_merge p q s = Some (- 1, s)"
proof -
  let ?v = "iv s p" and ?w = "iv s q" and ?m = "merged (iv s p) (iv s q)"
  let ?v' = "?v\<lparr>vm_name := if vm_name ?v = None then vm_name ?w else vm_name ?v\<rparr>"
  note p = areas_dest [OF a]
  have q: "q \<notin> set (us @ [p])" "q \<notin> set ws" "ok q" "vmas (aux s) q = Some ?w" "proper ?w" "\<forall>r \<in> set ws. below ?w (iv s r)"
    using areas_dest [of s "us @ [p]" q ws] a by auto
  have gv: "get_vma s p = Some ?v" "get_vma s q = Some ?w" "p \<noteq> 0" "q \<noteq> 0" "p \<noteq> q"
    using p(3,5) q(1,3,4) by (auto simp: get_vma_def ok_def)
  obtain s1 w' where s1: "(if vm_name ?v = None \<and> vm_name ?w \<noteq> None
      then do { s \<leftarrow> upd_vma p (\<lambda>v. v\<lparr>vm_name := vm_name ?w\<rparr>) s; upd_vma q (\<lambda>v. v\<lparr>vm_name := None\<rparr>) s }
      else Some s) = Some s1" "nodes s1 = nodes s" "root s1 = root s" "vm_used (aux s1) = vm_used (aux s)"
    "vmas (aux s1) = (vmas (aux s))(p \<mapsto> ?v', q \<mapsto> w')" "vm_start w' = vm_start ?w" "vm_end w' = vm_end ?w"
    using merge_names [OF gv(1,2,5)] by blast
  have a1: "areas s1 (us @ p # q # ws)"
    by (rule areas_bounds [OF a]) (use s1 a in \<open>auto simp: areas_def iv_def\<close>)
  obtain s2 where s2: "rb_erase q (sub_used (vma_len ?w) s1) = Some s2" "areas s2 (us @ p # ws)"
    "aux s2 = aux (sub_used (vma_len ?w) s1)" "dom (nodes s2) = dom (nodes s)"
    using erase_areas [of "sub_used (vma_len ?w) s1" "us @ [p]" q ws] a1 s1(2) by auto
  obtain s3 s4 where s4: "rb_erase p (sub_used (vma_len ?v) s2) = Some s3" "clear_node p s3 = Some s4"
    "areas s4 (us @ ws)" "aux s4 = aux (sub_used (vma_len ?v) s2)" "dom (nodes s4) = dom (nodes s)"
    using unlink_law [of "sub_used (vma_len ?v) s2" us p ws] s2(2,4) by auto
  have v4: "vmas (aux s4) = (vmas (aux s))(p \<mapsto> ?v', q \<mapsto> w')"
    "vm_used (aux s4) = vm_used (aux s) - vma_len ?w - vma_len ?v" using s1(4,5) s2(3) s4(4) by simp_all
  have iv4: "iv s4 r = iv s r" if "r \<in> set (us @ ws)" for r using that p(1,2) q(1,2) v4(1) by (auto simp: iv_def)
  have m: "?m = ?v'\<lparr>vm_end := vm_end ?w, vm_file_len :=
      if vm_type ?v = VMA_TYPE_FILE then vm_file_len ?v' + vm_file_len ?w else vm_file_len ?v'\<rparr>"
    "vm_start ?m = vm_start ?v" "vm_end ?m = vm_end ?w" by (simp_all add: merged_def)
  show ?thesis
  proof (cases "vma_mergeable ?v ?w")
    case True
    then have "vm_end ?v = vm_start ?w" by (simp add: vma_mergeable_def)
    then have b: "proper ?m" "\<forall>r \<in> set us. below (iv s4 r) ?m" "\<forall>r \<in> set ws. below ?m (iv s4 r)"
      using p(6,7) q(5,6) m(2,3) iv4 by (auto simp: below_def proper_def)
    have g: "get_vma s4 p = Some ?v'" "get_vma s4 q = Some w'" "nodes s4 p \<noteq> None"
      "p \<notin> set (us @ ws)" "q \<notin> set (us @ p # ws)"
      using v4(1) gv(3-5) p(1,2,4) q(1,2) s4(5) by (auto simp: get_vma_def)
    have "map (iv s4) us = map (iv s) us" "map (iv s4) ws = map (iv s) ws" using iv4 by simp_all
    then obtain t1 t2 t3 t4 where "upd_vma p (\<lambda>v. v\<lparr>vm_end := vm_end ?w\<rparr>) s4 = Some t1"
      "(if vm_type ?v = VMA_TYPE_FILE then upd_vma p (\<lambda>v. v\<lparr>vm_file_len := vm_file_len v + vm_file_len ?w\<rparr>) t1
        else Some t1) = Some t2" "vma_insert p t2 = Some (0, t3)" "vma_free q t3 = Some t4" "areas t4 (us @ p # ws)"
      "map (iv t4) (us @ p # ws) = map (iv s) us @ ?m # map (iv s) ws" "vm_used (aux t4) = vm_used (aux s4) + vma_len ?m"
      using merge_tail [OF s4(3) g(1) p(3) g(3,4,2,5) m(1) b] by auto
    then show ?thesis using True gv s1(1) s2(1) s4(1,2) v4(2) by (simp add: vma_merge_def)
  qed (simp add: vma_merge_def gv)
qed

text \<open>A file area holds no more file data than it has addresses.\<close>

definition file_fits :: "vma \<Rightarrow> bool" where
  "file_fits v \<longleftrightarrow> (vm_type v = VMA_TYPE_FILE \<longrightarrow> vm_file_len v \<le> vm_end v - vm_start v)"

lemma merged_file_len:
  fixes l1 l2 s1 e1 e2 a :: u64
  assumes "l1 \<le> l1 + l2" "l1 + l2 \<le> e2 - s1" "e1 - s1 \<le> l1 \<or> l2 = 0" "l1 \<le> e1 - s1" "s1 < e1" "e1 < e2"
  shows "s1 \<le> a \<Longrightarrow> a < e1 \<Longrightarrow> a - s1 < l1 + l2 \<longleftrightarrow> a - s1 < l1"
    "e1 \<le> a \<Longrightarrow> a < e2 \<Longrightarrow> a - s1 < l1 + l2 \<longleftrightarrow> a - e1 < l2"
proof -
  have u: "unat (l1 + l2) = unat l1 + unat l2" using assms(1) by (simp add: unat_plus_simple)
  have e: "unat (e1 - s1) = unat e1 - unat s1" using assms(5) by (simp add: unat_sub)
  have l: "unat e1 - unat s1 \<le> unat l1 \<or> unat l2 = 0" "unat l1 \<le> unat e1 - unat s1"
    using assms(3,4) e by (auto simp: word_le_nat_alt)
  show "s1 \<le> a \<Longrightarrow> a < e1 \<Longrightarrow> a - s1 < l1 + l2 \<longleftrightarrow> a - s1 < l1"
    using l u by (auto simp: word_less_nat_alt word_le_nat_alt unat_sub)
  assume a: "e1 \<le> a" "a < e2"
  have "s1 \<le> a" using a assms(5) by simp
  then have "unat (a - s1) = unat a - unat s1" "unat (a - e1) = unat a - unat e1" using a by (simp_all add: unat_sub)
  then show "a - s1 < l1 + l2 \<longleftrightarrow> a - e1 < l2"
    using l u a assms(5) unfolding word_less_nat_alt word_le_nat_alt by auto
qed

lemma info_merged:
  assumes "vma_mergeable v w" "proper v" "proper w" "file_fits v"
  shows "covers a (merged v w) \<longleftrightarrow> covers a v \<or> covers a w"
    "covers a v \<Longrightarrow> info (merged v w) a = info v a" "covers a w \<Longrightarrow> info (merged v w) a = info w a"
proof -
  note m = assms(1) [unfolded vma_mergeable_def Let_def]
  show "covers a (merged v w) \<longleftrightarrow> covers a v \<or> covers a w"
    using m assms(2,3) by (auto simp: covers_def merged_def proper_def)
  have f: "vm_type v = VMA_TYPE_FILE \<Longrightarrow> vm_file_len v \<le> vm_file_len v + vm_file_len w"
    "vm_type v = VMA_TYPE_FILE \<Longrightarrow> vm_file_len v + vm_file_len w \<le> vm_end w - vm_start v"
    "vm_type v = VMA_TYPE_FILE \<Longrightarrow> vm_end v - vm_start v \<le> vm_file_len v \<or> vm_file_len w = 0"
    "vm_type v = VMA_TYPE_FILE \<Longrightarrow> vm_file_len v \<le> vm_end v - vm_start v" "vm_start v < vm_end v" "vm_end v < vm_end w"
    using m assms(2-4) by (auto simp: not_less not_le file_fits_def proper_def)
  show "covers a v \<Longrightarrow> info (merged v w) a = info v a"
    using merged_file_len(1) [OF f(1-4) f(5,6), of a] by (auto simp: info_def merged_def covers_def)
  have "vm_type v = VMA_TYPE_FILE \<Longrightarrow> vm_offset v + (a - vm_start v) = vm_offset w + (a - vm_start w)"
    using m by (auto simp: algebra_simps)
  then show "covers a w \<Longrightarrow> info (merged v w) a = info w a"
    using merged_file_len(2) [OF f(1-4) f(5,6), of a] m by (auto simp: info_def merged_def covers_def)
qed

lemma space_merged:
  assumes "vma_mergeable v w" "proper v" "proper w" "file_fits v"
  shows "space (A @ merged v w # B) a = space (A @ v # w # B) a"
  using info_merged [OF assms, of a] by (auto simp: space_append space_Cons split: option.split)

lemma backing_merged:
  assumes "vma_mergeable v w" "proper v" "proper w" "file_fits v" "\<not> (vm_type v = VMA_TYPE_SHM \<and> covers a (merged v w))"
  shows "backing objs (A @ merged v w # B) a = backing objs (A @ v # w # B) a"
proof -
  have "vm_type w = vm_type v" "vm_type (merged v w) = vm_type v" using assms(1) by (simp_all add: vma_mergeable_def merged_def)
  then have "covers a v \<Longrightarrow> page_of objs (merged v w) a = page_of objs v a" "covers a w \<Longrightarrow> page_of objs (merged v w) a = page_of objs w a"
    using info_merged [OF assms(1-4), of a] assms(5) by (auto simp: page_of_def)
  then show ?thesis using info_merged(1) [OF assms(1-4), of a] by (auto simp: backing_append backing_Cons split: option.split)
qed

lemma merged_len:
  assumes "vma_mergeable v w"
  shows "vma_len (merged v w) = vma_len v + vma_len w"
  using assms by (auto simp: vma_len_def merged_def vma_mergeable_def)

lemma merged_fits:
  assumes "vma_mergeable v w"
  shows "file_fits (merged v w)"
  using assms by (auto simp: file_fits_def merged_def vma_mergeable_def Let_def not_less)

definition joins :: "vma_state \<Rightarrow> ptr list \<Rightarrow> ptr \<Rightarrow> ptr list \<Rightarrow> bool" where
  "joins s us p ws \<longleftrightarrow> (\<exists>p' s' us' ws'. vma_try_merge_around p s = Some (p', s') \<and> areas s' (us' @ p' # ws') \<and>
     (\<forall>v \<in> set (map (iv s') (us' @ p' # ws')). file_fits v) \<and>
     space (map (iv s') (us' @ p' # ws')) = space (map (iv s) (us @ p # ws)) \<and> vm_used (aux s') = vm_used (aux s) \<and>
     vm_type (iv s' p') = vm_type (iv s p) \<and> (\<forall>a. covers a (iv s p) \<longrightarrow> covers a (iv s' p')) \<and>
     (\<forall>objs a. \<not> (vm_type (iv s p) = VMA_TYPE_SHM \<and> covers a (iv s' p')) \<longrightarrow>
       backing objs (map (iv s') (us' @ p' # ws')) a = backing objs (map (iv s) (us @ p # ws)) a) \<and>
     (us' \<noteq> [] \<longrightarrow> \<not> vma_mergeable (iv s' (last us')) (iv s' p')) \<and>
     (ws' \<noteq> [] \<longrightarrow> \<not> vma_mergeable (iv s' p') (iv s' (hd ws'))))"

lemma joins_step:
  assumes a: "areas s (us @ p # q # ws)" and f: "\<forall>v \<in> set (map (iv s) (us @ p # q # ws)). file_fits v"
    and m: "vma_mergeable (iv s p) (iv s q)" and x: "us' @ x # ws' = us @ p # q # ws" "x = p \<or> x = q"
    and eq: "vma_try_merge_around x s = do { (r, s) \<leftarrow> vma_merge p q s; vma_try_merge_around p s }"
    and IH: "\<And>s'. areas s' (us @ p # ws) \<Longrightarrow> \<forall>v \<in> set (map (iv s') (us @ p # ws)). file_fits v \<Longrightarrow> joins s' us p ws"
  shows "joins s us' x ws'"
proof -
  obtain s1 where s1: "vma_merge p q s = Some (0, s1)" "areas s1 (us @ p # ws)"
    "map (iv s1) (us @ p # ws) = map (iv s) us @ merged (iv s p) (iv s q) # map (iv s) ws"
    "vm_used (aux s1) = vm_used (aux s) - vma_len (iv s q) - vma_len (iv s p) + vma_len (merged (iv s p) (iv s q))"
    using vma_merge_law [OF a] m by auto
  have "\<forall>v \<in> set (map (iv s1) (us @ p # ws)). file_fits v"
    unfolding s1(3) using f merged_fits [OF m] by auto
  then have j: "joins s1 us p ws" by (rule IH [OF s1(2)])
  have "proper (iv s p)" "proper (iv s q)" using a by (auto simp: areas_def)
  note pr = this
  have sp: "space (map (iv s1) (us @ p # ws)) = space (map (iv s) (us' @ x # ws'))"
    unfolding s1(3) x(1) using space_merged [OF m pr] f by (auto simp: fun_eq_iff)
  have u: "vm_used (aux s1) = vm_used (aux s)" using s1(4) merged_len [OF m] by simp
  have p1: "iv s1 p = merged (iv s p) (iv s q)" using s1(3) by simp
  have ty: "vm_type (iv s1 p) = vm_type (iv s x)" using m x(2) unfolding p1 by (auto simp: merged_def vma_mergeable_def)
  have cv: "covers a (iv s x) \<Longrightarrow> covers a (iv s1 p)" for a
    using info_merged(1) [OF m pr, of a] f x(2) unfolding p1 by auto
  have bk: "backing objs (map (iv s1) (us @ p # ws)) a = backing objs (map (iv s) (us' @ x # ws')) a"
    if "\<not> (vm_type (iv s1 p) = VMA_TYPE_SHM \<and> covers a (iv s1 p))" for objs a
    unfolding s1(3) x(1) using backing_merged [OF m pr, of a] f that unfolding p1 by (auto simp: merged_def)
  obtain p' s' us2 ws2 where r: "vma_try_merge_around p s1 = Some (p', s')" "areas s' (us2 @ p' # ws2)"
    "\<forall>v \<in> set (map (iv s') (us2 @ p' # ws2)). file_fits v"
    "space (map (iv s') (us2 @ p' # ws2)) = space (map (iv s1) (us @ p # ws))" "vm_used (aux s') = vm_used (aux s1)"
    "vm_type (iv s' p') = vm_type (iv s1 p)" "\<forall>a. covers a (iv s1 p) \<longrightarrow> covers a (iv s' p')"
    "\<forall>objs a. \<not> (vm_type (iv s1 p) = VMA_TYPE_SHM \<and> covers a (iv s' p')) \<longrightarrow>
       backing objs (map (iv s') (us2 @ p' # ws2)) a = backing objs (map (iv s1) (us @ p # ws)) a"
    "us2 \<noteq> [] \<longrightarrow> \<not> vma_mergeable (iv s' (last us2)) (iv s' p')" "ws2 \<noteq> [] \<longrightarrow> \<not> vma_mergeable (iv s' p') (iv s' (hd ws2))"
    using j unfolding joins_def by blast
  have "\<forall>objs a. \<not> (vm_type (iv s x) = VMA_TYPE_SHM \<and> covers a (iv s' p')) \<longrightarrow>
       backing objs (map (iv s') (us2 @ p' # ws2)) a = backing objs (map (iv s) (us' @ x # ws')) a"
    using r(7,8) bk unfolding ty by metis
  moreover have "vma_try_merge_around x s = Some (p', s')" using eq s1(1) r(1) by simp
  moreover have "space (map (iv s') (us2 @ p' # ws2)) = space (map (iv s) (us' @ x # ws'))" "vm_used (aux s') = vm_used (aux s)"
    "vm_type (iv s' p') = vm_type (iv s x)" "\<forall>a. covers a (iv s x) \<longrightarrow> covers a (iv s' p')" using r(4-7) sp u ty cv by auto
  ultimately show ?thesis using r(2,3,9,10) unfolding joins_def by blast
qed

lemma try_merge_unfold:
  assumes a: "areas s (us @ p # ws)"
  shows "vma_try_merge_around p s =
    (if us \<noteq> [] \<and> vma_mergeable (iv s (last us)) (iv s p)
     then do { (r, s) \<leftarrow> vma_merge (last us) p s; vma_try_merge_around (last us) s }
     else if ws \<noteq> [] \<and> vma_mergeable (iv s p) (iv s (hd ws))
     then do { (r, s) \<leftarrow> vma_merge p (hd ws) s; vma_try_merge_around p s }
     else Some (p, s))"
proof -
  have gv: "get_vma s q = Some (iv s q)" "q \<noteq> 0" if "q \<in> set (us @ p # ws)" for q
    using areas_vma [OF a that] by (auto simp: get_vma_def split: if_splits)
  have pm: "if vma_mergeable (iv s q) (iv s p) then \<exists>s'. vma_merge q p s = Some (0, s') else vma_merge q p s = Some (- 1, s)"
    if "us = vs @ [q]" for vs q using vma_merge_law [of s vs q p ws] a that by (auto split: if_splits)
  have nm: "if vma_mergeable (iv s p) (iv s q) then \<exists>s'. vma_merge p q s = Some (0, s') else vma_merge p q s = Some (- 1, s)"
    if "ws = q # vs" for vs q using vma_merge_law [of s us p q vs] a that by (auto split: if_splits)
  have adj: "vma_mergeable v w \<Longrightarrow> vm_end v = vm_start w" for v w by (simp add: vma_mergeable_def)
  note unf = vma_try_merge_around.simps [of p s]
  show ?thesis
  proof (cases "us \<noteq> [] \<and> vma_mergeable (iv s (last us)) (iv s p)")
    case True
    then obtain vs q where us: "us = vs @ [q]" by (metis append_butlast_last_id)
    then show ?thesis using True pm [OF us] adj gv [of p] gv [of q] vma_neighbours [OF a] by (auto simp: unf)
  next
    case False
    then have u: "us = [] \<or> (\<exists>vs q. us = vs @ [q] \<and> vma_merge q p s = Some (- 1, s))"
      using pm by (cases us rule: rev_cases) auto
    have w: "ws = [] \<or> (\<exists>q vs. ws = q # vs \<and> (if vma_mergeable (iv s p) (iv s q)
        then \<exists>s'. vma_merge p q s = Some (0, s') else vma_merge p q s = Some (- 1, s)))"
      using nm by (cases ws) blast+
    show ?thesis using u w False adj gv vma_neighbours [OF a] by (auto simp: unf)
  qed
qed

lemma try_merge_law:
  assumes "areas s (us @ p # ws)" "\<forall>v \<in> set (map (iv s) (us @ p # ws)). file_fits v"
  shows "joins s us p ws"
  using assms
proof (induction "length us + length ws" arbitrary: s us p ws rule: less_induct)
  case less
  consider (before) vs q where "us = vs @ [q]" "vma_mergeable (iv s q) (iv s p)" |
    (after) q vs where "ws = q # vs" "vma_mergeable (iv s p) (iv s q)" "\<not> (us \<noteq> [] \<and> vma_mergeable (iv s (last us)) (iv s p))" |
    (stop) "\<not> (us \<noteq> [] \<and> vma_mergeable (iv s (last us)) (iv s p))" "\<not> (ws \<noteq> [] \<and> vma_mergeable (iv s p) (iv s (hd ws)))"
    by (metis append_butlast_last_id list.collapse)
  then show ?case
  proof cases
    case before
    show ?thesis
    proof (rule joins_step [OF _ _ before(2), of vs ws])
      show "joins s' vs q ws" if "areas s' (vs @ q # ws)" "\<forall>v \<in> set (map (iv s') (vs @ q # ws)). file_fits v" for s'
        using less.hyps [OF _ that] before(1) by simp
    qed (use less.prems before try_merge_unfold [OF less.prems(1)] in auto)
  next
    case after
    show ?thesis
    proof (rule joins_step [OF _ _ after(2), of us vs])
      show "joins s' us p vs" if "areas s' (us @ p # vs)" "\<forall>v \<in> set (map (iv s') (us @ p # vs)). file_fits v" for s'
        using less.hyps [OF _ that] after(1) by simp
    qed (use less.prems after try_merge_unfold [OF less.prems(1)] in auto)
  next
    case stop
    then have "vma_try_merge_around p s = Some (p, s)" using try_merge_unfold [OF less.prems(1)] by (simp only: if_False)
    then show ?thesis using less.prems stop unfolding joins_def by blast
  qed
qed

subsection \<open>The properties\<close>

text \<open>An example: one area from 0x1000 to 0x4000 at address 16, and an area that is not inserted yet at 32.\<close>

definition area :: "u64 \<Rightarrow> u64 \<Rightarrow> u64 \<Rightarrow> vma" where
  "area start fin flags = \<lparr>vm_start = start, vm_end = fin, vm_flags = flags, vm_type = VMA_TYPE_ANON, inode = 0, shm = 0,
     vm_offset = 0, vm_file_len = 0, vm_file_flags = 0, shm_id = - 1, vm_name = None\<rparr>"

definition demo :: vma_state where
  "demo = \<lparr>nodes = [16 \<mapsto> mk 0 Black 0 0, 32 \<mapsto> mk 0 Red 0 0], root = 16,
     aux = \<lparr>vmas = [16 \<mapsto> area 0x1000 0x4000 3, 32 \<mapsto> area 0x4000 0x5000 3], vm_used = 0x3000,
       initialized = True, vfs_calls = []\<rparr>\<rparr>"

definition demo_env :: vma_env where
  "demo_env = \<lparr>malloc = (\<lambda>s. if nodes s 64 = None \<and> vmas (aux s) 64 = None then 64 else 0), strdup = (\<lambda>s n. Some n)\<rparr>"

lemma demo_areas: "areas demo [16]"
proof -
  have "rep demo Top (Nd Lf 16 Black Lf)" by (simp add: rep_def demo_def ok_def)
  moreover have "rb_tree (Nd Lf 16 Black Lf)" by (auto simp: rb_tree_def intro: exI [of _ 1])
  ultimately have "holds_tree demo [16]" unfolding holds_tree_def by (intro exI [of _ "Nd Lf 16 Black Lf"]) simp
  then show ?thesis by (simp add: areas_def demo_def iv_def area_def proper_def)
qed

lemma demo_env_sound: "sound_env demo_env" "fresh demo_env demo"
  by (auto simp: sound_env_def fresh_def demo_env_def demo_def ok_def)

lemma find_insert:
  assumes "\<forall>q \<in> set (us @ ws). \<not> (P x \<and> P q)"
  shows "find P (us @ x # ws) = (if P x then Some x else find P (us @ ws))"
proof -
  have "find P us = None" if "P x" using assms that by (auto simp: find_None_iff)
  then show ?thesis by (auto simp: find_append split: option.split)
qed

lemma covers_meets: "covers a v \<Longrightarrow> covers a w \<Longrightarrow> meets (vm_start v) (vm_end v) w"
  by (auto simp: covers_def meets_def)

text \<open>Two adjacent attachments of one shared memory object of five pages.\<close>

definition shm_area :: "u64 \<Rightarrow> u64 \<Rightarrow> vma" where
  "shm_area start fin = (area start fin 3)\<lparr>vm_type := VMA_TYPE_SHM, shm := 0x7000\<rparr>"

definition demo_shm :: vma_state where
  "demo_shm = \<lparr>nodes = [16 \<mapsto> mk 0 Black 0 32, 32 \<mapsto> mk 16 Red 0 0], root = 16,
     aux = \<lparr>vmas = [16 \<mapsto> shm_area 0x1000 0x4000, 32 \<mapsto> shm_area 0x4000 0x6000], vm_used = 0x5000,
       initialized = True, vfs_calls = []\<rparr>\<rparr>"

definition demo_objs :: "ptr \<Rightarrow> shm_t" where
  "demo_objs p = \<lparr>shm_addr = 0x100000, shm_size = 0x5000\<rparr>"

lemma demo_shm_areas: "areas demo_shm [16, 32]"
proof -
  let ?T = "Nd Lf 16 Black (Nd Lf 32 Red Lf)"
  have "rep demo_shm Top ?T" by (simp add: rep_def demo_shm_def ok_def)
  moreover have "rb_tree ?T" by (auto simp: rb_tree_def intro: exI [of _ 1])
  ultimately have "holds_tree demo_shm [16, 32]" unfolding holds_tree_def by (intro exI [of _ ?T]) simp
  then show ?thesis by (simp add: areas_def demo_shm_def iv_def shm_area_def area_def proper_def below_def)
qed

lemma demo_shm_page: "map (\<lambda>v. shm_fault_page demo_objs v 0x3000) [shm_area 0x1000 0x4000, shm_area 0x2000 0x4000] = [Some 0x102000, Some 0x101000]"
  by code_simp

lemma demo_shm_merge:
  "map_option (\<lambda>(p, s). (p, vm_start (iv s p), vm_end (iv s p), shm_fault_page demo_objs (iv s p) 0x5000)) (vma_try_merge_around 16 demo_shm) =
     Some (16, 0x1000, 0x6000, Some 0x104000)"
  "map_option snd (backing demo_objs (map (iv demo_shm) [16, 32]) 0x5000) = Some (Some (Some 0x101000))"
  by code_simp+

text \<open>
  C31.  \<open>vma_insert\<close> keeps the areas of a process disjoint.  If the new area overlaps none of the others, it
  is inserted: the manager is a red-black tree in the order of the addresses again, a lookup
  (\<open>vma_find\<close>) of an address in the new area finds it and all other lookups are unchanged, and
  \<open>vm_used\<close> grows by its length, not counting stacks.  If it overlaps some area, -1 is returned and
  nothing changes.
\<close>

theorem vma_insert_disjoint:
  assumes "areas s L" "get_vma s x = Some new" "proper new" "ok x" "nodes s x \<noteq> None" "x \<notin> set L"
  shows "if \<exists>v \<in> set (map (iv s) L). meets (vm_start new) (vm_end new) v
    then vma_insert x s = Some (- 1, s)
    else \<exists>s' L'. vma_insert x s = Some (0, s') \<and> areas s' L' \<and> set L' = insert x (set L) \<and>
      (\<forall>a. vma_find s' a = (if covers a new then Some x else vma_find s a)) \<and>
      vm_used (aux s') = vm_used (aux s) + vma_len new"
proof (cases "gap new (map (iv s) L)")
  case True
  then obtain s' us ws where s': "vma_insert x s = Some (0, s')" "L = us @ ws" "areas s' (us @ x # ws)"
    "aux s' = (aux s)\<lparr>vm_used := vm_used (aux s) + vma_len new\<rparr>"
    using vma_insert_law [OF assms] by auto
  have iv: "iv s' = iv s" "iv s x = new"
    using s'(4) assms(2) by (auto simp: iv_def fun_eq_iff get_vma_def split: if_splits)
  have "\<forall>q \<in> set (us @ ws). \<not> (covers a (iv s x) \<and> covers a (iv s q))" for a
    using True s'(2) covers_meets [of a new] unfolding gap_def iv(2) by auto
  then have "vma_find s' a = (if covers a new then Some x else vma_find s a)" for a
    using vma_find_law [OF s'(3), of a] vma_find_law [OF assms(1), of a] s'(2) iv
      find_insert [of us ws "\<lambda>q. covers a (iv s q)" x] by simp
  then show ?thesis using True s' by (auto simp: gap_def intro!: exI [of _ "us @ x # ws"])
next
  case False
  then show ?thesis using vma_insert_law [OF assms] by (simp add: gap_def)
qed

theorem vma_insert_disjoint_witness:
  "\<exists>s' L'. vma_insert 32 demo = Some (0, s') \<and> areas s' L' \<and> set L' = {16, 32}"
  using vma_insert_disjoint [OF demo_areas, of 32 "area 0x4000 0x5000 3"]
  by (auto simp: demo_def get_vma_def iv_def area_def proper_def ok_def meets_def insert_commute)

text \<open>
  C32.  \<open>vma_split\<close> divides an area at an address inside it: the old area ends where the new one starts, and every
  address keeps its access flags, kind and object, for a file the offset and the end of the file data included.
  The page behind an address is kept too, except in the upper part of a shared memory area: a fault
  counts the position from the start of the area, which the split moves without compensation, so that the address
  gets the page it would have with the object attached at the address of the split.  The accounting is only right
  for areas that are not stacks: for a stack, which \<open>vma_len\<close> never counted, the length is subtracted from \<open>vm_used\<close>.
\<close>

theorem vma_split_keeps_space:
  assumes "areas s L" "p \<in> set L" "vm_start (iv s p) < addr" "addr < vm_end (iv s p)" "fresh env s"
  shows "\<exists>s' L'. vma_split env p addr s = Some (0, s') \<and> areas s' L' \<and> set L' = insert (malloc env s) (set L) \<and>
    space (map (iv s') L') = space (map (iv s) L) \<and>
    (\<forall>objs a. \<not> (vm_type (iv s p) = VMA_TYPE_SHM \<and> addr \<le> a \<and> a < vm_end (iv s p)) \<longrightarrow>
      backing objs (map (iv s') L') a = backing objs (map (iv s) L) a) \<and>
    (\<forall>objs a. vm_type (iv s p) = VMA_TYPE_SHM \<and> addr \<le> a \<and> a < vm_end (iv s p) \<longrightarrow>
      backing objs (map (iv s) L) a = Some (info (iv s p) a, Some (shm_fault_page objs (iv s p) a)) \<and>
      backing objs (map (iv s') L') a = Some (info (iv s p) a, Some (shm_fault_page objs ((iv s p)\<lparr>vm_start := addr\<rparr>) a))) \<and>
    vm_end (iv s' p) = addr \<and> vm_start (iv s' (malloc env s)) = addr \<and>
    vm_used (aux s') = vm_used (aux s) -
      (if vm_flags (iv s p) AND VMA_STACK = 0 then 0 else vm_end (iv s p) - vm_start (iv s p))"
proof -
  obtain us ws where L: "L = us @ p # ws" using assms(2) by (meson split_list)
  obtain s' nm where s': "vma_split env p addr s = Some (0, s')" "areas s' (us @ p # malloc env s # ws)"
    "map (iv s') (us @ p # malloc env s # ws) =
      map (iv s) us @ split_low addr (iv s p) # split_high addr nm (iv s p) # map (iv s) ws"
    "vm_used (aux s') = vm_used (aux s) - (vm_end (iv s p) - vm_start (iv s p)) +
      vma_len (split_low addr (iv s p)) + vma_len (split_high addr nm (iv s p))"
    using vma_split_law [OF assms(1) [unfolded L] assms(3-5)] by blast
  let ?L = "us @ p # malloc env s # ws"
  have sp: "space (map (iv s') ?L) = space (map (iv s) L)"
    unfolding s'(3) L using space_split [OF assms(3,4)] by (simp add: fun_eq_iff)
  have bk: "\<not> (vm_type (iv s p) = VMA_TYPE_SHM \<and> addr \<le> a \<and> a < vm_end (iv s p)) \<Longrightarrow>
      backing objs (map (iv s') ?L) a = backing objs (map (iv s) L) a" for objs a
    unfolding s'(3) L using backing_split [OF assms(3,4), of a objs "map (iv s) us" nm "map (iv s) ws"] by simp
  have hi: "iv s' (malloc env s) = split_high addr nm (iv s p)" using s'(3) by simp
  have shm: "backing objs (map (iv s) L) a = Some (info (iv s p) a, Some (shm_fault_page objs (iv s p) a)) \<and>
      backing objs (map (iv s') ?L) a = Some (info (iv s p) a, Some (shm_fault_page objs ((iv s p)\<lparr>vm_start := addr\<rparr>) a))"
    if "vm_type (iv s p) = VMA_TYPE_SHM" "addr \<le> a" "a < vm_end (iv s p)" for objs a
  proof -
    have "covers a (iv s p)" "covers a (iv s' (malloc env s))" using that assms(3) unfolding hi by (auto simp: covers_def)
    then show ?thesis
      using that(1) backing_area [OF assms(1,2), of a objs] backing_area [OF s'(2), of "malloc env s" a objs]
        page_split(2) [OF assms(3,4), of a nm objs] unfolding hi by (simp add: page_of_def)
  qed
  have "vma_len (split_low addr (iv s p)) + vma_len (split_high addr nm (iv s p)) =
      (if vm_flags (iv s p) AND VMA_STACK = 0 then vm_end (iv s p) - vm_start (iv s p) else 0)"
    by (simp add: vma_len_def)
  then show ?thesis using s' L sp bk shm
    by (intro exI [of _ s'] exI [of _ ?L]) (simp add: insert_commute)
qed

theorem vma_split_keeps_space_witness:
  "\<exists>s' L'. vma_split demo_env 16 0x2000 demo_shm = Some (0, s') \<and> areas s' L' \<and>
    map_option snd (backing demo_objs (map (iv demo_shm) [16, 32]) 0x3000) = Some (Some (Some 0x102000)) \<and>
    map_option snd (backing demo_objs (map (iv s') L') 0x3000) = Some (Some (Some 0x101000))"
proof -
  have v: "iv demo_shm 16 = shm_area 0x1000 0x4000" by (simp add: demo_shm_def iv_def)
  have f: "vm_start (shm_area 0x1000 0x4000) = 0x1000" "vm_end (shm_area 0x1000 0x4000) = 0x4000" "vm_type (shm_area 0x1000 0x4000) = VMA_TYPE_SHM"
    by (simp_all add: shm_area_def area_def)
  have "fresh demo_env demo_shm" by (simp add: fresh_def demo_env_def demo_shm_def ok_def)
  then obtain s' L' where "vma_split demo_env 16 0x2000 demo_shm = Some (0, s')" "areas s' L'"
    "\<forall>objs a. 0x2000 \<le> a \<and> a < 0x4000 \<longrightarrow>
      backing objs (map (iv demo_shm) [16, 32]) a = Some (info (shm_area 0x1000 0x4000) a, Some (shm_fault_page objs (shm_area 0x1000 0x4000) a)) \<and>
      backing objs (map (iv s') L') a =
        Some (info (shm_area 0x1000 0x4000) a, Some (shm_fault_page objs ((shm_area 0x1000 0x4000)\<lparr>vm_start := 0x2000\<rparr>) a))"
    using vma_split_keeps_space [OF demo_shm_areas, of 16 "0x2000" demo_env] unfolding v f by auto
  moreover have "(shm_area 0x1000 0x4000)\<lparr>vm_start := 0x2000\<rparr> = shm_area 0x2000 0x4000" by (simp add: shm_area_def area_def)
  ultimately show ?thesis using demo_shm_page by (intro exI [of _ s'] exI [of _ L']) simp
qed

text \<open>
  C33.  \<open>vma_unmap_range\<close> always returns, with 0 or -1.  With 0, no area contains an address of the range any
  more; addresses outside the range keep flags, kind, object and file offset in every case, so areas that reach over a bound
  of the range are split there.  A -1 is only possible where an area has to be split, and then each
  address is either unmapped or as before.  Without stacks \<open>vm_used\<close> stays the sum of the lengths.
\<close>

theorem vma_unmap_range_clears:
  assumes "areas s L" "sound_env env" "start < fin"
  shows "\<exists>r s' L'. vma_unmap_range env start fin s = Some (r, s') \<and> areas s' L' \<and> (r = 0 \<or> r = - 1) \<and>
    (\<forall>a. \<not> (start \<le> a \<and> a < fin) \<longrightarrow> space (map (iv s') L') a = space (map (iv s) L) a) \<and>
    (\<forall>a. space (map (iv s') L') a = None \<or> space (map (iv s') L') a = space (map (iv s) L) a) \<and>
    (r = 0 \<longrightarrow> (\<forall>a. start \<le> a \<and> a < fin \<longrightarrow> vma_find s' a = Some 0)) \<and>
    ((\<forall>v \<in> set (map (iv s) L). \<not> cuts start v \<and> \<not> cuts fin v) \<longrightarrow> r = 0) \<and>
    (no_stack (map (iv s) L) \<and> vm_used (aux s) = lens (map (iv s) L) \<longrightarrow> vm_used (aux s') = lens (map (iv s') L'))"
proof -
  obtain r s' L' where r: "vma_unmap_loop env start fin s = Some (r, s')" "areas s' L'"
    "unmapped start fin r (map (iv s) L) (vm_used (aux s)) (map (iv s') L') (vm_used (aux s'))"
    using vma_unmap_loop_law [OF assms(1,3,2)] unfolding unmaps_def by blast
  have "vma_find s' a = Some 0" if "\<forall>v \<in> set (map (iv s') L'). \<not> meets start fin v" "start \<le> a" "a < fin" for a
  proof -
    have "find (\<lambda>p. covers a (iv s' p)) L' = None"
      using that by (fastforce simp: find_None_iff meets_def covers_def)
    then show ?thesis using vma_find_law [OF r(2), of a] by simp
  qed
  then show ?thesis using r assms(3) unfolding unmapped_def vma_unmap_range_def
    by (intro exI [of _ r] exI [of _ s'] exI [of _ L']) auto
qed

theorem vma_unmap_range_clears_witness:
  "\<exists>r s'. vma_unmap_range demo_env 0x1000 0x4000 demo = Some (r, s') \<and> r = 0 \<and> vma_find s' 0x2000 = Some 0"
  using vma_unmap_range_clears [OF demo_areas demo_env_sound(1), of "0x1000" "0x4000"]
  by (fastforce simp: demo_def iv_def area_def cuts_def)

text \<open>
  C34.  \<open>vma_try_merge_around\<close> always ends, every address keeps its flags, kind, object and file offset, \<open>vm_used\<close> keeps its
  value, and afterwards the area can be merged with neither neighbour.  The page behind every address is kept
  if the area is not shared memory, and outside of the joined area in any case.  In a joined shared memory area the position
  is counted from its start, so that an attachment joined to one before it gets other pages.  The
  assumption is that a file area has no more file data than addresses.
\<close>

theorem vma_try_merge_keeps_space:
  assumes "areas s (us @ p # ws)" "\<forall>v \<in> set (map (iv s) (us @ p # ws)). file_fits v"
  shows "\<exists>p' s' us' ws'. vma_try_merge_around p s = Some (p', s') \<and> areas s' (us' @ p' # ws') \<and>
    space (map (iv s') (us' @ p' # ws')) = space (map (iv s) (us @ p # ws)) \<and> vm_used (aux s') = vm_used (aux s) \<and>
    (\<forall>objs a. \<not> (vm_type (iv s p) = VMA_TYPE_SHM \<and> covers a (iv s' p')) \<longrightarrow>
      backing objs (map (iv s') (us' @ p' # ws')) a = backing objs (map (iv s) (us @ p # ws)) a) \<and>
    (\<forall>objs a. vm_type (iv s p) = VMA_TYPE_SHM \<and> covers a (iv s' p') \<longrightarrow>
      backing objs (map (iv s') (us' @ p' # ws')) a = Some (info (iv s' p') a, Some (shm_fault_page objs (iv s' p') a))) \<and>
    (us' \<noteq> [] \<longrightarrow> \<not> vma_mergeable (iv s' (last us')) (iv s' p')) \<and>
    (ws' \<noteq> [] \<longrightarrow> \<not> vma_mergeable (iv s' p') (iv s' (hd ws')))"
proof -
  obtain p' s' us' ws' where r: "vma_try_merge_around p s = Some (p', s')" "areas s' (us' @ p' # ws')"
    "space (map (iv s') (us' @ p' # ws')) = space (map (iv s) (us @ p # ws))" "vm_used (aux s') = vm_used (aux s)"
    "vm_type (iv s' p') = vm_type (iv s p)"
    "\<forall>objs a. \<not> (vm_type (iv s p) = VMA_TYPE_SHM \<and> covers a (iv s' p')) \<longrightarrow>
       backing objs (map (iv s') (us' @ p' # ws')) a = backing objs (map (iv s) (us @ p # ws)) a"
    "us' \<noteq> [] \<longrightarrow> \<not> vma_mergeable (iv s' (last us')) (iv s' p')" "ws' \<noteq> [] \<longrightarrow> \<not> vma_mergeable (iv s' p') (iv s' (hd ws'))"
    using try_merge_law [OF assms] unfolding joins_def by blast
  have "\<forall>objs a. vm_type (iv s p) = VMA_TYPE_SHM \<and> covers a (iv s' p') \<longrightarrow>
      backing objs (map (iv s') (us' @ p' # ws')) a = Some (info (iv s' p') a, Some (shm_fault_page objs (iv s' p') a))"
    using backing_area [OF r(2), of p'] r(5) by (simp add: page_of_def)
  then show ?thesis using r by blast
qed

theorem vma_try_merge_keeps_space_witness:
  "\<exists>s' L'. vma_try_merge_around 16 demo_shm = Some (16, s') \<and> areas s' L' \<and> vm_end (iv s' 16) = 0x6000 \<and> vm_used (aux s') = 0x5000 \<and>
    map_option snd (backing demo_objs (map (iv demo_shm) [16, 32]) 0x5000) = Some (Some (Some 0x101000)) \<and>
    map_option snd (backing demo_objs (map (iv s') L') 0x5000) = Some (Some (Some 0x104000))"
proof -
  have "file_fits (iv demo_shm 16)" "file_fits (iv demo_shm 32)" and f: "vm_type (iv demo_shm 16) = VMA_TYPE_SHM" "vm_used (aux demo_shm) = 0x5000"
    by (simp_all add: demo_shm_def iv_def file_fits_def shm_area_def area_def)
  then obtain p' s' us' ws' where r: "vma_try_merge_around 16 demo_shm = Some (p', s')" "areas s' (us' @ p' # ws')" "vm_used (aux s') = 0x5000"
    "\<forall>objs a. covers a (iv s' p') \<longrightarrow>
      backing objs (map (iv s') (us' @ p' # ws')) a = Some (info (iv s' p') a, Some (shm_fault_page objs (iv s' p') a))"
    using vma_try_merge_keeps_space [of demo_shm "[]" 16 "[32]"] demo_shm_areas by auto
  have m: "p' = 16" "vm_start (iv s' p') = 0x1000" "vm_end (iv s' p') = 0x6000" "shm_fault_page demo_objs (iv s' p') 0x5000 = Some 0x104000"
    using demo_shm_merge(1) r(1) by auto
  then have "covers 0x5000 (iv s' p')" by (simp add: covers_def)
  then have "map_option snd (backing demo_objs (map (iv s') (us' @ p' # ws')) 0x5000) = Some (Some (Some 0x104000))"
    using r(4) m(4) by (simp only: option.map snd_conv)
  then show ?thesis using r(1-3) m(1,3) demo_shm_merge(2) by blast
qed

end
