(* ===== verification/Page.thy ===== *)
theory Page
  imports Bitmap
begin

text \<open>
  Page metadata and page reference counts: \<open>mm/page.h\<close> and \<open>mm/page.c\<close>.  A pointer into the array
  \<open>page_maps\<close> is the number of the page frame, and \<open>NULL\<close> is \<open>PAGE_LIST_NONE\<close>, as \<open>page_to_pfn\<close> has
  it.  An access past the array is \<open>None\<close>.  The compare-and-exchange loops on a reference count are one
  atomic step; \<open>refcount\<close> is a 32-bit word read as a signed number.
\<close>

definition PAGE_LIST_NONE :: u64 where "PAGE_LIST_NONE = UINT64_MAX"

definition PAGE_FLAG_BUDDY :: u8 where "PAGE_FLAG_BUDDY = 0x01"

definition PAGE_FLAG_SLAB :: u8 where "PAGE_FLAG_SLAB = 0x02"

definition PAGE_FLAG_LARGE :: u8 where "PAGE_FLAG_LARGE = 0x04"

definition PAGE_FLAG_PCP :: u8 where "PAGE_FLAG_PCP = 0x08"

definition PAGE_FLAG_FREEING :: u8 where "PAGE_FLAG_FREEING = 0x10"

type_synonym page_ptr = u64

record page =
  refcount :: u32
  page_flags :: u8
  page_order :: u8
  zone_id :: u8
  reserved :: u8
  prev_pfn :: u64
  next_pfn :: u64
  slab_cache :: ptr
  freelist :: u64
  slab_state :: u32

record page_state =
  page_maps :: "(u64 \<Rightarrow> page option) option"
  memory_size :: u64
  usable_regions :: Bitmap

definition page_at :: "'a page_state_scheme \<Rightarrow> page_ptr \<Rightarrow> page option" where
  "page_at s p = (if p = PAGE_LIST_NONE then None else do { m \<leftarrow> page_maps s; m p })"

definition upd_page :: "page_ptr \<Rightarrow> (page \<Rightarrow> page) \<Rightarrow> 'a page_state_scheme \<Rightarrow> 'a page_state_scheme option" where
  "upd_page p f s =
     do { pg \<leftarrow> page_at s p; m \<leftarrow> page_maps s; Some (s\<lparr>page_maps := Some (m(p \<mapsto> f pg))\<rparr>) }"

subsection \<open>Addresses and pages\<close>

definition page_to_pfn :: "page_ptr \<Rightarrow> u64" where
  "page_to_pfn page = page"

definition page_to_phys :: "page_ptr \<Rightarrow> u64" where
  "page_to_phys page = (let pfn = page_to_pfn page in if pfn = PAGE_LIST_NONE then UINT64_MAX else pfn * PAGE_SIZE)"

definition phys_to_page :: "'a page_state_scheme \<Rightarrow> u64 \<Rightarrow> page_ptr" where
  "phys_to_page s phys =
     (if page_maps s = None \<or> phys \<ge> memory_size s then PAGE_LIST_NONE else phys div PAGE_SIZE)"

definition get_page_by_addr :: "'a page_state_scheme \<Rightarrow> u64 \<Rightarrow> page_ptr" where
  "get_page_by_addr s addr = phys_to_page s addr"

definition zero_page :: page where
  "zero_page = \<lparr>refcount = 0, page_flags = 0, page_order = 0, zone_id = 0, reserved = 0, prev_pfn = 0, next_pfn = 0,
     slab_cache = 0, freelist = 0, slab_state = 0\<rparr>"

text \<open>\<open>early\<close> is the result of \<open>early_alloc\<close>; a failed assertion stops the kernel.\<close>

definition page_init :: "ptr \<Rightarrow> 'a page_state_scheme \<Rightarrow> 'a page_state_scheme option" where
  "page_init early s =
     (if early = 0 then None
      else Some (s\<lparr>page_maps := Some (\<lambda>pfn. if pfn < memory_size s div PAGE_SIZE then Some zero_page else None)\<rparr>))"

subsection \<open>Reference counts\<close>

definition page_refcount_read :: "'a page_state_scheme \<Rightarrow> page_ptr \<Rightarrow> u32 option" where
  "page_refcount_read s page =
     (if page = PAGE_LIST_NONE then Some 0 else map_option refcount (page_at s page))"

definition page_ref :: "page_ptr \<Rightarrow> 'a page_state_scheme \<Rightarrow> 'a page_state_scheme option" where
  "page_ref page s =
     (if page = PAGE_LIST_NONE then Some s else upd_page page (\<lambda>p. p\<lparr>refcount := refcount p + 1\<rparr>) s)"

definition page_try_ref :: "page_ptr \<Rightarrow> 'a page_state_scheme \<Rightarrow> (bool \<times> 'a page_state_scheme) option" where
  "page_try_ref page s =
     (if page = PAGE_LIST_NONE then Some (False, s)
      else do { p \<leftarrow> page_at s page;
                if sint (refcount p) > 0
                then if sint (refcount p) + 1 \<noteq> sint (refcount p + 1) then None
                else do { s \<leftarrow> upd_page page (\<lambda>p. p\<lparr>refcount := refcount p + 1\<rparr>) s; Some (True, s) }
                else Some (False, s) })"

definition page_unref :: "page_ptr \<Rightarrow> 'a page_state_scheme \<Rightarrow> (int \<times> 'a page_state_scheme) option" where
  "page_unref page s =
     (if page = PAGE_LIST_NONE then Some (- 1, s)
      else do { p \<leftarrow> page_at s page;
                if sint (refcount p) > 0
                then do { s \<leftarrow> upd_page page (\<lambda>p. p\<lparr>refcount := refcount p - 1\<rparr>) s;
                          Some (sint (refcount p - 1), s) }
                else Some (- 1, s) })"

definition page_try_release_last :: "page_ptr \<Rightarrow> 'a page_state_scheme \<Rightarrow> (bool \<times> 'a page_state_scheme) option" where
  "page_try_release_last page s =
     (if page = PAGE_LIST_NONE then Some (False, s)
      else do { p \<leftarrow> page_at s page;
                if refcount p = 1
                then do { s \<leftarrow> upd_page page (\<lambda>p. p\<lparr>refcount := 0\<rparr>) s; Some (True, s) }
                else Some (False, s) })"

definition page_can_free :: "'a page_state_scheme \<Rightarrow> page_ptr \<Rightarrow> bool option" where
  "page_can_free s page = map_option (\<lambda>r. sint r \<le> 0) (page_refcount_read s page)"

subsection \<open>Reference counts by address\<close>

definition address_is_managed :: "'a page_state_scheme \<Rightarrow> u64 \<Rightarrow> bool option" where
  "address_is_managed s addr =
     (if page_maps s = None \<or> addr \<ge> memory_size s then Some False
      else let page_index = addr div PAGE_SIZE
           in if page_index \<ge> bm_length (usable_regions s) then Some False
              else bitmap_get (usable_regions s) page_index)"

definition address_ref :: "u64 \<Rightarrow> 'a page_state_scheme \<Rightarrow> (bool \<times> 'a page_state_scheme) option" where
  "address_ref addr s =
     do { managed \<leftarrow> address_is_managed s addr;
          if \<not> managed then Some (True, s) else page_try_ref (get_page_by_addr s addr) s }"

definition address_unref :: "u64 \<Rightarrow> 'a page_state_scheme \<Rightarrow> 'a page_state_scheme option" where
  "address_unref addr s =
     do { managed \<leftarrow> address_is_managed s addr;
          if managed then do { (_, s) \<leftarrow> page_unref (get_page_by_addr s addr) s; Some s } else Some s }"

definition address_can_free :: "'a page_state_scheme \<Rightarrow> u64 \<Rightarrow> bool option" where
  "address_can_free s addr =
     do { managed \<leftarrow> address_is_managed s addr;
          if managed then page_can_free s (get_page_by_addr s addr) else Some False }"

end
