(* ===== verification/Buddy.thy ===== *)
theory Buddy
  imports Page
begin

text \<open>
  The physical frame allocator: \<open>mm/buddy.c\<close> and \<open>mm/buddy.h\<close>.  A zone keeps, for every order, a
  doubly linked list of free blocks threaded through the page metadata; a cache of single pages per CPU
  (\<open>pcp_pages\<close>) sits in front of it.  Each function runs under the locks it takes, so it is one step.
  The zone pointer of a function that may be called with \<open>NULL\<close> is an option.  Orders and loop counters
  of type \<open>size_t\<close> are natural numbers.
\<close>

subsection \<open>State\<close>

definition MAX_ORDER :: nat where "MAX_ORDER = 19"

definition PCP_HIGH :: nat where "PCP_HIGH = 64"

definition PCP_BATCH :: nat where "PCP_BATCH = 16"

datatype zone_type = ZONE_NORMAL

record free_area =
  head_pfn :: u64
  nr_free :: u64

record zone =
  free_areas :: "free_area list"
  zone_start_pfn :: u64
  zone_end_pfn :: u64
  managed_pages :: u64
  ztype :: zone_type

record per_cpu_pages =
  pcp_head :: u64
  pcp_count :: u16

text \<open>\<open>current_cpu\<close> is \<open>current_task->cpu_id\<close>, \<open>None\<close> while there is no current task.\<close>

record frames = page_state +
  zones :: "zone_type \<Rightarrow> zone option"
  nr_zones :: nat
  pcp_pages :: "per_cpu_pages list"
  current_cpu :: "u32 option"
  cpu_count :: u32

definition upd_area :: "zone_type \<Rightarrow> nat \<Rightarrow> (free_area \<Rightarrow> free_area) \<Rightarrow> frames \<Rightarrow> frames option" where
  "upd_area z order f s =
     do { zone \<leftarrow> zones s z;
          area \<leftarrow> array_get (free_areas zone) order;
          areas \<leftarrow> array_set (free_areas zone) order (f area);
          Some (s\<lparr>zones := (zones s)(z \<mapsto> zone\<lparr>free_areas := areas\<rparr>)\<rparr>) }"

definition area_at :: "frames \<Rightarrow> zone_type \<Rightarrow> nat \<Rightarrow> free_area option" where
  "area_at s z order = do { zone \<leftarrow> zones s z; array_get (free_areas zone) order }"

definition upd_pcp :: "nat \<Rightarrow> (per_cpu_pages \<Rightarrow> per_cpu_pages) \<Rightarrow> frames \<Rightarrow> frames option" where
  "upd_pcp cpu f s =
     do { pcp \<leftarrow> array_get (pcp_pages s) cpu;
          pcps \<leftarrow> array_set (pcp_pages s) cpu (f pcp);
          Some (s\<lparr>pcp_pages := pcps\<rparr>) }"

subsection \<open>Orders, addresses and zones\<close>

definition order_to_pages :: "nat \<Rightarrow> u64" where
  "order_to_pages order = push_bit order 1"

definition order_to_bytes :: "nat \<Rightarrow> u64" where
  "order_to_bytes order = order_to_pages order * PAGE_SIZE"

definition order_valid :: "nat \<Rightarrow> bool" where
  "order_valid order = (order < MAX_ORDER)"

definition phys_to_pfn :: "u64 \<Rightarrow> u64" where
  "phys_to_pfn phys = phys div PAGE_SIZE"

definition pfn_to_phys :: "u64 \<Rightarrow> u64" where
  "pfn_to_phys pfn = pfn * PAGE_SIZE"

definition page_from_pfn :: "u64 \<Rightarrow> page_ptr" where
  "page_from_pfn pfn = pfn"

definition zone_phys_start :: "zone \<Rightarrow> u64" where
  "zone_phys_start zone = zone_start_pfn zone * PAGE_SIZE"

definition zone_phys_end :: "zone \<Rightarrow> u64" where
  "zone_phys_end zone = zone_end_pfn zone * PAGE_SIZE"

definition zone_contains_pfn :: "zone \<Rightarrow> u64 \<Rightarrow> bool" where
  "zone_contains_pfn zone pfn = (pfn \<ge> zone_start_pfn zone \<and> pfn < zone_end_pfn zone)"

subsection \<open>Page states\<close>

definition page_detach :: "page \<Rightarrow> page" where
  "page_detach page = page\<lparr>prev_pfn := PAGE_LIST_NONE, next_pfn := PAGE_LIST_NONE\<rparr>"

definition page_clear_owner :: "page \<Rightarrow> page" where
  "page_clear_owner page = page\<lparr>slab_cache := 0, freelist := 0, slab_state := 0\<rparr>"

fun zone_number :: "zone_type \<Rightarrow> u8" where
  "zone_number ZONE_NORMAL = 0"

definition page_mark_free :: "zone_type \<Rightarrow> nat \<Rightarrow> page \<Rightarrow> page" where
  "page_mark_free type order page =
     page_clear_owner (page_detach (page\<lparr>refcount := 0, page_flags := PAGE_FLAG_BUDDY, page_order := of_nat order,
       zone_id := zone_number type\<rparr>))"

definition page_mark_allocated :: "zone_type \<Rightarrow> nat \<Rightarrow> page \<Rightarrow> page" where
  "page_mark_allocated type order page =
     page_clear_owner (page_detach (page\<lparr>refcount := 0, page_flags := 0, page_order := of_nat order,
       zone_id := zone_number type\<rparr>))"

definition page_mark_pcp :: "zone_type \<Rightarrow> page \<Rightarrow> page" where
  "page_mark_pcp type page =
     page_clear_owner (page_detach (page\<lparr>refcount := 0, page_flags := PAGE_FLAG_PCP, page_order := 0,
       zone_id := zone_number type\<rparr>))"

definition page_is_buddy :: "frames \<Rightarrow> page_ptr \<Rightarrow> nat \<Rightarrow> bool option" where
  "page_is_buddy s page order =
     (if page = PAGE_LIST_NONE then Some False
      else do { p \<leftarrow> page_at s page;
                Some (page_flags p AND PAGE_FLAG_BUDDY \<noteq> 0 \<and> unat (page_order p) = order) })"

fun count_to_order_loop :: "nat \<Rightarrow> u64 \<Rightarrow> nat \<Rightarrow> u64 \<Rightarrow> (nat \<times> u64) option" where
  "count_to_order_loop 0 count order pages = (if pages < count then None else Some (order, pages))"
| "count_to_order_loop (Suc n) count order pages =
     (if pages < count
      then if \<not> order_valid (order + 1) then None
           else count_to_order_loop n count (order + 1) (push_bit 1 pages)
      else Some (order, pages))"

text \<open>The results are the order and the number of pages, \<open>None\<close> is the return of false.\<close>

definition count_to_order :: "u64 \<Rightarrow> (nat \<times> u64) option" where
  "count_to_order count = (if count = 0 then None else count_to_order_loop MAX_ORDER count 0 1)"

definition zone_block_valid :: "zone \<Rightarrow> u64 \<Rightarrow> nat \<Rightarrow> bool" where
  "zone_block_valid zone addr order =
     (order_valid order \<and>
      (let bytes = order_to_bytes order; fin = addr + bytes
       in \<not> fin < addr \<and> addr AND (bytes - 1) = 0 \<and>
          addr \<ge> zone_phys_start zone \<and> fin \<le> zone_phys_end zone))"

definition zone_free_pages_locked :: "zone \<Rightarrow> u64" where
  "zone_free_pages_locked zone =
     fold (\<lambda>order pages. pages + nr_free (free_areas zone ! order) * order_to_pages order) [0..<MAX_ORDER] 0"

subsection \<open>Free lists\<close>

definition free_area_add :: "zone_type \<Rightarrow> nat \<Rightarrow> page_ptr \<Rightarrow> frames \<Rightarrow> frames option" where
  "free_area_add z order page s =
     do { area \<leftarrow> area_at s z order;
          zone \<leftarrow> zones s z;
          let pfn = page_to_pfn page;
          s \<leftarrow> upd_page page (page_mark_free (ztype zone) order) s;
          s \<leftarrow> (if head_pfn area \<noteq> PAGE_LIST_NONE
                then do { let head = page_from_pfn (head_pfn area);
                          s \<leftarrow> upd_page head (\<lambda>p. p\<lparr>prev_pfn := pfn\<rparr>) s;
                          upd_page page (\<lambda>p. p\<lparr>next_pfn := head_pfn area\<rparr>) s }
                else Some s);
          upd_area z order (\<lambda>a. a\<lparr>head_pfn := pfn, nr_free := nr_free a + 1\<rparr>) s }"

definition free_area_del :: "zone_type \<Rightarrow> nat \<Rightarrow> page_ptr \<Rightarrow> frames \<Rightarrow> frames option" where
  "free_area_del z order page s =
     do { zone \<leftarrow> zones s z;
          p \<leftarrow> page_at s page;
          s \<leftarrow> (if prev_pfn p \<noteq> PAGE_LIST_NONE
                then upd_page (page_from_pfn (prev_pfn p)) (\<lambda>q. q\<lparr>next_pfn := next_pfn p\<rparr>) s
                else upd_area z order (\<lambda>a. a\<lparr>head_pfn := next_pfn p\<rparr>) s);
          p \<leftarrow> page_at s page;
          s \<leftarrow> (if next_pfn p \<noteq> PAGE_LIST_NONE
                then upd_page (page_from_pfn (next_pfn p)) (\<lambda>q. q\<lparr>prev_pfn := prev_pfn p\<rparr>) s
                else Some s);
          s \<leftarrow> upd_area z order (\<lambda>a. if nr_free a \<noteq> 0 then a\<lparr>nr_free := nr_free a - 1\<rparr> else a) s;
          upd_page page (page_mark_allocated (ztype zone) order) s }"

definition free_area_pop :: "zone_type \<Rightarrow> nat \<Rightarrow> frames \<Rightarrow> (page_ptr \<times> frames) option" where
  "free_area_pop z order s =
     do { area \<leftarrow> area_at s z order;
          if head_pfn area = PAGE_LIST_NONE then Some (PAGE_LIST_NONE, s)
          else do { let page = page_from_pfn (head_pfn area);
                    s \<leftarrow> free_area_del z order page s;
                    Some (page, s) } }"

subsection \<open>Caches of single pages\<close>

definition pcp_current_cpu :: "frames \<Rightarrow> nat option" where
  "pcp_current_cpu s =
     (case current_cpu s of None \<Rightarrow> None
      | Some cpu_id \<Rightarrow> if cpu_id \<ge> cpu_count s \<or> unat cpu_id \<ge> MAX_CPU_NUM then None else Some (unat cpu_id))"

definition pcp_push_locked :: "nat \<Rightarrow> page_ptr \<Rightarrow> zone_type \<Rightarrow> frames \<Rightarrow> frames option" where
  "pcp_push_locked cpu page type s =
     do { s \<leftarrow> upd_page page (page_mark_pcp type) s;
          pcp \<leftarrow> array_get (pcp_pages s) cpu;
          s \<leftarrow> upd_page page (\<lambda>p. p\<lparr>next_pfn := pcp_head pcp\<rparr>) s;
          upd_pcp cpu (\<lambda>c. c\<lparr>pcp_head := page_to_pfn page, pcp_count := pcp_count c + 1\<rparr>) s }"

definition pcp_pop_locked :: "nat \<Rightarrow> zone_type \<Rightarrow> frames \<Rightarrow> (page_ptr \<times> frames) option" where
  "pcp_pop_locked cpu type s =
     do { pcp \<leftarrow> array_get (pcp_pages s) cpu;
          if pcp_head pcp = PAGE_LIST_NONE then Some (PAGE_LIST_NONE, s)
          else do {
            let page = page_from_pfn (pcp_head pcp);
            p \<leftarrow> page_at s page;
            s \<leftarrow> upd_pcp cpu (\<lambda>c. c\<lparr>pcp_head := next_pfn p,
                                     pcp_count := (if pcp_count c \<noteq> 0 then pcp_count c - 1 else pcp_count c)\<rparr>) s;
            s \<leftarrow> upd_page page (page_mark_allocated type 0) s;
            Some (page, s) } }"

definition pcp_page_eligible :: "frames \<Rightarrow> page_ptr \<Rightarrow> bool option" where
  "pcp_page_eligible s page =
     (if page = PAGE_LIST_NONE then Some False
      else do { p \<leftarrow> page_at s page;
                Some (page_order p = 0 \<and> refcount p = 0 \<and>
                      page_flags p AND (PAGE_FLAG_BUDDY OR PAGE_FLAG_SLAB OR PAGE_FLAG_LARGE OR PAGE_FLAG_PCP OR
                                        PAGE_FLAG_FREEING) = 0) })"

fun block_free_from :: "frames \<Rightarrow> zone \<Rightarrow> u64 \<Rightarrow> u64 \<Rightarrow> nat list \<Rightarrow> bool option" where
  "block_free_from s zone pfn end_pfn [] = Some False"
| "block_free_from s zone pfn end_pfn (free_order # orders) =
     (let free_pages = order_to_pages free_order;
          head_pfn = pfn AND NOT (free_pages - 1)
      in if \<not> zone_contains_pfn zone head_pfn then block_free_from s zone pfn end_pfn orders
         else if end_pfn \<le> head_pfn + free_pages
         then do { b \<leftarrow> page_is_buddy s (page_from_pfn head_pfn) free_order;
                   if b then Some True else block_free_from s zone pfn end_pfn orders }
         else block_free_from s zone pfn end_pfn orders)"

definition block_already_free :: "frames \<Rightarrow> zone \<Rightarrow> u64 \<Rightarrow> nat \<Rightarrow> bool option" where
  "block_already_free s zone pfn order =
     (let end_pfn = pfn + order_to_pages order
      in if end_pfn < pfn then Some True
         else block_free_from s zone pfn end_pfn [order..<MAX_ORDER])"

subsection \<open>Blocks\<close>

text \<open>The first loop of \<open>buddy_alloc_order_locked\<close>: the page and the order where it was found.\<close>

fun alloc_search :: "zone_type \<Rightarrow> nat list \<Rightarrow> frames \<Rightarrow> (page_ptr \<times> nat \<times> frames) option" where
  "alloc_search z [] s = Some (PAGE_LIST_NONE, MAX_ORDER, s)"
| "alloc_search z (order # orders) s =
     do { (page, s) \<leftarrow> free_area_pop z order s;
          if page \<noteq> PAGE_LIST_NONE then Some (page, order, s) else alloc_search z orders s }"

text \<open>The second loop: \<open>n\<close> is \<open>order - target_order\<close>.\<close>

fun alloc_split :: "zone_type \<Rightarrow> page_ptr \<Rightarrow> nat \<Rightarrow> nat \<Rightarrow> frames \<Rightarrow> frames option" where
  "alloc_split z page target_order 0 s = Some s"
| "alloc_split z page target_order (Suc n) s =
     do { let order = target_order + n;
          let right = page_from_pfn (page_to_pfn page + order_to_pages order);
          s \<leftarrow> free_area_add z order right s;
          zone \<leftarrow> zones s z;
          s \<leftarrow> upd_page page (page_mark_allocated (ztype zone) order) s;
          alloc_split z page target_order n s }"

definition buddy_alloc_order_locked :: "zone_type \<Rightarrow> nat \<Rightarrow> frames \<Rightarrow> (u64 \<times> frames) option" where
  "buddy_alloc_order_locked z target_order s =
     do { (page, order, s) \<leftarrow> alloc_search z [target_order..<MAX_ORDER] s;
          if page = PAGE_LIST_NONE then Some (0, s)
          else do {
            s \<leftarrow> alloc_split z page target_order (order - target_order) s;
            zone \<leftarrow> zones s z;
            s \<leftarrow> upd_page page (page_mark_allocated (ztype zone) target_order) s;
            Some (page_to_phys page, s) } }"

text \<open>The loop that fills \<open>batch\<close>, with \<open>n\<close> places left; the list is \<open>batch\<close> from its last entry down.\<close>

fun pcp_fill :: "zone_type \<Rightarrow> nat \<Rightarrow> page_ptr list \<Rightarrow> frames \<Rightarrow> (page_ptr list \<times> frames) option" where
  "pcp_fill z 0 batch s = Some (batch, s)"
| "pcp_fill z (Suc n) batch s =
     do { (phys, s) \<leftarrow> buddy_alloc_order_locked z 0 s;
          if phys = 0 then Some (batch, s) else pcp_fill z n (phys_to_page s phys # batch) s }"

fun pcp_push_all :: "nat \<Rightarrow> zone_type \<Rightarrow> page_ptr list \<Rightarrow> frames \<Rightarrow> frames option" where
  "pcp_push_all cpu type [] s = Some s"
| "pcp_push_all cpu type (page # batch) s =
     do { s \<leftarrow> pcp_push_locked cpu page type s; pcp_push_all cpu type batch s }"

definition pcp_alloc_order0 :: "zone_type option \<Rightarrow> frames \<Rightarrow> (u64 \<times> frames) option" where
  "pcp_alloc_order0 zp s =
     (case zp of None \<Rightarrow> Some (0, s)
      | Some z \<Rightarrow> do {
          zone \<leftarrow> zones s z;
          if ztype zone \<noteq> ZONE_NORMAL then Some (0, s)
          else case pcp_current_cpu s of None \<Rightarrow> Some (0, s)
          | Some cpu_id \<Rightarrow> do {
              (page, s) \<leftarrow> pcp_pop_locked cpu_id (ztype zone) s;
              if page \<noteq> PAGE_LIST_NONE then Some (page_to_phys page, s)
              else do {
                (batch, s) \<leftarrow> pcp_fill z PCP_BATCH [] s;
                case batch of [] \<Rightarrow> Some (0, s)
                | page # batch \<Rightarrow> do {
                    s \<leftarrow> pcp_push_all cpu_id (ztype zone) batch s;
                    s \<leftarrow> upd_page page (page_mark_allocated (ztype zone) 0) s;
                    Some (page_to_phys page, s) } } } })"

text \<open>The loop of \<open>buddy_free_order_locked\<close>; \<open>n\<close> is \<open>MAX_ORDER - order\<close>.\<close>

fun free_merge :: "zone_type \<Rightarrow> nat \<Rightarrow> u64 \<Rightarrow> nat \<Rightarrow> frames \<Rightarrow> (u64 \<times> nat \<times> frames) option" where
  "free_merge z 0 pfn order s = Some (pfn, order, s)"
| "free_merge z (Suc n) pfn order s =
     (if order + 1 < MAX_ORDER
      then do {
        zone \<leftarrow> zones s z;
        let buddy_pfn = pfn XOR order_to_pages order;
        let buddy_phys = pfn_to_phys buddy_pfn;
        if \<not> zone_contains_pfn zone buddy_pfn \<or> \<not> zone_block_valid zone buddy_phys order
        then Some (pfn, order, s)
        else do {
          let buddy = page_from_pfn buddy_pfn;
          b \<leftarrow> page_is_buddy s buddy order;
          if \<not> b then Some (pfn, order, s)
          else do {
            s \<leftarrow> free_area_del z order buddy s;
            free_merge z n (if buddy_pfn < pfn then buddy_pfn else pfn) (order + 1) s } } }
      else Some (pfn, order, s))"

definition buddy_free_order_locked :: "zone_type \<Rightarrow> u64 \<Rightarrow> nat \<Rightarrow> frames \<Rightarrow> (page_ptr \<times> frames) option" where
  "buddy_free_order_locked z addr order s =
     do { (pfn, order, s) \<leftarrow> free_merge z (MAX_ORDER - order) (phys_to_pfn addr) order s;
          let head = page_from_pfn pfn;
          s \<leftarrow> free_area_add z order head s;
          Some (head, s) }"

text \<open>The loop that empties the cache into \<open>drain\<close>, with \<open>n\<close> places left.\<close>

fun pcp_drain :: "nat \<Rightarrow> zone_type \<Rightarrow> nat \<Rightarrow> frames \<Rightarrow> (page_ptr list \<times> frames) option" where
  "pcp_drain cpu type 0 s = Some ([], s)"
| "pcp_drain cpu type (Suc n) s =
     do { (drained, s) \<leftarrow> pcp_pop_locked cpu type s;
          if drained = PAGE_LIST_NONE then Some ([], s)
          else do { (drain, s) \<leftarrow> pcp_drain cpu type n s; Some (drained # drain, s) } }"

fun free_all :: "zone_type \<Rightarrow> page_ptr list \<Rightarrow> frames \<Rightarrow> frames option" where
  "free_all z [] s = Some s"
| "free_all z (page # drain) s =
     do { (_, s) \<leftarrow> buddy_free_order_locked z (page_to_phys page) 0 s; free_all z drain s }"

definition pcp_free_order0 :: "zone_type option \<Rightarrow> page_ptr \<Rightarrow> frames \<Rightarrow> (bool \<times> frames) option" where
  "pcp_free_order0 zp page s =
     (case zp of None \<Rightarrow> Some (False, s)
      | Some z \<Rightarrow> do {
          zone \<leftarrow> zones s z;
          eligible \<leftarrow> (if ztype zone \<noteq> ZONE_NORMAL then Some False else pcp_page_eligible s page);
          if \<not> eligible then Some (False, s)
          else case pcp_current_cpu s of None \<Rightarrow> Some (False, s)
          | Some cpu_id \<Rightarrow> do {
              s \<leftarrow> pcp_push_locked cpu_id page (ztype zone) s;
              pcp \<leftarrow> array_get (pcp_pages s) cpu_id;
              (drain, s) \<leftarrow> (if unat (pcp_count pcp) > PCP_HIGH
                            then pcp_drain cpu_id (ztype zone) PCP_BATCH s else Some ([], s));
              s \<leftarrow> free_all z drain s;
              Some (True, s) } })"

subsection \<open>Zones\<close>

definition phys_to_zone_type :: "u64 \<Rightarrow> zone_type" where
  "phys_to_zone_type phys = ZONE_NORMAL"

definition get_zone :: "frames \<Rightarrow> zone_type \<Rightarrow> zone_type option" where
  "get_zone s type = map_option (\<lambda>_. type) (zones s type)"

definition zone_free_pages :: "frames \<Rightarrow> zone_type option \<Rightarrow> u64 option" where
  "zone_free_pages s zp =
     (case zp of None \<Rightarrow> Some 0
      | Some z \<Rightarrow> do {
          zone \<leftarrow> zones s z;
          let pages = zone_free_pages_locked zone;
          Some (if ztype zone = ZONE_NORMAL
                then fold (\<lambda>cpu pages. pages + ucast (pcp_count (pcp_pages s ! cpu))) [0..<MAX_CPU_NUM] pages
                else pages) })"

definition zone_has_memory :: "frames \<Rightarrow> zone_type option \<Rightarrow> bool option" where
  "zone_has_memory s zp = map_option (\<lambda>pages. pages > 0) (zone_free_pages s zp)"

definition ANY_FLAG :: u8 where
  "ANY_FLAG = PAGE_FLAG_BUDDY OR PAGE_FLAG_PCP OR PAGE_FLAG_SLAB OR PAGE_FLAG_LARGE OR PAGE_FLAG_FREEING"

definition buddy_free_zone :: "zone_type option \<Rightarrow> u64 \<Rightarrow> nat \<Rightarrow> frames \<Rightarrow> frames option" where
  "buddy_free_zone zp addr order s =
     (case zp of None \<Rightarrow> Some s
      | Some z \<Rightarrow> do {
          zone \<leftarrow> zones s z;
          if \<not> zone_block_valid zone addr order then Some s
          else do {
            let head = phys_to_page s addr;
            if head = PAGE_LIST_NONE then Some s
            else do {
              h \<leftarrow> page_at s head;
              if page_flags h AND ANY_FLAG \<noteq> 0 then Some s
              else do {
                already \<leftarrow> block_already_free s zone (phys_to_pfn addr) order;
                if already then Some s
                else do {
                  (cached, s) \<leftarrow> (if order = 0 then pcp_free_order0 zp head s else Some (False, s));
                  if cached then Some s
                  else do { (_, s) \<leftarrow> buddy_free_order_locked z addr order s; Some s } } } } } })"

definition buddy_free_zone_claimed :: "zone_type option \<Rightarrow> u64 \<Rightarrow> nat \<Rightarrow> frames \<Rightarrow> frames option" where
  "buddy_free_zone_claimed zp addr order s =
     (case zp of None \<Rightarrow> Some s
      | Some z \<Rightarrow> do {
          zone \<leftarrow> zones s z;
          if \<not> zone_block_valid zone addr order then Some s
          else do {
            let claimed = phys_to_page s addr;
            if claimed = PAGE_LIST_NONE then Some s
            else do {
              c \<leftarrow> page_at s claimed;
              if page_flags c AND PAGE_FLAG_FREEING = 0 then Some s
              else do {
                (head, s) \<leftarrow> buddy_free_order_locked z addr order s;
                c \<leftarrow> page_at s claimed;
                if head \<noteq> claimed \<and> page_flags c AND PAGE_FLAG_FREEING \<noteq> 0
                then upd_page claimed (page_mark_allocated (ztype zone) 0) s
                else Some s } } } })"

text \<open>The first result is the address, the second the value stored through \<open>allocated_pages\<close>, if any.\<close>

definition buddy_alloc_zone_pages :: "zone_type option \<Rightarrow> u64 \<Rightarrow> frames \<Rightarrow> (u64 \<times> u64 option \<times> frames) option" where
  "buddy_alloc_zone_pages zp count s =
     (case zp of None \<Rightarrow> Some (0, None, s)
      | Some z \<Rightarrow>
          if count = 0 then Some (0, None, s)
          else case count_to_order count of None \<Rightarrow> Some (0, None, s)
          | Some (order, pages) \<Rightarrow> do {
              (addr, s) \<leftarrow> (if order = 0 then pcp_alloc_order0 zp s else Some (0, s));
              if addr \<noteq> 0 then Some (addr, Some pages, s)
              else do {
                (addr, s) \<leftarrow> buddy_alloc_order_locked z order s;
                Some (addr, if addr \<noteq> 0 then Some pages else None, s) } })"

definition buddy_alloc_zone :: "zone_type option \<Rightarrow> u64 \<Rightarrow> frames \<Rightarrow> (u64 \<times> frames) option" where
  "buddy_alloc_zone zp count s =
     do { (addr, _, s) \<leftarrow> buddy_alloc_zone_pages zp count s; Some (addr, s) }"

definition init_zone :: "zone_type \<Rightarrow> u64 \<Rightarrow> u64 \<Rightarrow> zone" where
  "init_zone type start_pfn end_pfn =
     \<lparr>free_areas = replicate MAX_ORDER \<lparr>head_pfn = PAGE_LIST_NONE, nr_free = 0\<rparr>, zone_start_pfn = start_pfn,
      zone_end_pfn = end_pfn, managed_pages = 0, ztype = type\<rparr>"

text \<open>\<open>early\<close> is the result of \<open>early_alloc\<close>.\<close>

definition create_zone :: "ptr \<Rightarrow> zone_type \<Rightarrow> u64 \<Rightarrow> u64 \<Rightarrow> frames \<Rightarrow> frames option" where
  "create_zone early type start_pfn end_pfn s =
     (if end_pfn \<le> start_pfn then Some (s\<lparr>zones := (zones s)(type := None)\<rparr>)
      else if early = 0 then None
      else Some (s\<lparr>zones := (zones s)(type \<mapsto> init_zone type start_pfn end_pfn), nr_zones := nr_zones s + 1\<rparr>))"

definition buddy_init :: "ptr \<Rightarrow> frames \<Rightarrow> frames option" where
  "buddy_init early s =
     create_zone early ZONE_NORMAL 0 (memory_size s div PAGE_SIZE)
       (s\<lparr>zones := (\<lambda>_. None), nr_zones := 0,
          pcp_pages := replicate MAX_CPU_NUM \<lparr>pcp_head = PAGE_LIST_NONE, pcp_count = 0\<rparr>\<rparr>)"

fun floor_order_loop :: "nat \<Rightarrow> u64 \<Rightarrow> nat \<Rightarrow> nat" where
  "floor_order_loop 0 pages order = order"
| "floor_order_loop (Suc n) pages order =
     (if order + 1 < MAX_ORDER \<and> push_bit (order + 1) 1 \<le> pages then floor_order_loop n pages (order + 1) else order)"

definition floor_order_for_pages :: "u64 \<Rightarrow> nat" where
  "floor_order_for_pages pages = floor_order_loop MAX_ORDER pages 0"

definition builtin_ctzll :: "u64 \<Rightarrow> nat" where
  "builtin_ctzll x = length (takeWhile (\<lambda>i. \<not> bit x i) [0..<64])"

partial_function (option) add_region_loop :: "zone_type \<Rightarrow> u64 \<Rightarrow> u64 \<Rightarrow> frames \<Rightarrow> frames option" where
  "add_region_loop z pfn end_pfn s =
     (if pfn < end_pfn
      then do {
        let order_by_size = floor_order_for_pages (end_pfn - pfn);
        let order_by_align = builtin_ctzll pfn;
        let order_by_align = (if order_by_align \<ge> MAX_ORDER then MAX_ORDER - 1 else order_by_align);
        let order = min order_by_size order_by_align;
        (_, s) \<leftarrow> buddy_free_order_locked z (pfn_to_phys pfn) order s;
        zone \<leftarrow> zones s z;
        let s = s\<lparr>zones := (zones s)(z \<mapsto> zone\<lparr>managed_pages := managed_pages zone + order_to_pages order\<rparr>)\<rparr>;
        add_region_loop z (pfn + order_to_pages order) end_pfn s }
      else Some s)"

definition PADDING_UP :: "u64 \<Rightarrow> u64 \<Rightarrow> u64" where
  "PADDING_UP sz to = PADDING_DOWN (sz + to - 1) to"

definition add_memory_region :: "u64 \<Rightarrow> u64 \<Rightarrow> zone_type \<Rightarrow> frames \<Rightarrow> frames option" where
  "add_memory_region start fin type s =
     (case get_zone s type of None \<Rightarrow> Some s
      | Some z \<Rightarrow>
          if start \<ge> fin then Some s
          else do {
            let start = PADDING_UP start PAGE_SIZE;
            let fin = PADDING_DOWN fin PAGE_SIZE;
            let start = (if start = 0 then PAGE_SIZE else start);
            if start \<ge> fin then Some s
            else do {
              zone \<leftarrow> zones s z;
              let start = (if start < zone_phys_start zone then zone_phys_start zone else start);
              let fin = (if fin > zone_phys_end zone then zone_phys_end zone else fin);
              if start \<ge> fin then Some s
              else add_region_loop z (phys_to_pfn start) (phys_to_pfn fin) s } })"

subsection \<open>Frames with reference counts\<close>

fun ref_all :: "u64 \<Rightarrow> nat list \<Rightarrow> frames \<Rightarrow> frames option" where
  "ref_all addr [] s = Some s"
| "ref_all addr (rollback # rs) s =
     do { s \<leftarrow> page_ref (phys_to_page s (addr + of_nat rollback * PAGE_SIZE)) s; ref_all addr rs s }"

fun claim_refs :: "u64 \<Rightarrow> nat \<Rightarrow> nat list \<Rightarrow> frames \<Rightarrow> (bool \<times> frames) option" where
  "claim_refs addr pages [] s = Some (True, s)"
| "claim_refs addr pages (offset # offsets) s =
     do { let page = phys_to_page s (addr + of_nat offset * PAGE_SIZE);
          (released, s) \<leftarrow> page_try_release_last page s;
          if released then claim_refs addr pages offsets s
          else do { s \<leftarrow> ref_all addr [0..<offset] s; Some (False, s) } }"

definition claim_last_page_refs :: "u64 \<Rightarrow> nat \<Rightarrow> frames \<Rightarrow> (bool \<times> frames) option" where
  "claim_last_page_refs addr pages s = claim_refs addr pages [0..<pages] s"

fun unreferenced_from :: "u64 \<Rightarrow> nat list \<Rightarrow> frames \<Rightarrow> bool option" where
  "unreferenced_from addr [] s = Some True"
| "unreferenced_from addr (offset # offsets) s =
     do { let page = phys_to_page s (addr + of_nat offset * PAGE_SIZE);
          if page = PAGE_LIST_NONE then Some False
          else do { r \<leftarrow> page_refcount_read s page;
                    if r \<noteq> 0 then Some False else unreferenced_from addr offsets s } }"

definition pages_are_unreferenced :: "u64 \<Rightarrow> nat \<Rightarrow> frames \<Rightarrow> bool option" where
  "pages_are_unreferenced addr pages s = unreferenced_from addr [0..<pages] s"

text \<open>The other parts of the kernel that give memory back when an allocation fails.\<close>

record reclaim_env =
  task_reap_deferred :: "u64 \<Rightarrow> frames \<Rightarrow> frames"
  page_cache_reclaim :: "u64 \<Rightarrow> frames \<Rightarrow> frames"

fun alloc_attempts :: "reclaim_env \<Rightarrow> zone_type option \<Rightarrow> u64 \<Rightarrow> u64 \<Rightarrow> nat list \<Rightarrow> frames \<Rightarrow> (u64 \<times> frames) option" where
  "alloc_attempts env zp count pages [] s = Some (0, s)"
| "alloc_attempts env zp count pages (attempt # attempts) s =
     do { (addr, s) \<leftarrow> (if zp \<noteq> None then buddy_alloc_zone zp count s else Some (0, s));
          if addr \<noteq> 0 then Some (addr, s)
          else let s = (if attempt = 0 then task_reap_deferred env 512 s
                        else if attempt = 1 then page_cache_reclaim env (max pages 64) s
                        else s)
               in alloc_attempts env zp count pages attempts s }"

fun mark_frames :: "u64 \<Rightarrow> nat list \<Rightarrow> frames \<Rightarrow> frames option" where
  "mark_frames addr [] s = Some s"
| "mark_frames addr (offset # offsets) s =
     do { let page = phys_to_page s (addr + of_nat offset * PAGE_SIZE);
          if page = PAGE_LIST_NONE then mark_frames addr offsets s
          else do { s \<leftarrow> upd_page page (page_mark_allocated ZONE_NORMAL 0) s;
                    s \<leftarrow> page_ref page s;
                    mark_frames addr offsets s } }"

text \<open>Out of memory is a failed assertion, which stops the kernel: \<open>None\<close>.\<close>

definition alloc_frames :: "reclaim_env \<Rightarrow> u64 \<Rightarrow> frames \<Rightarrow> (u64 \<times> frames) option" where
  "alloc_frames env count s =
     (if count = 0 then Some (0, s)
      else case count_to_order count of None \<Rightarrow> Some (0, s)
      | Some (order, pages) \<Rightarrow> do {
          (addr, s) \<leftarrow> alloc_attempts env (get_zone s ZONE_NORMAL) count pages [0..<3] s;
          if addr = 0 then None
          else do {
            s \<leftarrow> mark_frames addr [0..<unat pages] s;
            let head = phys_to_page s addr;
            s \<leftarrow> (if head \<noteq> PAGE_LIST_NONE then upd_page head (\<lambda>p. p\<lparr>page_order := of_nat order\<rparr>) s else Some s);
            Some (addr, s) } })"

fun usable_from :: "Bitmap \<Rightarrow> u64 \<Rightarrow> nat list \<Rightarrow> bool option" where
  "usable_from bm start_page [] = Some True"
| "usable_from bm start_page (offset # offsets) =
     do { b \<leftarrow> bitmap_get bm (start_page + of_nat offset);
          if b then usable_from bm start_page offsets else Some False }"

definition free_frames_common :: "u64 \<Rightarrow> u64 \<Rightarrow> bool \<Rightarrow> frames \<Rightarrow> frames option" where
  "free_frames_common addr count refs_already_released s =
     (if addr = 0 \<or> count = 0 \<or> addr AND (PAGE_SIZE - 1) \<noteq> 0 then Some s
      else case count_to_order count of None \<Rightarrow> Some s
      | Some (order, pages) \<Rightarrow>
          (case get_zone s ZONE_NORMAL of None \<Rightarrow> Some s
           | Some z \<Rightarrow> do {
               zone \<leftarrow> zones s z;
               if \<not> zone_block_valid zone addr order then Some s
               else do {
                 let start_page = addr div PAGE_SIZE;
                 if start_page + pages < start_page \<or> start_page + pages > bm_length (usable_regions s) then Some s
                 else do {
                   usable \<leftarrow> usable_from (usable_regions s) start_page [0..<unat pages];
                   if \<not> usable then Some s
                   else do {
                     let head = phys_to_page s addr;
                     if head = PAGE_LIST_NONE then Some s
                     else do {
                       h \<leftarrow> page_at s head;
                       if page_flags h AND ANY_FLAG \<noteq> 0 then Some s
                       else do {
                         (released, s) \<leftarrow> (if refs_already_released
                            then do { b \<leftarrow> pages_are_unreferenced addr (unat pages) s; Some (b, s) }
                            else claim_last_page_refs addr (unat pages) s);
                         if \<not> released then Some s
                         else do {
                           (cached, s) \<leftarrow> (if order = 0 then pcp_free_order0 (Some z) head s else Some (False, s));
                           if cached then Some s
                           else do { (_, s) \<leftarrow> buddy_free_order_locked z addr order s; Some s } } } } } } } }))"

definition free_frames :: "u64 \<Rightarrow> u64 \<Rightarrow> frames \<Rightarrow> frames option" where
  "free_frames addr count s = free_frames_common addr count False s"

definition free_frames_released :: "u64 \<Rightarrow> u64 \<Rightarrow> frames \<Rightarrow> frames option" where
  "free_frames_released addr count s = free_frames_common addr count True s"

definition address_release :: "u64 \<Rightarrow> frames \<Rightarrow> frames option" where
  "address_release addr s =
     do { managed \<leftarrow> address_is_managed s addr;
          if \<not> managed then Some s
          else do {
            let page = get_page_by_addr s addr;
            if page = PAGE_LIST_NONE then Some s
            else do {
              (refs, s) \<leftarrow> page_unref page s;
              if refs > 0 \<or> refs < 0 then Some s else free_frames_released addr 1 s } } }"

declare add_region_loop.simps [code]

end
