(* ===== verification/Buddy_Lists.thy ===== *)
theory Buddy_Lists
  imports Buddy
begin

text \<open>
  The free lists of \<open>mm/buddy.c\<close>: doubly linked lists through the page metadata, the invariant that ties
  them to disjoint aligned blocks of a zone, and what adding a block to a list and removing one does.
\<close>

subsection \<open>Doubly linked lists through page metadata\<close>

abbreviation NONE :: u64 where "NONE \<equiv> PAGE_LIST_NONE"

text \<open>A segment: \<open>p\<close> is in front of the first page and \<open>n\<close> behind the last one.\<close>

fun dseg :: "(u64 \<Rightarrow> page option) \<Rightarrow> u64 \<Rightarrow> u64 list \<Rightarrow> u64 \<Rightarrow> bool" where
  "dseg m p [] n = True"
| "dseg m p (x # xs) n =
     (\<exists>g. m x = Some g \<and> prev_pfn g = p \<and> next_pfn g = hd (xs @ [n]) \<and> dseg m x xs n)"

lemma dseg_append: "dseg m p (us @ vs) n \<longleftrightarrow> dseg m p us (hd (vs @ [n])) \<and> dseg m (last (p # us)) vs n"
  by (induction us arbitrary: p) (auto simp: hd_append)

lemma dseg_cong: "(\<And>x. x \<in> set xs \<Longrightarrow> m' x = m x) \<Longrightarrow> dseg m p xs n \<Longrightarrow> dseg m' p xs n"
  by (induction xs arbitrary: p) auto

lemma dseg_upd_other: "y \<notin> set xs \<Longrightarrow> dseg m p xs n \<Longrightarrow> dseg (m(y \<mapsto> g)) p xs n"
  by (rule dseg_cong [of xs _ m]) auto

lemma dseg_set_next:
  "dseg m p us n \<Longrightarrow> us \<noteq> [] \<Longrightarrow> distinct us \<Longrightarrow> m (last us) = Some g \<Longrightarrow>
   dseg (m(last us \<mapsto> g\<lparr>next_pfn := n'\<rparr>)) p us n'"
proof (induction us arbitrary: p)
  case (Cons x us)
  note prems = Cons.prems
  show ?case
  proof (cases "us = []")
    case False
    then have l: "last (x # us) = last us" "last us \<noteq> x" using prems(3) by auto
    then have "dseg (m(last us \<mapsto> g\<lparr>next_pfn := n'\<rparr>)) x us n'"
      using prems False l by (intro Cons.IH) auto
    moreover have "hd (us @ [n]) = hd (us @ [n'])" using False by simp
    ultimately show ?thesis using prems(1) l by (auto simp: fun_upd_def)
  qed (use prems in auto)
qed simp

lemma dseg_set_prev:
  "dseg m p (x # xs) n \<Longrightarrow> x \<notin> set xs \<Longrightarrow> m x = Some g \<Longrightarrow> dseg (m(x \<mapsto> g\<lparr>prev_pfn := p'\<rparr>)) p' (x # xs) n"
  using dseg_upd_other [of x xs m x n] by auto

lemma dseg_page: "dseg m p xs n \<Longrightarrow> x \<in> set xs \<Longrightarrow> m x \<noteq> None"
  by (induction xs arbitrary: p) auto

subsection \<open>Updates of the state\<close>

definition set_page :: "page_ptr \<Rightarrow> page \<Rightarrow> frames \<Rightarrow> frames" where
  "set_page p g s = s\<lparr>page_maps := Some ((the (page_maps s))(p \<mapsto> g))\<rparr>"

lemma set_page_simps [simp]:
  "zones (set_page p g s) = zones s" "pcp_pages (set_page p g s) = pcp_pages s" "current_cpu (set_page p g s) = current_cpu s"
  "cpu_count (set_page p g s) = cpu_count s" "memory_size (set_page p g s) = memory_size s"
  "usable_regions (set_page p g s) = usable_regions s" "nr_zones (set_page p g s) = nr_zones s"
  "page_maps (set_page p g s) \<noteq> None"
  by (simp_all add: set_page_def)

lemma page_at_set: "page_at s p = Some h \<Longrightarrow> page_at (set_page p g s) = (page_at s)(p \<mapsto> g)"
  by (auto simp: page_at_def set_page_def fun_eq_iff bind_eq_Some_conv split: if_splits)

lemma upd_page_set: "page_at s p = Some g \<Longrightarrow> upd_page p f s = Some (set_page p (f g) s)"
  by (auto simp: upd_page_def page_at_def set_page_def bind_eq_Some_conv split: if_splits)

definition set_area :: "nat \<Rightarrow> free_area \<Rightarrow> frames \<Rightarrow> frames" where
  "set_area k a s = s\<lparr>zones := (zones s)(ZONE_NORMAL \<mapsto>
     (the (zones s ZONE_NORMAL))\<lparr>free_areas := (free_areas (the (zones s ZONE_NORMAL)))[k := a]\<rparr>)\<rparr>"

lemma set_area_simps [simp]:
  "page_maps (set_area k a s) = page_maps s" "pcp_pages (set_area k a s) = pcp_pages s" "current_cpu (set_area k a s) = current_cpu s"
  "cpu_count (set_area k a s) = cpu_count s" "memory_size (set_area k a s) = memory_size s"
  "usable_regions (set_area k a s) = usable_regions s" "nr_zones (set_area k a s) = nr_zones s"
  "page_at (set_area k a s) = page_at s"
  by (simp_all add: set_area_def page_at_def fun_eq_iff)

lemma upd_area_set:
  "area_at s z k = Some a \<Longrightarrow> upd_area z k f s = Some (set_area k (f a) s)"
  by (cases z) (auto simp: area_at_def upd_area_def set_area_def bind_eq_Some_conv array_get_eq_Some)

lemma area_at_set:
  "area_at s ZONE_NORMAL k = Some b \<Longrightarrow>
   area_at (set_area k a s) ZONE_NORMAL j = (if j = k then Some a else area_at s ZONE_NORMAL j)"
  by (auto simp: area_at_def set_area_def bind_eq_Some_conv array_get_def split: if_splits)

lemma area_at_set_page [simp]: "area_at (set_page p g s) z k = area_at s z k"
  by (simp add: area_at_def)

subsection \<open>The invariant\<close>

definition blk :: "u64 \<Rightarrow> nat \<Rightarrow> nat set" where
  "blk x k = {unat x..<unat x + 2 ^ k}"

text \<open>A block that the zone from frame \<open>lo\<close> to frame \<open>hi\<close> may hold; frame 0 is never handed out.\<close>

definition block_ok :: "nat \<Rightarrow> nat \<Rightarrow> u64 \<Rightarrow> nat \<Rightarrow> bool" where
  "block_ok lo hi x k \<longleftrightarrow> k < MAX_ORDER \<and> 2 ^ k dvd unat x \<and> lo \<le> unat x \<and> unat x + 2 ^ k \<le> hi \<and> 0 < unat x"

lemma block_ok_bounds: "block_ok lo hi x k \<Longrightarrow> k < MAX_ORDER \<and> lo \<le> unat x \<and> unat x < hi \<and> x \<noteq> 0"
proof -
  assume b: "block_ok lo hi x k"
  have "0 < (2 :: nat) ^ k" by simp
  then have "unat x < unat x + 2 ^ k" by linarith
  moreover have "unat x + 2 ^ k \<le> hi" using b by (simp add: block_ok_def)
  ultimately have "unat x < hi" by linarith
  then show ?thesis using b by (auto simp: block_ok_def)
qed

definition zone_ok :: "nat \<Rightarrow> nat \<Rightarrow> frames \<Rightarrow> bool" where
  "zone_ok lo hi s \<longleftrightarrow> (\<exists>z. zones s ZONE_NORMAL = Some z \<and> length (free_areas z) = MAX_ORDER \<and>
     unat (zone_start_pfn z) = lo \<and> unat (zone_end_pfn z) = hi) \<and> lo \<le> hi \<and> hi < 2 ^ 52 \<and>
     (\<forall>x. lo \<le> unat x \<and> unat x < hi \<longrightarrow> page_at s x \<noteq> None)"

definition lists :: "frames \<Rightarrow> (nat \<Rightarrow> u64 list) \<Rightarrow> bool" where
  "lists s F \<longleftrightarrow> (\<forall>k < MAX_ORDER.
     area_at s ZONE_NORMAL k = Some \<lparr>head_pfn = hd (F k @ [NONE]), nr_free = of_nat (length (F k))\<rparr> \<and>
     dseg (page_at s) NONE (F k) NONE \<and> distinct (F k))"

text \<open>The flag and the order of a page say whether and how it heads a free block.\<close>

definition marks :: "frames \<Rightarrow> (nat \<Rightarrow> u64 list) \<Rightarrow> bool" where
  "marks s F \<longleftrightarrow> (\<forall>x g. page_at s x = Some g \<longrightarrow>
     (page_flags g AND PAGE_FLAG_BUDDY \<noteq> 0 \<longleftrightarrow> (\<exists>k < MAX_ORDER. x \<in> set (F k))) \<and>
     (\<forall>k < MAX_ORDER. x \<in> set (F k) \<longrightarrow> page_order g = of_nat k))"

definition buddy_of :: "u64 \<Rightarrow> nat \<Rightarrow> u64" where
  "buddy_of x k = x XOR order_to_pages k"

definition blocks :: "nat \<Rightarrow> nat \<Rightarrow> (nat \<Rightarrow> u64 list) \<Rightarrow> bool" where
  "blocks lo hi F \<longleftrightarrow> (\<forall>k < MAX_ORDER. \<forall>x \<in> set (F k). block_ok lo hi x k) \<and>
     (\<forall>k < MAX_ORDER. \<forall>j < MAX_ORDER. \<forall>x \<in> set (F k). \<forall>y \<in> set (F j). (x, k) \<noteq> (y, j) \<longrightarrow> blk x k \<inter> blk y j = {})"

text \<open>No two free buddies are left unmerged.\<close>

definition coalesced :: "(nat \<Rightarrow> u64 list) \<Rightarrow> bool" where
  "coalesced F \<longleftrightarrow> (\<forall>k. k + 1 < MAX_ORDER \<longrightarrow> (\<forall>x \<in> set (F k). buddy_of x k \<notin> set (F k)))"

definition buddy_inv :: "nat \<Rightarrow> nat \<Rightarrow> frames \<Rightarrow> (nat \<Rightarrow> u64 list) \<Rightarrow> bool" where
  "buddy_inv lo hi s F \<longleftrightarrow> zone_ok lo hi s \<and> lists s F \<and> marks s F \<and> blocks lo hi F"

definition free_pages :: "(nat \<Rightarrow> u64 list) \<Rightarrow> nat set" where
  "free_pages F = (\<Union>k < MAX_ORDER. \<Union>x \<in> set (F k). blk x k)"

lemma blk_self [simp]: "unat x \<in> blk x k"
  by (simp add: blk_def)

lemma heads_free: "k < MAX_ORDER \<Longrightarrow> x \<in> set (F k) \<Longrightarrow> unat x \<in> free_pages F"
  unfolding free_pages_def using blk_self [of x k] by blast

lemma heads_unique:
  assumes "blocks lo hi F" "k < MAX_ORDER" "j < MAX_ORDER" "x \<in> set (F k)" "x \<in> set (F j)"
  shows "k = j"
proof (rule ccontr)
  assume "k \<noteq> j"
  then have "blk x k \<inter> blk x j = {}" using assms unfolding blocks_def by blast
  then show False using blk_self by blast
qed

subsection \<open>Adding to and removing from a free list\<close>

text \<open>What the other parts of the state see of an operation on the free lists.\<close>

definition same_rest :: "u64 set \<Rightarrow> frames \<Rightarrow> frames \<Rightarrow> bool" where
  "same_rest A s s' \<longleftrightarrow> pcp_pages s' = pcp_pages s \<and> current_cpu s' = current_cpu s \<and> cpu_count s' = cpu_count s \<and>
     memory_size s' = memory_size s \<and> usable_regions s' = usable_regions s \<and>
     (page_maps s' = None \<longleftrightarrow> page_maps s = None) \<and>
     (\<forall>x. x \<notin> A \<longrightarrow> page_at s' x = page_at s x) \<and> (\<forall>x. page_at s' x = None \<longleftrightarrow> page_at s x = None)"

lemma same_rest_refl: "same_rest A s s"
  by (simp add: same_rest_def)

lemma same_rest_trans: "same_rest A s s' \<Longrightarrow> same_rest B s' s'' \<Longrightarrow> same_rest (A \<union> B) s s''"
  unfolding same_rest_def by auto

lemma same_rest_mono: "same_rest A s s' \<Longrightarrow> A \<subseteq> B \<Longrightarrow> same_rest B s s'"
  unfolding same_rest_def by blast

lemma same_rest_page: "page_at s p = Some h \<Longrightarrow> same_rest {p} s (set_page p g s)"
  by (auto simp: same_rest_def page_at_set) (auto simp: page_at_def bind_eq_Some_conv split: if_splits)

lemma same_rest_area: "same_rest A s (set_area k a s)"
  by (simp add: same_rest_def)

lemma zone_ok_page: "page_at s p = Some h \<Longrightarrow> zone_ok lo hi (set_page p g s) = zone_ok lo hi s"
  by (auto simp: zone_ok_def page_at_set)

lemma zone_ok_area: "area_at s ZONE_NORMAL k = Some b \<Longrightarrow> zone_ok lo hi (set_area k a s) = zone_ok lo hi s"
  by (auto simp: zone_ok_def area_at_def set_area_def page_at_def bind_eq_Some_conv)

lemma mark_free_fields [simp]:
  "page_flags (page_mark_free z k g) = PAGE_FLAG_BUDDY" "page_order (page_mark_free z k g) = of_nat k"
  "prev_pfn (page_mark_free z k g) = NONE" "next_pfn (page_mark_free z k g) = NONE"
  by (simp_all add: page_mark_free_def page_clear_owner_def page_detach_def)

lemma mark_allocated_fields [simp]:
  "page_flags (page_mark_allocated z k g) = 0" "page_order (page_mark_allocated z k g) = of_nat k"
  "refcount (page_mark_allocated z k g) = 0"
  by (simp_all add: page_mark_allocated_def page_clear_owner_def page_detach_def)

text \<open>The pages after \<open>free_area_add\<close>.\<close>

definition linked_front :: "nat \<Rightarrow> u64 \<Rightarrow> u64 list \<Rightarrow> (u64 \<Rightarrow> page option) \<Rightarrow> u64 \<Rightarrow> page option" where
  "linked_front k x L m =
     (case L of [] \<Rightarrow> m | h # _ \<Rightarrow> m(h \<mapsto> (the (m h))\<lparr>prev_pfn := x\<rparr>))
       (x \<mapsto> (page_mark_free ZONE_NORMAL k (the (m x)))\<lparr>next_pfn := hd (L @ [NONE])\<rparr>)"

lemma free_area_add_law:
  assumes "zone_ok lo hi s" "k < MAX_ORDER"
    "area_at s ZONE_NORMAL k = Some \<lparr>head_pfn = hd (L @ [NONE]), nr_free = of_nat (length L)\<rparr>"
    "page_at s x = Some g" "\<forall>y \<in> set L. page_at s y \<noteq> None" "x \<notin> set L"
  shows "\<exists>s'. free_area_add ZONE_NORMAL k x s = Some s' \<and> zone_ok lo hi s' \<and> page_at s' = linked_front k x L (page_at s) \<and>
    (\<forall>j. area_at s' ZONE_NORMAL j =
       (if j = k then Some \<lparr>head_pfn = x, nr_free = of_nat (Suc (length L))\<rparr> else area_at s ZONE_NORMAL j)) \<and>
    same_rest (insert x (set L)) s s'"
proof -
  let ?g = "page_mark_free ZONE_NORMAL k g"
  define s1 where "s1 = set_page x ?g s"
  have s1: "page_at s1 = (page_at s)(x \<mapsto> ?g)" "zone_ok lo hi s1" "same_rest {x} s s1"
    using assms(1,4) by (simp_all add: s1_def page_at_set zone_ok_page same_rest_page)
  obtain z where z: "zones s ZONE_NORMAL = Some z" using assms(1) by (auto simp: zone_ok_def)
  have zt: "ztype z = ZONE_NORMAL" by (cases "ztype z") simp
  have "\<exists>s2. (if hd (L @ [NONE]) \<noteq> NONE
      then do { s \<leftarrow> upd_page (hd (L @ [NONE])) (\<lambda>p. p\<lparr>prev_pfn := x\<rparr>) s1;
                upd_page x (\<lambda>p. p\<lparr>next_pfn := hd (L @ [NONE])\<rparr>) s }
      else Some s1) = Some s2 \<and> page_at s2 = linked_front k x L (page_at s) \<and> zone_ok lo hi s2 \<and>
      same_rest (insert x (set L)) s1 s2 \<and> zones s2 = zones s1"
  proof (cases L)
    case Nil
    have "?g\<lparr>next_pfn := NONE\<rparr> = ?g" by (simp add: page_mark_free_def page_clear_owner_def page_detach_def)
    then show ?thesis using Nil s1 assms(4) by (auto simp: linked_front_def same_rest_refl)
  next
    case (Cons h hs)
    then obtain gh where gh: "page_at s h = Some gh" "h \<noteq> x" using assms(5,6) by auto
    have hN: "h \<noteq> NONE" using gh(1) by (auto simp: page_at_def)
    define s2 where "s2 = set_page h (gh\<lparr>prev_pfn := x\<rparr>) s1"
    have h1: "page_at s1 h = Some gh" "page_at s1 x = Some ?g" using gh s1(1) by simp_all
    then have s2: "page_at s2 = (page_at s1)(h \<mapsto> gh\<lparr>prev_pfn := x\<rparr>)" "zone_ok lo hi s2" "same_rest {h} s1 s2"
      using s1(2) by (simp_all add: s2_def page_at_set zone_ok_page same_rest_page)
    have x2: "page_at s2 x = Some ?g" using s2(1) h1 gh(2) by simp
    define s3 where "s3 = set_page x (?g\<lparr>next_pfn := h\<rparr>) s2"
    have "page_at s3 = linked_front k x L (page_at s)"
      using page_at_set [OF x2] s2(1) s1(1) Cons gh assms(4) by (auto simp: s3_def linked_front_def fun_eq_iff)
    moreover have "zone_ok lo hi s3" "same_rest ({h} \<union> {x}) s1 s3" "zones s3 = zones s1"
      using x2 s2(2,3) same_rest_trans [OF s2(3) same_rest_page [OF x2]] zone_ok_page [OF x2]
      by (simp_all add: s3_def s2_def)
    ultimately show ?thesis using Cons hN upd_page_set [OF h1(1)] upd_page_set [OF x2]
        same_rest_mono [of "{h} \<union> {x}" s1 s3 "insert x (set L)"] by (auto simp: s3_def s2_def)
  qed
  then obtain s2 where s2: "(if hd (L @ [NONE]) \<noteq> NONE
      then do { s \<leftarrow> upd_page (hd (L @ [NONE])) (\<lambda>p. p\<lparr>prev_pfn := x\<rparr>) s1;
                upd_page x (\<lambda>p. p\<lparr>next_pfn := hd (L @ [NONE])\<rparr>) s }
      else Some s1) = Some s2" "page_at s2 = linked_front k x L (page_at s)" "zone_ok lo hi s2"
    "same_rest (insert x (set L)) s1 s2" "zones s2 = zones s1" by blast
  have a2: "area_at s2 ZONE_NORMAL j = area_at s ZONE_NORMAL j" for j using s2(5) by (simp add: area_at_def s1_def)
  define s3 where "s3 = set_area k \<lparr>head_pfn = x, nr_free = of_nat (length L) + 1\<rparr> s2"
  have "free_area_add ZONE_NORMAL k x s = Some s3"
    using assms(3) z zt upd_page_set [OF assms(4)] s2(1) upd_area_set [of s2 ZONE_NORMAL k] a2 [of k]
    by (simp add: free_area_add_def page_to_pfn_def page_from_pfn_def s1_def s3_def cong: if_cong)
  moreover have "zone_ok lo hi s3" using s2(3) zone_ok_area [of s2 k] a2 [of k] assms(3) by (simp add: s3_def)
  moreover have "area_at s3 ZONE_NORMAL j =
      (if j = k then Some \<lparr>head_pfn = x, nr_free = of_nat (Suc (length L))\<rparr> else area_at s ZONE_NORMAL j)" for j
    using area_at_set [of s2 k] a2 assms(3) by (simp add: s3_def)
  moreover have "same_rest (insert x (set L)) s s3"
    using same_rest_trans [OF same_rest_trans [OF s1(3) s2(4)] same_rest_area [of "{}"]] by (simp add: s3_def)
  ultimately show ?thesis using s2(2) by (auto simp: s3_def)
qed

lemma linked_front_dseg:
  assumes "dseg m NONE L NONE" "distinct L" "x \<notin> set L"
  shows "dseg (linked_front k x L m) NONE (x # L) NONE"
proof (cases L)
  case Nil
  then show ?thesis by (simp add: linked_front_def)
next
  case (Cons h hs)
  then obtain g where g: "m h = Some g" using assms(1) by auto
  let ?m = "m(h \<mapsto> g\<lparr>prev_pfn := x\<rparr>)"
  have "dseg ?m x L NONE" using dseg_set_prev [of m NONE h hs NONE g x] assms Cons g by simp
  then have "dseg (?m(x \<mapsto> q)) x L NONE" for q using dseg_upd_other [of x L ?m x NONE q] assms(3) by blast
  then show ?thesis using Cons g by (simp add: linked_front_def)
qed

lemma linked_front_other:
  "y \<noteq> x \<Longrightarrow> y \<notin> set L \<Longrightarrow> linked_front k x L m y = m y"
  by (auto simp: linked_front_def split: list.split)

text \<open>Flags and orders of the pages that are linked again do not change.\<close>

lemma linked_front_marks:
  assumes "y \<noteq> x" "linked_front k x L m y = Some g" "\<forall>y \<in> set L. m y \<noteq> None"
  shows "\<exists>h. m y = Some h \<and> page_flags g = page_flags h \<and> page_order g = page_order h"
  using assms by (auto simp: linked_front_def split: list.splits if_splits)

lemma free_pages_upd:
  "k < MAX_ORDER \<Longrightarrow> free_pages (F(k := L)) = (\<Union>x \<in> set L. blk x k) \<union> (\<Union>j \<in> {..<MAX_ORDER} - {k}. \<Union>x \<in> set (F j). blk x j)"
proof -
  assume "k < MAX_ORDER"
  then have "{..<MAX_ORDER} = insert k ({..<MAX_ORDER} - {k})" by auto
  then have "free_pages (F(k := L)) = (\<Union>j \<in> insert k ({..<MAX_ORDER} - {k}). \<Union>x \<in> set ((F(k := L)) j). blk x j)"
    by (simp add: free_pages_def)
  also have "\<dots> = (\<Union>x \<in> set L. blk x k) \<union> (\<Union>j \<in> {..<MAX_ORDER} - {k}. \<Union>x \<in> set (F j). blk x j)"
    unfolding UN_insert by (intro arg_cong2 [of _ _ _ _ "(\<union>)"] SUP_cong) auto
  finally show ?thesis .
qed

lemma free_pages_split:
  "k < MAX_ORDER \<Longrightarrow> free_pages F = (\<Union>x \<in> set (F k). blk x k) \<union> (\<Union>j \<in> {..<MAX_ORDER} - {k}. \<Union>x \<in> set (F j). blk x j)"
  using free_pages_upd [of k F "F k"] by simp

lemma free_pages_add: "k < MAX_ORDER \<Longrightarrow> free_pages (F(k := x # F k)) = blk x k \<union> free_pages F"
  by (simp add: free_pages_upd free_pages_split [of k F]) blast

lemma blocks_add:
  assumes "blocks lo hi F" "block_ok lo hi x k" "blk x k \<inter> free_pages F = {}"
  shows "blocks lo hi (F(k := x # F k))"
proof -
  have "blk x k \<inter> blk y j = {}" if "j < MAX_ORDER" "y \<in> set (F j)" for y j
    using assms(3) that unfolding free_pages_def by blast
  then show ?thesis using assms(1,2) unfolding blocks_def by (auto simp: Int_commute)
qed

lemma buddy_add:
  assumes inv: "buddy_inv lo hi s F" and x: "block_ok lo hi x k" "blk x k \<inter> free_pages F = {}"
  shows "\<exists>s'. free_area_add ZONE_NORMAL k x s = Some s' \<and> buddy_inv lo hi s' (F(k := x # F k)) \<and>
    same_rest (insert x (set (F k))) s s'"
proof -
  have k: "k < MAX_ORDER" and xz: "lo \<le> unat x" "unat x < hi" using block_ok_bounds [OF x(1)] by auto
  have z: "zone_ok lo hi s" and l: "lists s F" and m: "marks s F" and b: "blocks lo hi F"
    using inv by (auto simp: buddy_inv_def)
  have new: "x \<notin> set (F j)" if "j < MAX_ORDER" for j using heads_free [OF that] x(2) blk_self [of x k] by blast
  obtain g where g: "page_at s x = Some g" using z xz by (auto simp: zone_ok_def)
  have L: "dseg (page_at s) NONE (F j) NONE" "distinct (F j)"
    "area_at s ZONE_NORMAL j = Some \<lparr>head_pfn = hd (F j @ [NONE]), nr_free = of_nat (length (F j))\<rparr>"
    if "j < MAX_ORDER" for j using l that by (auto simp: lists_def)
  have Lp: "\<forall>y \<in> set (F k). page_at s y \<noteq> None" using dseg_page [OF L(1) [OF k]] by blast
  obtain s' where s': "free_area_add ZONE_NORMAL k x s = Some s'" "zone_ok lo hi s'"
    "page_at s' = linked_front k x (F k) (page_at s)"
    "\<forall>j. area_at s' ZONE_NORMAL j =
       (if j = k then Some \<lparr>head_pfn = x, nr_free = of_nat (Suc (length (F k)))\<rparr> else area_at s ZONE_NORMAL j)"
    "same_rest (insert x (set (F k))) s s'"
    using free_area_add_law [OF z k L(3) [OF k] g Lp new [OF k]] by blast
  have "dseg (page_at s') NONE (F j) NONE" if "j < MAX_ORDER" "j \<noteq> k" for j
  proof (rule dseg_cong [OF _ L(1) [OF that(1)]])
    fix y assume y: "y \<in> set (F j)"
    then have "y \<noteq> x" "y \<notin> set (F k)" using new [OF that(1)] heads_unique [OF b that(1) k] that(2) by auto
    then show "page_at s' y = page_at s y" using linked_front_other s'(3) by simp
  qed
  moreover have "dseg (page_at s') NONE (x # F k) NONE"
    unfolding s'(3) using L(1,2) [OF k] new [OF k] by (rule linked_front_dseg)
  ultimately have "lists s' (F(k := x # F k))" using L s'(4) new k by (auto simp: lists_def)
  moreover have "marks s' (F(k := x # F k))"
    unfolding marks_def
  proof (intro allI impI)
    fix y q assume q: "page_at s' y = Some q"
    show "(page_flags q AND PAGE_FLAG_BUDDY \<noteq> 0 \<longleftrightarrow> (\<exists>j < MAX_ORDER. y \<in> set ((F(k := x # F k)) j))) \<and>
      (\<forall>j < MAX_ORDER. y \<in> set ((F(k := x # F k)) j) \<longrightarrow> page_order q = of_nat j)"
    proof (cases "y = x")
      case True
      then have "page_flags q = PAGE_FLAG_BUDDY" "page_order q = of_nat k"
        using q s'(3) by (auto simp: linked_front_def)
      then show ?thesis using True k new by (auto simp: PAGE_FLAG_BUDDY_def)
    next
      case False
      obtain h where h: "page_at s y = Some h" "page_flags q = page_flags h" "page_order q = page_order h"
        using linked_front_marks [OF False q [unfolded s'(3)] Lp] by blast
      then show ?thesis using m False k unfolding marks_def by auto
    qed
  qed
  ultimately show ?thesis using s' blocks_add [OF b x] by (auto simp: buddy_inv_def)
qed

text \<open>The pages after \<open>free_area_del\<close>.\<close>

definition bridged :: "u64 list \<Rightarrow> u64 list \<Rightarrow> (u64 \<Rightarrow> page option) \<Rightarrow> u64 \<Rightarrow> page option" where
  "bridged us vs m =
     (let m1 = (if us = [] then m else m(last us \<mapsto> (the (m (last us)))\<lparr>next_pfn := hd (vs @ [NONE])\<rparr>))
      in if vs = [] then m1 else m1(hd vs \<mapsto> (the (m1 (hd vs)))\<lparr>prev_pfn := last (NONE # us)\<rparr>))"

lemma bridged_other:
  assumes "y \<notin> set us" "y \<notin> set vs"
  shows "bridged us vs m y = m y"
proof -
  have "us \<noteq> [] \<Longrightarrow> y \<noteq> last us" "vs \<noteq> [] \<Longrightarrow> y \<noteq> hd vs" using assms by auto
  then show ?thesis by (simp add: bridged_def Let_def)
qed

definition same_marks :: "(u64 \<Rightarrow> page option) \<Rightarrow> (u64 \<Rightarrow> page option) \<Rightarrow> bool" where
  "same_marks m m' \<longleftrightarrow> (\<forall>y g. m' y = Some g \<longrightarrow>
     (\<exists>h. m y = Some h \<and> page_flags g = page_flags h \<and> page_order g = page_order h))"

lemma same_marks_upd:
  "same_marks m m' \<Longrightarrow> m' p = Some q \<Longrightarrow> page_flags q' = page_flags q \<Longrightarrow> page_order q' = page_order q \<Longrightarrow>
   same_marks m (m'(p \<mapsto> q'))"
  by (auto simp: same_marks_def)

lemma bridged_marks:
  assumes "\<forall>y \<in> set (us @ vs). m y \<noteq> None"
  shows "same_marks m (bridged us vs m)"
proof -
  define m1 where "m1 = (if us = [] then m else m(last us \<mapsto> (the (m (last us)))\<lparr>next_pfn := hd (vs @ [NONE])\<rparr>))"
  have "same_marks m m" by (simp add: same_marks_def)
  then have m1: "same_marks m m1"
    using assms same_marks_upd [of m m "last us" "the (m (last us))"] by (auto simp: m1_def)
  have "vs \<noteq> [] \<Longrightarrow> m1 (hd vs) = Some (the (m1 (hd vs)))" using assms by (auto simp: m1_def)
  then show ?thesis using m1 same_marks_upd [OF m1, of "hd vs" "the (m1 (hd vs))"]
    by (simp add: bridged_def m1_def [symmetric])
qed

lemma bridged_dseg:
  assumes "dseg m NONE (us @ x # vs) NONE" "distinct (us @ x # vs)"
  shows "dseg (bridged us vs m) NONE (us @ vs) NONE"
proof -
  have u: "dseg m NONE us x" and v: "dseg m x vs NONE" using assms(1) by (auto simp: dseg_append)
  define m1 where "m1 = (if us = [] then m else m(last us \<mapsto> (the (m (last us)))\<lparr>next_pfn := hd (vs @ [NONE])\<rparr>))"
  have "dseg m1 NONE us (hd (vs @ [NONE]))"
  proof (cases "us = []")
    case False
    then obtain g where "m (last us) = Some g" using dseg_page [OF u, of "last us"] by auto
    then show ?thesis using dseg_set_next [OF u False, of g "hd (vs @ [NONE])"] assms(2) False by (simp add: m1_def)
  qed simp
  moreover have v1: "dseg m1 x vs NONE"
  proof (rule dseg_cong [OF _ v])
    fix y assume "y \<in> set vs"
    moreover have "set us \<inter> set vs = {}" using assms(2) by auto
    ultimately have "us \<noteq> [] \<Longrightarrow> y \<noteq> last us" using last_in_set [of us] by blast
    then show "m1 y = m y" by (simp add: m1_def)
  qed
  ultimately show ?thesis
  proof (cases vs)
    case Nil
    then have "bridged us vs m = m1" by (simp add: bridged_def m1_def)
    then show ?thesis using \<open>dseg m1 NONE us (hd (vs @ [NONE]))\<close> Nil by simp
  next
    case (Cons y ys)
    then obtain g where g: "m1 y = Some g" using v1 by auto
    let ?m2 = "m1(y \<mapsto> g\<lparr>prev_pfn := last (NONE # us)\<rparr>)"
    have "bridged us vs m = ?m2" unfolding bridged_def Let_def m1_def [symmetric] using Cons g by simp
    moreover have "dseg ?m2 (last (NONE # us)) vs NONE" using dseg_set_prev [of m1 x y ys NONE g] v1 g assms(2) Cons by simp
    moreover have "dseg ?m2 NONE us (hd (vs @ [NONE]))"
      using dseg_upd_other [of y us m1 NONE] \<open>dseg m1 NONE us (hd (vs @ [NONE]))\<close> assms(2) Cons by auto
    ultimately show ?thesis by (simp add: dseg_append)
  qed
qed

text \<open>The two halves of taking \<open>x\<close> out of a list: the link before it and the link behind it.\<close>

lemma unlink_before:
  assumes "zone_ok lo hi s" "dseg (page_at s) NONE (us @ x # vs) NONE" "distinct (us @ x # vs)"
    "area_at s ZONE_NORMAL k = Some \<lparr>head_pfn = hd (us @ x # vs @ [NONE]), nr_free = m\<rparr>"
  shows "\<exists>s1. (if last (NONE # us) \<noteq> NONE then upd_page (last (NONE # us)) (\<lambda>q. q\<lparr>next_pfn := hd (vs @ [NONE])\<rparr>) s
      else upd_area ZONE_NORMAL k (\<lambda>a. a\<lparr>head_pfn := hd (vs @ [NONE])\<rparr>) s) = Some s1 \<and>
    page_at s1 = (if us = [] then page_at s
      else (page_at s)(last us \<mapsto> (the (page_at s (last us)))\<lparr>next_pfn := hd (vs @ [NONE])\<rparr>)) \<and>
    zone_ok lo hi s1 \<and> same_rest (set (us @ x # vs)) s s1 \<and>
    (\<forall>j. area_at s1 ZONE_NORMAL j =
       (if j = k then Some \<lparr>head_pfn = hd (us @ vs @ [NONE]), nr_free = m\<rparr> else area_at s ZONE_NORMAL j))"
proof (cases "us = []")
  case True
  then show ?thesis using assms(1,4) same_rest_area by (simp add: upd_area_set zone_ok_area area_at_set)
next
  case False
  have u: "last us \<in> set (us @ x # vs)" using last_in_set [OF False] by simp
  have p: "page_at s (last us) = Some (the (page_at s (last us)))" "last us \<noteq> NONE"
    using dseg_page [OF assms(2) u] by (auto simp: page_at_def)
  have "same_rest (set (us @ x # vs)) s (set_page (last us) ((the (page_at s (last us)))\<lparr>next_pfn := hd (vs @ [NONE])\<rparr>) s)"
    using same_rest_mono [OF same_rest_page [OF p(1)], of "set (us @ x # vs)"] u by simp
  then show ?thesis using False assms(1,4) p(2) upd_page_set [OF p(1)] page_at_set [OF p(1)] zone_ok_page [OF p(1)] by simp
qed

lemma unlink_behind:
  assumes "zone_ok lo hi s1" "dseg (page_at s) NONE (us @ x # vs) NONE" "same_rest (set (us @ x # vs)) s s1"
    "page_at s1 = (if us = [] then page_at s
      else (page_at s)(last us \<mapsto> (the (page_at s (last us)))\<lparr>next_pfn := hd (vs @ [NONE])\<rparr>))"
  shows "\<exists>s2. (if hd (vs @ [NONE]) \<noteq> NONE then upd_page (hd (vs @ [NONE])) (\<lambda>q. q\<lparr>prev_pfn := last (NONE # us)\<rparr>) s1 else Some s1) = Some s2 \<and>
    page_at s2 = bridged us vs (page_at s) \<and> zone_ok lo hi s2 \<and> same_rest (set (us @ x # vs)) s s2 \<and> zones s2 = zones s1"
proof (cases "vs = []")
  case True
  then show ?thesis using assms(1,3) unfolding bridged_def Let_def assms(4) [symmetric] by simp
next
  case False
  have v: "hd vs \<in> set (us @ x # vs)" using hd_in_set [OF False] by simp
  have p: "page_at s1 (hd vs) = Some (the (page_at s1 (hd vs)))" "hd vs \<noteq> NONE"
    using dseg_page [OF assms(2) v] assms(3) by (auto simp: page_at_def same_rest_def)
  let ?s = "set_page (hd vs) ((the (page_at s1 (hd vs)))\<lparr>prev_pfn := last (NONE # us)\<rparr>) s1"
  have "same_rest (set (us @ x # vs)) s ?s"
    using same_rest_mono [OF same_rest_trans [OF assms(3) same_rest_page [OF p(1)]], of "set (us @ x # vs)"] v by (simp add: insert_absorb)
  then show ?thesis unfolding bridged_def Let_def assms(4) [symmetric]
    using False p(2) upd_page_set [OF p(1)] page_at_set [OF p(1)] assms(1) zone_ok_page [OF p(1)] by simp
qed

lemma free_area_del_law:
  assumes "zone_ok lo hi s" "k < MAX_ORDER" "dseg (page_at s) NONE (us @ x # vs) NONE" "distinct (us @ x # vs)"
    "area_at s ZONE_NORMAL k = Some \<lparr>head_pfn = hd (us @ x # vs @ [NONE]), nr_free = of_nat (length us + length vs + 1)\<rparr>"
    "length us + length vs + 1 < 2 ^ 64" "page_at s x = Some g"
  shows "\<exists>s'. free_area_del ZONE_NORMAL k x s = Some s' \<and> zone_ok lo hi s' \<and>
    page_at s' = (bridged us vs (page_at s))(x \<mapsto> page_mark_allocated ZONE_NORMAL k g) \<and>
    (\<forall>j. area_at s' ZONE_NORMAL j =
       (if j = k then Some \<lparr>head_pfn = hd (us @ vs @ [NONE]), nr_free = of_nat (length us + length vs)\<rparr>
        else area_at s ZONE_NORMAL j)) \<and>
    same_rest (set (us @ x # vs)) s s'"
proof -
  obtain z where z: "zones s ZONE_NORMAL = Some z" using assms(1) by (auto simp: zone_ok_def)
  have zt: "ztype z = ZONE_NORMAL" by (cases "ztype z") simp
  have xg: "prev_pfn g = last (NONE # us)" "next_pfn g = hd (vs @ [NONE])"
    using assms(3,7) by (auto simp: dseg_append)
  let ?A = "\<lambda>n j. if j = k then Some \<lparr>head_pfn = hd (us @ vs @ [NONE]), nr_free = of_nat n\<rparr> else area_at s ZONE_NORMAL j"
  obtain s1 where s1: "(if prev_pfn g \<noteq> NONE then upd_page (prev_pfn g) (\<lambda>q. q\<lparr>next_pfn := next_pfn g\<rparr>) s
      else upd_area ZONE_NORMAL k (\<lambda>a. a\<lparr>head_pfn := next_pfn g\<rparr>) s) = Some s1"
    "page_at s1 = (if us = [] then page_at s else (page_at s)(last us \<mapsto> (the (page_at s (last us)))\<lparr>next_pfn := hd (vs @ [NONE])\<rparr>))"
    "zone_ok lo hi s1" "same_rest (set (us @ x # vs)) s s1" "\<forall>j. area_at s1 ZONE_NORMAL j = ?A (length us + length vs + 1) j"
    using unlink_before [OF assms(1,3-5)] unfolding xg by blast
  have "last us \<noteq> x" if "us \<noteq> []" using assms(4) last_in_set [OF that] by auto
  then have x1: "page_at s1 x = Some g" using s1(2) assms(7) by auto
  obtain s2 where s2: "(if next_pfn g \<noteq> NONE then upd_page (next_pfn g) (\<lambda>q. q\<lparr>prev_pfn := prev_pfn g\<rparr>) s1 else Some s1) = Some s2"
    "page_at s2 = bridged us vs (page_at s)" "zone_ok lo hi s2" "same_rest (set (us @ x # vs)) s s2" "zones s2 = zones s1"
    using unlink_behind [OF s1(3) assms(3) s1(4,2)] unfolding xg by blast
  have a2: "area_at s2 ZONE_NORMAL j = ?A (length us + length vs + 1) j" for j using s1(5) s2(5) by (simp add: area_at_def)
  have x2: "page_at s2 x = Some g" using s2(2) bridged_other [of x us vs] assms(4,7) by simp
  define s3 where "s3 = set_area k \<lparr>head_pfn = hd (us @ vs @ [NONE]), nr_free = of_nat (length us + length vs)\<rparr> s2"
  have "(of_nat (length us + length vs + 1) :: u64) \<noteq> 0"
    using assms(6) unat_of_nat64 [of "length us + length vs + 1"] by auto
  then have e3: "upd_area ZONE_NORMAL k (\<lambda>a. if nr_free a \<noteq> 0 then a\<lparr>nr_free := nr_free a - 1\<rparr> else a) s2 = Some s3"
    using a2 [of k] by (simp add: upd_area_set s3_def)
  have x3: "page_at s3 x = Some g" using x2 by (simp add: s3_def)
  have r3: "same_rest (set (us @ x # vs)) s s3"
    using same_rest_trans [OF s2(4) same_rest_area [of "{}" s2]] by (simp add: s3_def)
  define s4 where "s4 = set_page x (page_mark_allocated ZONE_NORMAL k g) s3"
  have "free_area_del ZONE_NORMAL k x s = Some s4"
    using z zt assms(7) s1(1) x1 s2(1) e3 upd_page_set [OF x3]
    by (simp add: free_area_del_def page_from_pfn_def s4_def cong: if_cong)
  moreover have "zone_ok lo hi s4"
    using s2(3) zone_ok_area [of s2 k] a2 [of k] zone_ok_page [OF x3] by (simp add: s4_def s3_def)
  moreover have "page_at s4 = (bridged us vs (page_at s))(x \<mapsto> page_mark_allocated ZONE_NORMAL k g)"
    using page_at_set [OF x3] s2(2) by (simp add: s4_def s3_def)
  moreover have "area_at s4 ZONE_NORMAL j = ?A (length us + length vs) j" for j
    using area_at_set [of s2 k] a2 by (simp add: s4_def s3_def)
  moreover have "same_rest (set (us @ x # vs)) s s4"
    using same_rest_mono [OF same_rest_trans [OF r3 same_rest_page [OF x3]], of "set (us @ x # vs)"] by (simp add: s4_def)
  ultimately show ?thesis by blast
qed

lemma length_list:
  assumes "blocks lo hi F" "k < MAX_ORDER" "distinct (F k)" "hi < 2 ^ 52"
  shows "length (F k) < 2 ^ 52"
proof -
  have "unat ` set (F k) \<subseteq> {..<hi}" using assms(1,2) block_ok_bounds unfolding blocks_def by blast
  then have "card (unat ` set (F k)) \<le> hi" using card_mono [of "{..<hi}"] by fastforce
  moreover have "card (unat ` set (F k)) = length (F k)"
    using distinct_card [OF assms(3)] card_image [of unat "set (F k)"] by (simp add: inj_on_def word_unat_eq_iff)
  ultimately show ?thesis using assms(4) by simp
qed

lemma free_pages_del:
  assumes "blocks lo hi F" "k < MAX_ORDER" "F k = us @ x # vs" "distinct (F k)"
  shows "free_pages (F(k := us @ vs)) = free_pages F - blk x k"
proof -
  have d: "blk x k \<inter> blk y j = {}" if "j < MAX_ORDER" "y \<in> set (F j)" "(y, j) \<noteq> (x, k)" for y j
    using assms(1-3) that unfolding blocks_def by (metis in_set_conv_decomp)
  have "blk x k \<inter> blk y k = {}" if "y \<in> set (us @ vs)" for y
    using d [OF assms(2), of y] that assms(3,4) by auto
  moreover have "blk x k \<inter> blk y j = {}" if "j \<in> {..<MAX_ORDER} - {k}" "y \<in> set (F j)" for y j
    using d [of j y] that by auto
  ultimately show ?thesis
    unfolding free_pages_upd [OF assms(2)] free_pages_split [OF assms(2), of F] assms(3) by auto
qed

lemma buddy_del:
  assumes inv: "buddy_inv lo hi s F" and k: "k < MAX_ORDER" and F: "F k = us @ x # vs"
  shows "\<exists>s' g. free_area_del ZONE_NORMAL k x s = Some s' \<and> buddy_inv lo hi s' (F(k := us @ vs)) \<and>
    same_rest (set (F k)) s s' \<and> page_at s' x = Some (page_mark_allocated ZONE_NORMAL k g)"
proof -
  have z: "zone_ok lo hi s" and l: "lists s F" and m: "marks s F" and b: "blocks lo hi F"
    using inv by (auto simp: buddy_inv_def)
  have L: "dseg (page_at s) NONE (F j) NONE" "distinct (F j)"
    "area_at s ZONE_NORMAL j = Some \<lparr>head_pfn = hd (F j @ [NONE]), nr_free = of_nat (length (F j))\<rparr>"
    if "j < MAX_ORDER" for j using l that by (auto simp: lists_def)
  have Lp: "\<forall>y \<in> set (us @ x # vs). page_at s y \<noteq> None" using dseg_page [OF L(1) [OF k, unfolded F]] by blast
  obtain g where g: "page_at s x = Some g" using Lp by auto
  have len: "length us + length vs + 1 < 2 ^ 64"
    using length_list [OF b k L(2) [OF k]] z F by (simp add: zone_ok_def)
  obtain s' where s': "free_area_del ZONE_NORMAL k x s = Some s'" "zone_ok lo hi s'"
    "page_at s' = (bridged us vs (page_at s))(x \<mapsto> page_mark_allocated ZONE_NORMAL k g)"
    "\<forall>j. area_at s' ZONE_NORMAL j =
       (if j = k then Some \<lparr>head_pfn = hd (us @ vs @ [NONE]), nr_free = of_nat (length us + length vs)\<rparr>
        else area_at s ZONE_NORMAL j)"
    "same_rest (set (us @ x # vs)) s s'"
    using free_area_del_law [OF z k L(1,2) [OF k, unfolded F] _ len g] L(3) [OF k] F by auto
  have other: "x \<notin> set (F j)" "y \<in> set (F j) \<Longrightarrow> y \<notin> set (F k)" if "j < MAX_ORDER" "j \<noteq> k" for j y
    using heads_unique [OF b that(1) k] that(2) F by auto
  have xus: "x \<notin> set (us @ vs)" using L(2) [OF k] F by simp
  have "dseg (page_at s') NONE (F j) NONE" if "j < MAX_ORDER" "j \<noteq> k" for j
  proof (rule dseg_cong [OF _ L(1) [OF that(1)]])
    fix y assume "y \<in> set (F j)"
    then have "y \<noteq> x" "y \<notin> set us" "y \<notin> set vs" using other [OF that] F by auto
    then show "page_at s' y = page_at s y" using bridged_other s'(3) by simp
  qed
  moreover have "dseg (page_at s') NONE (us @ vs) NONE"
    unfolding s'(3) using dseg_upd_other [OF xus] bridged_dseg L(1,2) [OF k] F by metis
  moreover have "distinct (us @ vs)" using L(2) [OF k] F by simp
  ultimately have "lists s' (F(k := us @ vs))" using L(2,3) s'(4) F k by (simp add: lists_def)
  moreover have sm: "same_marks (page_at s) (bridged us vs (page_at s))" using Lp by (intro bridged_marks) auto
  have "marks s' (F(k := us @ vs))"
    unfolding marks_def
  proof (intro allI impI)
    fix y q assume q: "page_at s' y = Some q"
    show "(page_flags q AND PAGE_FLAG_BUDDY \<noteq> 0 \<longleftrightarrow> (\<exists>j < MAX_ORDER. y \<in> set ((F(k := us @ vs)) j))) \<and>
      (\<forall>j < MAX_ORDER. y \<in> set ((F(k := us @ vs)) j) \<longrightarrow> page_order q = of_nat j)"
    proof (cases "y = x")
      case True
      then have "page_flags q = 0" using q s'(3) by auto
      then show ?thesis using True other(1) xus by auto
    next
      case False
      then have "bridged us vs (page_at s) y = Some q" using q s'(3) by simp
      then obtain h where h: "page_at s y = Some h" "page_flags q = page_flags h" "page_order q = page_order h"
        using sm unfolding same_marks_def by blast
      have "y \<in> set ((F(k := us @ vs)) j) \<longleftrightarrow> y \<in> set (F j)" for j using False F by auto
      then show ?thesis using m h unfolding marks_def by auto
    qed
  qed
  moreover have "blocks lo hi (F(k := us @ vs))" using b F unfolding blocks_def by auto
  ultimately show ?thesis using s' F by (auto simp: buddy_inv_def)
qed

subsection \<open>Buddies\<close>

lemma MAX_ORDER_le: "k < MAX_ORDER \<Longrightarrow> k < 64" "k < MAX_ORDER \<Longrightarrow> k < 19"
  by (simp_all add: MAX_ORDER_def)

lemma unat_order_to_pages: "k < 64 \<Longrightarrow> unat (order_to_pages k) = 2 ^ k"
  by (simp add: order_to_pages_def push_bit_eq_mult unat_pow2)

lemma xor_one_nat: "(q :: nat) XOR 1 = (if even q then q + 1 else q - 1)"
  by (simp add: xor_Suc_0_eq)

lemma unat_buddy:
  assumes "2 ^ k dvd unat x" "k < 64"
  shows "unat (buddy_of x k) = (if even (unat x div 2 ^ k) then unat x + 2 ^ k else unat x - 2 ^ k)"
proof -
  obtain q where q: "unat x = 2 ^ k * q" using assms(1) by blast
  have "unat (buddy_of x k) = push_bit k q XOR push_bit k 1"
    using assms(2) q by (simp add: buddy_of_def unsigned_xor_eq unat_order_to_pages push_bit_eq_mult mult.commute)
  also have "\<dots> = 2 ^ k * (q XOR 1)" unfolding push_bit_xor [symmetric] by (simp add: push_bit_eq_mult)
  finally show ?thesis using q unfolding xor_one_nat by (simp add: algebra_simps)
qed

lemma buddy_involution: "buddy_of (buddy_of x k) k = x"
  by (simp add: buddy_of_def xor.assoc)

lemma buddy_neq: "k < 64 \<Longrightarrow> buddy_of x k \<noteq> x"
proof -
  assume "k < 64"
  then have "order_to_pages k \<noteq> 0" using unat_order_to_pages [of k] by auto
  moreover have "order_to_pages k = x XOR buddy_of x k" by (simp add: buddy_of_def flip: xor.assoc)
  ultimately show ?thesis by auto
qed

text \<open>Two buddies together are a block of the next order.\<close>

lemma buddy_merge:
  assumes "block_ok lo hi x k" "block_ok lo hi (buddy_of x k) k" "k + 1 < MAX_ORDER"
  defines "h \<equiv> (if buddy_of x k < x then buddy_of x k else x)"
  shows "block_ok lo hi h (k + 1)" "blk h (k + 1) = blk x k \<union> blk (buddy_of x k) k"
proof -
  let ?b = "buddy_of x k"
  have d: "2 ^ k dvd unat x" and k: "k < 64" using assms(1) MAX_ORDER_le by (auto simp: block_ok_def)
  note u = unat_buddy [OF d k]
  obtain q where q: "unat x = 2 ^ k * q" using d by blast
  have "unat h = (if even q then unat x else unat x - 2 ^ k) \<and> 2 ^ (k + 1) dvd unat h \<and>
      blk h (k + 1) = blk x k \<union> blk ?b k"
  proof (cases "even q")
    case True
    then have b: "unat ?b = unat x + 2 ^ k" using u q by simp
    then have "h = x" by (simp add: h_def word_less_nat_alt)
    moreover have "2 ^ (k + 1) dvd unat x" using True q by auto
    ultimately show ?thesis using True b by (auto simp: blk_def)
  next
    case False
    then have b: "unat ?b = unat x - 2 ^ k" "2 ^ k \<le> unat x" using u q by (auto simp: odd_pos Suc_leI)
    moreover have "unat x - 2 ^ k < unat x" using assms(1) by (intro diff_less) (auto simp: block_ok_def)
    ultimately have "h = ?b" by (auto simp: h_def word_less_nat_alt)
    moreover have "unat x - 2 ^ k = 2 ^ k * (q - 1)" using q by (simp add: algebra_simps)
    with False have "2 ^ (k + 1) dvd unat x - 2 ^ k" by auto
    ultimately show ?thesis using False b by (auto simp: blk_def)
  qed
  then show "block_ok lo hi h (k + 1)" "blk h (k + 1) = blk x k \<union> blk ?b k"
    using assms(1-3) u q unfolding block_ok_def h_def by (auto split: if_splits)
qed

end
