(* ===== verification/Buddy_Spec.thy ===== *)
theory Buddy_Spec
  imports Buddy_Lists
begin

text \<open>
  What allocating and freeing a block does to the free pages of a zone, and that the free lists are
  determined by them: merging leaves no trace of the order in which blocks came back.
\<close>

subsection \<open>The checks made before merging\<close>

lemma page_to_phys_block:
  assumes "unat x < 2 ^ 52"
  shows "page_to_phys x = x * PAGE_SIZE" "x \<noteq> NONE" "unat (x * PAGE_SIZE) = unat x * 4096" "phys_to_pfn (x * PAGE_SIZE) = x"
proof -
  show n: "x \<noteq> NONE" using assms unat_UINT64_MAX by (auto simp: PAGE_LIST_NONE_def)
  show "page_to_phys x = x * PAGE_SIZE" using n by (simp add: page_to_phys_def page_to_pfn_def)
  show u: "unat (x * PAGE_SIZE) = unat x * 4096" using assms by (simp add: unat_word_ariths PAGE_SIZE_def)
  have "unat (phys_to_pfn (x * PAGE_SIZE)) = unat x" using u by (simp add: phys_to_pfn_def unat_div PAGE_SIZE_def)
  then show "phys_to_pfn (x * PAGE_SIZE) = x" by (simp add: word_unat_eq_iff)
qed

lemma aligned_and:
  fixes x :: u64
  assumes "n < 64"
  shows "x AND (2 ^ n - 1) = 0 \<longleftrightarrow> 2 ^ n dvd unat x"
proof -
  have "x AND (2 ^ n - 1) = take_bit n x" by (simp add: take_bit_eq_mask mask_eq_exp_minus_1)
  moreover have "take_bit n x = 0 \<longleftrightarrow> unat (take_bit n x) = 0" by (simp add: unat_eq_zero)
  moreover have "unat (take_bit n x) = unat x mod 2 ^ n" by (simp only: unsigned_take_bit_eq) (simp add: take_bit_eq_mod)
  ultimately show ?thesis by (simp add: dvd_eq_mod_eq_0)
qed

lemma zone_block_valid_iff:
  assumes "unat (zone_start_pfn z) = lo" "unat (zone_end_pfn z) = hi" "lo \<le> hi" "hi < 2 ^ 52" "unat x < 2 ^ 52"
  shows "zone_block_valid z (x * PAGE_SIZE) k \<longleftrightarrow>
    k < MAX_ORDER \<and> 2 ^ k dvd unat x \<and> lo \<le> unat x \<and> unat x + 2 ^ k \<le> hi"
proof (cases "k < MAX_ORDER")
  case True
  then have k: "k < 19" by (simp add: MAX_ORDER_def)
  then have k2: "(2 :: nat) ^ k < 2 ^ 19" by (intro power_strict_increasing) auto
  let ?a = "x * PAGE_SIZE" and ?n = "order_to_bytes k"
  have n: "?n = 2 ^ (k + 12)" by (simp add: order_to_bytes_def order_to_pages_def push_bit_eq_mult PAGE_SIZE_def power_add)
  then have un: "unat ?n = 2 ^ k * 4096" using unat_pow2 [of "k + 12"] k by (simp add: power_add)
  note ua = page_to_phys_block(3) [OF assms(5)]
  have s: "unat (zone_phys_start z) = lo * 4096" "unat (zone_phys_end z) = hi * 4096"
    using page_to_phys_block(3) [of "zone_start_pfn z"] page_to_phys_block(3) [of "zone_end_pfn z"] assms(1-4)
    by (simp_all add: zone_phys_start_def zone_phys_end_def)
  have al: "?a AND (?n - 1) = 0 \<longleftrightarrow> 2 ^ k dvd unat x"
    unfolding n using aligned_and [of "k + 12" ?a] k ua by (simp add: power_add)
  show ?thesis
  proof (cases "unat x + 2 ^ k < 2 ^ 52")
    case True
    then have "unat (?a + ?n) = (unat x + 2 ^ k) * 4096"
      using ua un by (subst unat_add_u64) (simp_all add: algebra_simps)
    then show ?thesis using k s ua al
      by (auto simp: zone_block_valid_def order_valid_def Let_def word_le_nat_alt word_less_nat_alt MAX_ORDER_def)
  next
    case False
    then have "unat (?a + ?n) = unat ?a + unat ?n - 2 ^ 64"
      using unat_add_wrap [of ?a ?n] ua un by simp
    then have "?a + ?n < ?a" using un k2 False ua by (simp add: word_less_nat_alt)
    then show ?thesis using False assms(4) by (auto simp: zone_block_valid_def Let_def)
  qed
qed (simp add: zone_block_valid_def order_valid_def)

definition span :: "nat set \<Rightarrow> u64 set" where
  "span A = {x. unat x \<in> A}"

lemma span_mono: "A \<subseteq> B \<Longrightarrow> span A \<subseteq> span B"
  by (auto simp: span_def)

lemma blk_free: "k < MAX_ORDER \<Longrightarrow> x \<in> set (F k) \<Longrightarrow> blk x k \<subseteq> free_pages F"
  unfolding free_pages_def by blast

lemma heads_span: "k < MAX_ORDER \<Longrightarrow> set (F k) \<subseteq> span (free_pages F)"
  using heads_free by (auto simp: span_def)

lemma buddy_inv_zone:
  assumes "buddy_inv lo hi s F"
  shows "\<exists>z. zones s ZONE_NORMAL = Some z \<and> unat (zone_start_pfn z) = lo \<and> unat (zone_end_pfn z) = hi"
    "lo \<le> hi" "hi < 2 ^ 52"
  using assms by (auto simp: buddy_inv_def zone_ok_def)

text \<open>The test of \<open>buddy_free_order_locked\<close>: the buddy is in the free list of this order.\<close>

lemma buddy_test:
  assumes inv: "buddy_inv lo hi s F" and x: "block_ok lo hi x k" "k + 1 < MAX_ORDER"
    and z: "zones s ZONE_NORMAL = Some z"
  defines "b \<equiv> buddy_of x k"
  shows "if zone_contains_pfn z b \<and> zone_block_valid z (pfn_to_phys b) k
    then page_is_buddy s b k = Some (b \<in> set (F k)) else b \<notin> set (F k)"
proof -
  have zb: "unat (zone_start_pfn z) = lo" "unat (zone_end_pfn z) = hi" "lo \<le> hi" "hi < 2 ^ 52"
    using buddy_inv_zone [OF inv] z by auto
  have k: "k < MAX_ORDER" "k < 19" using x(2) by (simp_all add: MAX_ORDER_def)
  have bl: "block_ok lo hi b k" if "b \<in> set (F k)" using inv that k by (auto simp: buddy_inv_def blocks_def)
  have c: "zone_contains_pfn z b \<longleftrightarrow> lo \<le> unat b \<and> unat b < hi"
    using zb by (simp add: zone_contains_pfn_def word_le_nat_alt word_less_nat_alt)
  show ?thesis
  proof (cases "zone_contains_pfn z b \<and> zone_block_valid z (pfn_to_phys b) k")
    case True
    then have b: "lo \<le> unat b" "unat b < hi" using c by auto
    obtain g where g: "page_at s b = Some g" using inv b by (auto simp: buddy_inv_def zone_ok_def)
    have bN: "b \<noteq> NONE" using g by (auto simp: page_at_def)
    have m: "page_flags g AND PAGE_FLAG_BUDDY \<noteq> 0 \<longleftrightarrow> (\<exists>j < MAX_ORDER. b \<in> set (F j))"
      "\<And>j. j < MAX_ORDER \<Longrightarrow> b \<in> set (F j) \<Longrightarrow> page_order g = of_nat j"
      using inv g by (auto simp: buddy_inv_def marks_def)
    have u: "unat (of_nat j :: u8) = j" if "j < MAX_ORDER" for j
      using that by (simp add: unsigned_of_nat take_bit_nat_eq_self MAX_ORDER_def)
    have "(page_flags g AND PAGE_FLAG_BUDDY \<noteq> 0 \<and> unat (page_order g) = k) \<longleftrightarrow> b \<in> set (F k)"
      using m u k(1) by metis
    then show ?thesis using True g bN by (simp add: page_is_buddy_def)
  next
    case False
    have "b \<notin> set (F k)"
    proof
      assume "b \<in> set (F k)"
      note bo = bl [OF this]
      then have "zone_contains_pfn z b" "unat b < 2 ^ 52" using block_ok_bounds [OF bo] c zb(4) by auto
      moreover have "zone_block_valid z (pfn_to_phys b) k"
        using zone_block_valid_iff [OF zb calculation(2)] bo by (simp add: pfn_to_phys_def block_ok_def)
      ultimately show False using False by blast
    qed
    then show ?thesis unfolding if_not_P [OF False] .
  qed
qed

text \<open>What merging reaches: a free-standing block \<open>x'\<close> of order \<open>k'\<close> that holds all that was merged.\<close>

definition merged_to :: "nat \<Rightarrow> nat \<Rightarrow> nat set \<Rightarrow> (nat \<Rightarrow> u64 list) \<Rightarrow> frames \<Rightarrow> u64 \<Rightarrow> nat \<Rightarrow> frames \<Rightarrow> bool" where
  "merged_to lo hi B F s x' k' s' \<longleftrightarrow> (\<exists>F'. buddy_inv lo hi s' F' \<and> block_ok lo hi x' k' \<and>
     blk x' k' \<inter> free_pages F' = {} \<and> blk x' k' \<union> free_pages F' = B \<union> free_pages F \<and>
     (k' + 1 < MAX_ORDER \<longrightarrow> buddy_of x' k' \<notin> set (F' k')) \<and> (\<forall>j. set (F' j) \<subseteq> set (F j)) \<and>
     same_rest (span (B \<union> free_pages F)) s s')"

lemma merged_to_step:
  assumes "merged_to lo hi C G s1 x' k' s'" "same_rest (span (B \<union> free_pages F)) s s1"
    "\<And>j. set (G j) \<subseteq> set (F j)" "C \<union> free_pages G = B \<union> free_pages F"
  shows "merged_to lo hi B F s x' k' s'"
proof -
  obtain F' where F': "buddy_inv lo hi s' F'" "block_ok lo hi x' k'" "blk x' k' \<inter> free_pages F' = {}"
    "blk x' k' \<union> free_pages F' = B \<union> free_pages F" "k' + 1 < MAX_ORDER \<longrightarrow> buddy_of x' k' \<notin> set (F' k')"
    "\<forall>j. set (F' j) \<subseteq> set (G j)" "same_rest (span (B \<union> free_pages F)) s1 s'"
    using assms(1) unfolding merged_to_def assms(4) by blast
  have "same_rest (span (B \<union> free_pages F)) s s'" using same_rest_trans [OF assms(2) F'(7)] by simp
  moreover have "\<forall>j. set (F' j) \<subseteq> set (F j)" using F'(6) assms(3) by blast
  ultimately show ?thesis unfolding merged_to_def using F'(1-5) by blast
qed

lemma free_merge_law:
  assumes "buddy_inv lo hi s F" "block_ok lo hi x k" "blk x k \<inter> free_pages F = {}"
  shows "\<exists>x' k' s'. free_merge ZONE_NORMAL (MAX_ORDER - k) x k s = Some (x', k', s') \<and>
    merged_to lo hi (blk x k) F s x' k' s'"
  using assms
proof (induction "MAX_ORDER - k" arbitrary: x k s F)
  case 0
  then show ?case by (simp add: block_ok_def)
next
  case (Suc n)
  note inv = Suc.prems(1) and x = Suc.prems(2)
  obtain z where z: "zones s ZONE_NORMAL = Some z" using buddy_inv_zone [OF inv] by blast
  have stop: "merged_to lo hi (blk x k) F s x k s" if "k + 1 < MAX_ORDER \<longrightarrow> buddy_of x k \<notin> set (F k)"
    using Suc.prems that same_rest_refl unfolding merged_to_def by blast
  have n: "MAX_ORDER - k = Suc n" "n = MAX_ORDER - (k + 1)" using Suc.hyps(2) by auto
  show ?case
  proof (cases "k + 1 < MAX_ORDER \<and> buddy_of x k \<in> set (F k)")
    case False
    then show ?thesis using stop z buddy_test [OF inv x _ z]
      unfolding n(1) by (auto simp: buddy_of_def page_from_pfn_def split: if_splits)
  next
    case True
    let ?b = "buddy_of x k" and ?h = "if buddy_of x k < x then buddy_of x k else x"
    obtain us vs where F: "F k = us @ ?b # vs" using True by (meson split_list)
    have k: "k < MAX_ORDER" using True by simp
    obtain s1 where s1: "free_area_del ZONE_NORMAL k ?b s = Some s1" "buddy_inv lo hi s1 (F(k := us @ vs))"
      "same_rest (set (F k)) s s1" using buddy_del [OF inv k F] by blast
    have b: "blocks lo hi F" "distinct (F k)" using inv k by (auto simp: buddy_inv_def lists_def)
    have bo: "block_ok lo hi ?b k" using b(1) True k by (auto simp: blocks_def)
    note m = buddy_merge [OF x bo conjunct1 [OF True]]
    note f = free_pages_del [OF b(1) k F b(2)]
    have sub: "blk ?b k \<subseteq> free_pages F" using blk_free [OF k] True by blast
    have d: "blk ?h (k + 1) \<inter> free_pages (F(k := us @ vs)) = {}" using m(2) f Suc.prems(3) by blast
    obtain x' k' s' where r: "free_merge ZONE_NORMAL n ?h (k + 1) s1 = Some (x', k', s')"
      "merged_to lo hi (blk ?h (k + 1)) (F(k := us @ vs)) s1 x' k' s'"
      using Suc.hyps(1) [OF n(2) s1(2) m(1) d] n(2) by auto
    have "blk ?h (k + 1) \<union> free_pages (F(k := us @ vs)) = blk x k \<union> free_pages F" using m(2) f sub by blast
    moreover have "same_rest (span (blk x k \<union> free_pages F)) s s1"
      using same_rest_mono [OF s1(3)] heads_span [OF k, of F] span_mono [of "free_pages F" "blk x k \<union> free_pages F"] by blast
    moreover have "set ((F(k := us @ vs)) j) \<subseteq> set (F j)" for j using F by auto
    ultimately have "merged_to lo hi (blk x k) F s x' k' s'" by (intro merged_to_step [OF r(2)])
    then show ?thesis using r(1) s1(1) True z buddy_test [OF inv x _ z]
      unfolding n(1) by (auto simp: buddy_of_def page_from_pfn_def split: if_splits)
  qed
qed

lemma coalesced_sub: "coalesced F \<Longrightarrow> (\<And>j. set (F' j) \<subseteq> set (F j)) \<Longrightarrow> coalesced F'"
  unfolding coalesced_def by blast

lemma coalesced_add:
  assumes "coalesced F" "k + 1 < MAX_ORDER \<longrightarrow> buddy_of x k \<notin> set (F k)"
  shows "coalesced (F(k := x # F k))"
  unfolding coalesced_def
proof (intro allI impI ballI)
  fix j y assume j: "j + 1 < MAX_ORDER" and y: "y \<in> set ((F(k := x # F k)) j)"
  have n: "buddy_of y j \<noteq> y" using buddy_neq j by (simp add: MAX_ORDER_def)
  show "buddy_of y j \<notin> set ((F(k := x # F k)) j)"
    using assms j y n buddy_involution [of y j] by (auto simp: coalesced_def split: if_splits)
qed

text \<open>Freeing a block: exactly its pages become free.\<close>

lemma buddy_free_law:
  assumes inv: "buddy_inv lo hi s F" "coalesced F" and x: "block_ok lo hi x k" "blk x k \<inter> free_pages F = {}"
  shows "\<exists>h s' F'. buddy_free_order_locked ZONE_NORMAL (x * PAGE_SIZE) k s = Some (h, s') \<and> buddy_inv lo hi s' F' \<and>
    coalesced F' \<and> free_pages F' = free_pages F \<union> blk x k \<and> same_rest (span (free_pages F \<union> blk x k)) s s'"
proof -
  have pfn: "phys_to_pfn (x * PAGE_SIZE) = x"
    using page_to_phys_block(4) [of x] block_ok_bounds [OF x(1)] buddy_inv_zone(3) [OF inv(1)] by simp
  obtain x' k' s1 where m: "free_merge ZONE_NORMAL (MAX_ORDER - k) x k s = Some (x', k', s1)"
    "merged_to lo hi (blk x k) F s x' k' s1" using free_merge_law [OF inv(1) x] by blast
  obtain G where G: "buddy_inv lo hi s1 G" "block_ok lo hi x' k'" "blk x' k' \<inter> free_pages G = {}"
    "blk x' k' \<union> free_pages G = blk x k \<union> free_pages F" "k' + 1 < MAX_ORDER \<longrightarrow> buddy_of x' k' \<notin> set (G k')"
    "\<forall>j. set (G j) \<subseteq> set (F j)" "same_rest (span (blk x k \<union> free_pages F)) s s1"
    using m(2) unfolding merged_to_def by blast
  have k': "k' < MAX_ORDER" using G(2) by (simp add: block_ok_def)
  obtain s2 where s2: "free_area_add ZONE_NORMAL k' x' s1 = Some s2" "buddy_inv lo hi s2 (G(k' := x' # G k'))"
    "same_rest (insert x' (set (G k'))) s1 s2" using buddy_add [OF G(1-3)] by blast
  have "insert x' (set (G k')) \<subseteq> span (blk x' k' \<union> free_pages G)"
    using heads_span [OF k', of G] by (auto simp: span_def)
  then have "same_rest (span (blk x k \<union> free_pages F)) s s2"
    using same_rest_trans [OF G(7) s2(3)] unfolding G(4) by (metis sup.absorb1)
  moreover have "coalesced (G(k' := x' # G k'))"
    using coalesced_add [OF coalesced_sub [OF inv(2), of G]] G(5,6) by blast
  ultimately show ?thesis
    using m(1) pfn s2(1,2) free_pages_add [OF k', of G x'] G(4)
    by (auto simp: buddy_free_order_locked_def page_from_pfn_def Un_commute)
qed

text \<open>Pages that head no free block may be marked freely.\<close>

lemma buddy_touch:
  assumes "buddy_inv lo hi s F" "page_at s x = Some g" "\<And>k. k < MAX_ORDER \<Longrightarrow> x \<notin> set (F k)" "page_flags h AND PAGE_FLAG_BUDDY = 0"
  shows "buddy_inv lo hi (set_page x h s) F"
proof -
  have p: "page_at (set_page x h s) = (page_at s)(x \<mapsto> h)" using page_at_set [OF assms(2)] .
  have "zone_ok lo hi (set_page x h s)" using assms(1) zone_ok_page [OF assms(2)] by (simp add: buddy_inv_def)
  moreover have "dseg ((page_at s)(x \<mapsto> h)) NONE (F k) NONE" if "k < MAX_ORDER" for k
    using dseg_upd_other [OF assms(3) [OF that]] assms(1) that by (simp add: buddy_inv_def lists_def)
  then have "lists (set_page x h s) F" using assms(1) p by (auto simp: buddy_inv_def lists_def)
  moreover have "marks (set_page x h s) F" using assms p by (auto simp: buddy_inv_def marks_def)
  ultimately show ?thesis using assms(1) by (simp add: buddy_inv_def)
qed

text \<open>What the search leaves: block \<open>x\<close> of order \<open>k\<close> is off its list.\<close>

definition taken :: "nat \<Rightarrow> nat \<Rightarrow> (nat \<Rightarrow> u64 list) \<Rightarrow> frames \<Rightarrow> u64 \<Rightarrow> nat \<Rightarrow> frames \<Rightarrow> bool" where
  "taken lo hi F s x k s' \<longleftrightarrow> (\<exists>vs g. F k = x # vs \<and> buddy_inv lo hi s' (F(k := vs)) \<and> same_rest (set (F k)) s s' \<and>
     page_at s' x = Some (page_mark_allocated ZONE_NORMAL k g))"

lemma alloc_search_law:
  assumes "buddy_inv lo hi s F" "\<forall>k \<in> set ks. k < MAX_ORDER"
  shows "if \<forall>k \<in> set ks. F k = [] then alloc_search ZONE_NORMAL ks s = Some (NONE, MAX_ORDER, s)
    else \<exists>x s'. \<exists>k \<in> set ks. alloc_search ZONE_NORMAL ks s = Some (x, k, s') \<and> x \<noteq> NONE \<and> taken lo hi F s x k s'"
  using assms(2)
proof (induction ks)
  case (Cons k ks)
  then have k: "k < MAX_ORDER" by simp
  have a: "area_at s ZONE_NORMAL k = Some \<lparr>head_pfn = hd (F k @ [NONE]), nr_free = of_nat (length (F k))\<rparr>"
    using assms(1) k by (auto simp: buddy_inv_def lists_def)
  show ?case
  proof (cases "F k")
    case Nil
    then have "alloc_search ZONE_NORMAL (k # ks) s = alloc_search ZONE_NORMAL ks s" using a by (simp add: free_area_pop_def)
    then show ?thesis using Cons Nil by (cases "\<forall>j \<in> set ks. F j = []") (simp_all del: alloc_search.simps, blast)
  next
    case (Cons x vs)
    obtain s' g where s': "free_area_del ZONE_NORMAL k x s = Some s'" "buddy_inv lo hi s' (F(k := vs))"
      "same_rest (set (F k)) s s'" "page_at s' x = Some (page_mark_allocated ZONE_NORMAL k g)"
      using buddy_del [OF assms(1) k, of "[]" x vs] Cons by auto
    have x: "x \<noteq> NONE" using s'(4) by (auto simp: page_at_def)
    moreover have "taken lo hi F s x k s'" using s' Cons unfolding taken_def by blast
    ultimately show ?thesis using s'(1) Cons a by (simp add: free_area_pop_def page_from_pfn_def)
  qed
qed simp

text \<open>Splitting: the upper halves go back to the free lists, the lowest block of the target order stays out.\<close>

lemma split_halves:
  assumes "block_ok lo hi x (Suc k)" "hi < 2 ^ 52"
  shows "block_ok lo hi x k" "block_ok lo hi (x + order_to_pages k) k" "blk x (Suc k) = blk x k \<union> blk (x + order_to_pages k) k"
    "blk x k \<inter> blk (x + order_to_pages k) k = {}" "buddy_of (x + order_to_pages k) k = x"
proof -
  have k: "k < 19" "Suc k < MAX_ORDER" using assms(1) by (simp_all add: block_ok_def MAX_ORDER_def)
  have d: "2 * 2 ^ k dvd unat x" using assms(1) by (simp add: block_ok_def)
  have o: "unat (order_to_pages k) = 2 ^ k" using k by (simp add: unat_order_to_pages MAX_ORDER_def)
  have b: "unat x + 2 ^ k + 2 ^ k \<le> hi" using assms(1) by (simp add: block_ok_def)
  then have u: "unat (x + order_to_pages k) = unat x + 2 ^ k" using o assms(2) by (subst unat_add_u64) simp_all
  have dk: "2 ^ k dvd unat x" using d by (rule dvd_mult_right)
  show "block_ok lo hi x k" "block_ok lo hi (x + order_to_pages k) k"
    using assms(1) b u dk k by (auto simp: block_ok_def)
  show "blk x (Suc k) = blk x k \<union> blk (x + order_to_pages k) k" "blk x k \<inter> blk (x + order_to_pages k) k = {}"
    by (auto simp: blk_def u)
  have "even (unat x div 2 ^ k)" using d by auto
  then have "buddy_of x k = x + order_to_pages k" using unat_buddy [OF dk] k u by (simp add: word_unat_eq_iff)
  then show "buddy_of (x + order_to_pages k) k = x" using buddy_involution [of x k] by simp
qed

text \<open>Block \<open>x\<close> of order \<open>k\<close> is out of the lists, and with it they hold the pages \<open>A\<close>.\<close>

definition out_of :: "nat \<Rightarrow> nat \<Rightarrow> nat set \<Rightarrow> u64 \<Rightarrow> nat \<Rightarrow> frames \<Rightarrow> (nat \<Rightarrow> u64 list) \<Rightarrow> bool" where
  "out_of lo hi A x k s F \<longleftrightarrow> buddy_inv lo hi s F \<and> coalesced F \<and> block_ok lo hi x k \<and>
     blk x k \<inter> free_pages F = {} \<and> blk x k \<union> free_pages F = A"

lemma out_of_touch:
  assumes "out_of lo hi A x k s F"
  shows "\<exists>g. upd_page x (page_mark_allocated z j) s = Some (set_page x g s) \<and> out_of lo hi A x k (set_page x g s) F \<and>
    same_rest (span A) s (set_page x g s)"
proof -
  have x: "lo \<le> unat x" "unat x < hi" using assms block_ok_bounds [of lo hi x k] by (auto simp: out_of_def)
  then obtain g where g: "page_at s x = Some g" using assms by (auto simp: out_of_def buddy_inv_def zone_ok_def)
  have "unat x \<notin> free_pages F" "unat x \<in> A" using assms blk_self [of x k] unfolding out_of_def by blast+
  then have "x \<notin> set (F i)" if "i < MAX_ORDER" for i using heads_free that by blast
  then have "buddy_inv lo hi (set_page x (page_mark_allocated z j g) s) F"
    using assms buddy_touch [OF _ g] by (simp add: out_of_def)
  moreover have "same_rest (span A) s (set_page x (page_mark_allocated z j g) s)"
    using same_rest_mono [OF same_rest_page [OF g]] \<open>unat x \<in> A\<close> by (simp add: span_def)
  ultimately show ?thesis using assms upd_page_set [OF g] by (auto simp: out_of_def)
qed

lemma out_of_split:
  assumes "out_of lo hi A x (Suc k) s F"
  shows "\<exists>s' F'. free_area_add ZONE_NORMAL k (x + order_to_pages k) s = Some s' \<and> out_of lo hi A x k s' F' \<and>
    same_rest (span A) s s'"
proof -
  let ?r = "x + order_to_pages k"
  have o: "buddy_inv lo hi s F" "coalesced F" "block_ok lo hi x (Suc k)" "blk x (Suc k) \<inter> free_pages F = {}"
    "blk x (Suc k) \<union> free_pages F = A" using assms by (auto simp: out_of_def)
  note h = split_halves [OF o(3) buddy_inv_zone(3) [OF o(1)]]
  have k: "k < MAX_ORDER" using h(1) by (simp add: block_ok_def)
  have r: "blk ?r k \<inter> free_pages F = {}" using o(4) h(3) by blast
  obtain s' where s': "free_area_add ZONE_NORMAL k ?r s = Some s'" "buddy_inv lo hi s' (F(k := ?r # F k))"
    "same_rest (insert ?r (set (F k))) s s'" using buddy_add [OF o(1) h(2) r] by blast
  have "x \<notin> set (F k)" using heads_free [OF k, of x F] o(4) blk_self [of x "Suc k"] by blast
  then have "coalesced (F(k := ?r # F k))" using coalesced_add [OF o(2)] h(5) by simp
  moreover have "insert ?r (set (F k)) \<subseteq> span A"
    using heads_span [OF k, of F] blk_self [of ?r k] h(3) o(5) by (auto simp: span_def)
  ultimately show ?thesis
    using s' o h free_pages_add [OF k, of F ?r] same_rest_mono [OF s'(3)]
    unfolding out_of_def by (intro exI [of _ s'] exI [of _ "F(k := ?r # F k)"]) (auto simp del: fun_upd_apply)
qed

lemma alloc_split_law:
  "out_of lo hi A x (t + n) s F \<Longrightarrow> \<exists>s' F'. alloc_split ZONE_NORMAL x t n s = Some s' \<and> out_of lo hi A x t s' F' \<and>
     same_rest (span A) s s'"
proof (induction n arbitrary: s F)
  case 0
  then show ?case using same_rest_refl by auto
next
  case (Suc n)
  obtain s1 F1 where 1: "free_area_add ZONE_NORMAL (t + n) (x + order_to_pages (t + n)) s = Some s1"
    "out_of lo hi A x (t + n) s1 F1" "same_rest (span A) s s1" using out_of_split Suc.prems by fastforce
  obtain z where z: "zones s1 ZONE_NORMAL = Some z"
    using 1(2) buddy_inv_zone(1) [of lo hi s1 F1] by (auto simp: out_of_def)
  obtain g where g: "upd_page x (page_mark_allocated (ztype z) (t + n)) s1 = Some (set_page x g s1)"
    "out_of lo hi A x (t + n) (set_page x g s1) F1" "same_rest (span A) s1 (set_page x g s1)"
    using out_of_touch [OF 1(2)] by blast
  obtain s2 F2 where 2: "alloc_split ZONE_NORMAL x t n (set_page x g s1) = Some s2" "out_of lo hi A x t s2 F2"
    "same_rest (span A) (set_page x g s1) s2" using Suc.IH [OF g(2)] by blast
  have "x \<noteq> NONE" using page_to_phys_block(2) [of x] block_ok_bounds [of lo hi x t] 2(2) buddy_inv_zone(3) [of lo hi s2 F2]
    by (auto simp: out_of_def)
  then have "alloc_split ZONE_NORMAL x t (Suc n) s = Some s2"
    using 1(1) z g(1) 2(1) by (simp add: page_from_pfn_def page_to_pfn_def)
  moreover have "same_rest (span A) s s2"
    using same_rest_trans [OF same_rest_trans [OF 1(3) g(3)] 2(3)] by simp
  ultimately show ?case using 2(2) by blast
qed

lemma taken_out:
  assumes "taken lo hi F s x k s'" "k < MAX_ORDER" "buddy_inv lo hi s F" "coalesced F"
  shows "\<exists>F'. out_of lo hi (free_pages F) x k s' F'" "same_rest (span (free_pages F)) s s'"
proof -
  obtain vs where v: "F k = x # vs" "buddy_inv lo hi s' (F(k := vs))" "same_rest (set (F k)) s s'"
    using assms(1) by (auto simp: taken_def)
  have b: "blocks lo hi F" "distinct (F k)" using assms(2,3) by (auto simp: buddy_inv_def lists_def)
  have "free_pages F = blk x k \<union> free_pages (F(k := vs)) \<and> blk x k \<inter> free_pages (F(k := vs)) = {}"
    using free_pages_del [of lo hi F k "[]" x vs] b assms(2) v(1) blk_free [OF assms(2), of x F] by auto
  moreover have "block_ok lo hi x k" using b assms(2) v(1) by (auto simp: blocks_def)
  moreover have "coalesced (F(k := vs))" using v(1) by (intro coalesced_sub [OF assms(4)]) auto
  ultimately show "\<exists>F'. out_of lo hi (free_pages F) x k s' F'"
    using v(2) unfolding out_of_def by (intro exI [of _ "F(k := vs)"]) auto
  show "same_rest (span (free_pages F)) s s'" using same_rest_mono [OF v(3)] heads_span [OF assms(2)] by blast
qed

lemma out_of_block:
  assumes "out_of lo hi A x k s F"
  shows "page_to_phys x = x * PAGE_SIZE" "x * PAGE_SIZE \<noteq> 0" "phys_to_pfn (x * PAGE_SIZE) = x" "blk x k \<subseteq> A" "free_pages F = A - blk x k"
    "\<exists>z. zones s ZONE_NORMAL = Some z"
proof -
  have b: "unat x < 2 ^ 52" "x \<noteq> 0"
    using assms block_ok_bounds [of lo hi x k] buddy_inv_zone(3) [of lo hi s F] by (auto simp: out_of_def)
  show "page_to_phys x = x * PAGE_SIZE" "phys_to_pfn (x * PAGE_SIZE) = x" using page_to_phys_block [OF b(1)] by auto
  then show "x * PAGE_SIZE \<noteq> 0" using b(2) by (auto simp: phys_to_pfn_def)
  show "blk x k \<subseteq> A" "free_pages F = A - blk x k" using assms by (auto simp: out_of_def)
  show "\<exists>z. zones s ZONE_NORMAL = Some z" using assms buddy_inv_zone(1) [of lo hi s F] by (auto simp: out_of_def)
qed

lemma buddy_alloc_law:
  assumes inv: "buddy_inv lo hi s F" "coalesced F"
  shows "if \<forall>k. t \<le> k \<and> k < MAX_ORDER \<longrightarrow> F k = [] then buddy_alloc_order_locked ZONE_NORMAL t s = Some (0, s)
    else \<exists>x s' F'. buddy_alloc_order_locked ZONE_NORMAL t s = Some (x * PAGE_SIZE, s') \<and>
      out_of lo hi (free_pages F) x t s' F' \<and> same_rest (span (free_pages F)) s s'"
proof (cases "\<forall>k. t \<le> k \<and> k < MAX_ORDER \<longrightarrow> F k = []")
  case True
  then show ?thesis using alloc_search_law [OF inv(1), of "[t..<MAX_ORDER]"] by (simp add: buddy_alloc_order_locked_def)
next
  case False
  then have n: "\<not> (\<forall>k \<in> set [t..<MAX_ORDER]. F k = [])" by auto
  have "\<exists>x s'. \<exists>k \<in> set [t..<MAX_ORDER]. alloc_search ZONE_NORMAL [t..<MAX_ORDER] s = Some (x, k, s') \<and> x \<noteq> NONE \<and>
    taken lo hi F s x k s'"
    using alloc_search_law [OF inv(1), of "[t..<MAX_ORDER]"] unfolding if_not_P [OF n] by simp
  then obtain x k s1 where a: "alloc_search ZONE_NORMAL [t..<MAX_ORDER] s = Some (x, k, s1)" "x \<noteq> NONE"
    "taken lo hi F s x k s1" "t \<le> k" "k < MAX_ORDER" by auto
  obtain F1 where 1: "out_of lo hi (free_pages F) x k s1 F1" "same_rest (span (free_pages F)) s s1"
    using taken_out [OF a(3,5) inv] by blast
  obtain s2 F2 where 2: "alloc_split ZONE_NORMAL x t (k - t) s1 = Some s2" "out_of lo hi (free_pages F) x t s2 F2"
    "same_rest (span (free_pages F)) s1 s2" using alloc_split_law [of lo hi "free_pages F" x t "k - t" s1 F1] 1(1) a(4) by auto
  obtain z where z: "zones s2 ZONE_NORMAL = Some z" using out_of_block(6) [OF 2(2)] by blast
  obtain g where g: "upd_page x (page_mark_allocated (ztype z) t) s2 = Some (set_page x g s2)"
    "out_of lo hi (free_pages F) x t (set_page x g s2) F2" "same_rest (span (free_pages F)) s2 (set_page x g s2)"
    using out_of_touch [OF 2(2)] by blast
  have "buddy_alloc_order_locked ZONE_NORMAL t s = Some (x * PAGE_SIZE, set_page x g s2)"
    using a(1,2) 2(1) z g(1) out_of_block(1) [OF 2(2)] by (simp add: buddy_alloc_order_locked_def)
  moreover have "same_rest (span (free_pages F)) s (set_page x g s2)"
    using same_rest_trans [OF same_rest_trans [OF 1(2) 2(3)] g(3)] by simp
  ultimately show ?thesis using g(2) unfolding if_not_P [OF False] by blast
qed

subsection \<open>The free lists are determined by the free pages\<close>

lemma blk_iff: "2 ^ k dvd unat x \<Longrightarrow> p \<in> blk x k \<longleftrightarrow> p div 2 ^ k = unat x div 2 ^ k"
proof -
  assume "2 ^ k dvd unat x"
  then obtain q where q: "unat x = q * 2 ^ k" by (metis dvd_div_mult_self)
  have "p div 2 ^ k = q \<longleftrightarrow> q * 2 ^ k \<le> p \<and> p < Suc q * 2 ^ k"
    using div_nat_eqI [of "2 ^ k" q p] times_div_less_eq_dividend [of p "2 ^ k"] dividend_less_div_times [of "2 ^ k" p]
    by (auto simp: algebra_simps)
  then show ?thesis using q by (simp add: blk_def add.commute)
qed

lemma blk_nested:
  assumes "2 ^ k dvd unat x" "2 ^ j dvd unat y" "k \<le> j" "blk x k \<inter> blk y j \<noteq> {}"
  shows "blk x k \<subseteq> blk y j"
proof -
  have d: "p div 2 ^ j = p div 2 ^ k div 2 ^ (j - k)" for p :: nat
    using assms(3) by (simp flip: div_mult2_eq power_add)
  show ?thesis using assms(4) by (auto simp: blk_iff [OF assms(1)] blk_iff [OF assms(2)] d)
qed

lemma blk_same:
  assumes "2 ^ k dvd unat x" "2 ^ k dvd unat y" "blk x k \<subseteq> blk y k"
  shows "x = y"
proof -
  have "unat x div 2 ^ k = unat y div 2 ^ k" using assms(3) blk_self [of x k] blk_iff [OF assms(2)] by blast
  then show ?thesis using assms(1,2) by (metis dvd_div_mult_self word_unat_eq_iff)
qed

text \<open>Where a whole aligned block is free, one block of the lists covers it.\<close>

lemma covered:
  assumes "blocks lo hi F" "coalesced F" "hi < 2 ^ 52" "block_ok lo hi y j" "blk y j \<subseteq> free_pages F"
  shows "\<exists>k x. j \<le> k \<and> k < MAX_ORDER \<and> x \<in> set (F k) \<and> blk y j \<subseteq> blk x k"
  using assms(4,5)
proof (induction j arbitrary: y)
  case 0
  then have "unat y \<in> free_pages F" by auto
  then obtain k x where k: "k < MAX_ORDER" "x \<in> set (F k)" "unat y \<in> blk x k" by (auto simp: free_pages_def)
  then have "blk y 0 \<subseteq> blk x k" by (auto simp: blk_def)
  then show ?case using k by blast
next
  case (Suc j)
  let ?r = "y + order_to_pages j"
  note h = split_halves [OF Suc.prems(1) assms(3)]
  have al: "2 ^ k dvd unat x" if "k < MAX_ORDER" "x \<in> set (F k)" for k x
    using assms(1) that by (auto simp: blocks_def block_ok_def)
  have up: ?case if "Suc j \<le> k" "k < MAX_ORDER" "x \<in> set (F k)" "blk x k \<inter> blk y (Suc j) \<noteq> {}" for k x
    using blk_nested [of "Suc j" y k x] al [OF that(2,3)] Suc.prems(1) that by (auto simp: block_ok_def)
  obtain k1 x1 where 1: "j \<le> k1" "k1 < MAX_ORDER" "x1 \<in> set (F k1)" "blk y j \<subseteq> blk x1 k1"
    using Suc.IH [OF h(1)] Suc.prems(2) h(3) by auto
  obtain k2 x2 where 2: "j \<le> k2" "k2 < MAX_ORDER" "x2 \<in> set (F k2)" "blk ?r j \<subseteq> blk x2 k2"
    using Suc.IH [OF h(2)] Suc.prems(2) h(3) by auto
  show ?case
  proof (cases "k1 = j \<and> k2 = j")
    case True
    then have "x1 = y" "x2 = ?r"
      using blk_same [of j y x1] blk_same [of j ?r x2] al 1 2 h(1,2)
      by (auto simp: block_ok_def)
    then have "buddy_of x2 j \<in> set (F j)" "x2 \<in> set (F j)" using True 1(3) 2(3) h(5) by auto
    then show ?thesis using assms(2) Suc.prems(1) by (auto simp: coalesced_def block_ok_def)
  next
    case False
    have "blk x1 k1 \<inter> blk y (Suc j) \<noteq> {}" "blk x2 k2 \<inter> blk y (Suc j) \<noteq> {}"
      using 1(4) 2(4) h(3) blk_self [of y j] blk_self [of ?r j] by blast+
    moreover have "Suc j \<le> k1 \<or> Suc j \<le> k2" using False 1(1) 2(1) by linarith
    ultimately show ?thesis using up [OF _ 1(2,3)] up [OF _ 2(2,3)] by blast
  qed
qed

lemma lists_sub:
  assumes F: "blocks lo hi F" "coalesced F" and G: "blocks lo hi G" "coalesced G"
    and eq: "free_pages F = free_pages G" and hi: "hi < 2 ^ 52" and k: "k < MAX_ORDER"
  shows "set (F k) \<subseteq> set (G k)"
proof
  fix x assume x: "x \<in> set (F k)"
  then have xb: "block_ok lo hi x k" using F(1) k by (auto simp: blocks_def)
  obtain j y where y: "k \<le> j" "j < MAX_ORDER" "y \<in> set (G j)" "blk x k \<subseteq> blk y j"
    using covered [OF G hi xb] blk_free [of k x F] k x eq by auto
  have yb: "block_ok lo hi y j" using G(1) y by (auto simp: blocks_def)
  obtain i z where z: "j \<le> i" "i < MAX_ORDER" "z \<in> set (F i)" "blk y j \<subseteq> blk z i"
    using covered [OF F hi yb] blk_free [of j y G] y(2,3) eq by auto
  have "blk x k \<inter> blk z i \<noteq> {}" using y(4) z(4) blk_self [of x k] by blast
  then have "(x, k) = (z, i)" using F(1) x z k unfolding blocks_def by blast
  then have j: "j = k" using y z by simp
  then have "x = y" using blk_same [of k x y] xb yb y(4) by (auto simp: block_ok_def)
  then show "x \<in> set (G k)" using y j by simp
qed

lemma lists_determined:
  assumes "buddy_inv lo hi s F" "coalesced F" "buddy_inv lo hi s' G" "coalesced G" "free_pages F = free_pages G" "k < MAX_ORDER"
  shows "set (F k) = set (G k)"
  using lists_sub [of lo hi F G k] lists_sub [of lo hi G F k] assms buddy_inv_zone(3) [OF assms(1)]
  unfolding buddy_inv_def by auto

subsection \<open>A zone of four pages\<close>

definition ex_frames :: frames where
  "ex_frames =
     \<lparr>page_maps = Some (\<lambda>x. if x < 4 then Some (if x = 2 then page_mark_free ZONE_NORMAL 1 zero_page else zero_page) else None),
      memory_size = 0x4000, usable_regions = \<lparr>bm_buffer = None, bm_length = 0, bitmap_refcount = 0\<rparr>,
      zones = (\<lambda>_. Some ((init_zone ZONE_NORMAL 0 4)\<lparr>free_areas :=
        (replicate MAX_ORDER \<lparr>head_pfn = NONE, nr_free = 0\<rparr>)[1 := \<lparr>head_pfn = 2, nr_free = 1\<rparr>]\<rparr>)),
      nr_zones = 1, pcp_pages = [], current_cpu = None, cpu_count = 0\<rparr>"

definition ex_lists :: "nat \<Rightarrow> u64 list" where
  "ex_lists k = (if k = 1 then [2] else [])"

lemma ex_frames_page: "page_at ex_frames x =
  (if x < 4 then Some (if x = 2 then page_mark_free ZONE_NORMAL 1 zero_page else zero_page) else None)"
proof -
  have "x \<noteq> NONE" if "x < 4" using that by (auto simp: PAGE_LIST_NONE_def word_less_nat_alt unat_UINT64_MAX)
  then show ?thesis by (auto simp: page_at_def ex_frames_def)
qed

lemma ex_lists_pages: "free_pages ex_lists = {2, 3}"
  by (auto simp: free_pages_def ex_lists_def blk_def MAX_ORDER_def split: if_splits)

lemma ex_frames_inv: "buddy_inv 0 4 ex_frames ex_lists" "coalesced ex_lists"
proof -
  have "zone_ok 0 4 ex_frames"
    unfolding zone_ok_def by (auto simp: ex_frames_page word_less_nat_alt) (simp add: ex_frames_def init_zone_def)
  moreover have "area_at ex_frames ZONE_NORMAL k =
      Some \<lparr>head_pfn = hd (ex_lists k @ [NONE]), nr_free = of_nat (length (ex_lists k))\<rparr>" if "k < MAX_ORDER" for k
    using that by (simp add: area_at_def ex_frames_def array_get_def ex_lists_def nth_list_update)
  then have "lists ex_frames ex_lists"
    by (auto simp: lists_def ex_frames_page ex_lists_def)
  moreover have "marks ex_frames ex_lists"
    by (auto simp: marks_def ex_frames_page ex_lists_def zero_page_def PAGE_FLAG_BUDDY_def MAX_ORDER_def split: if_splits)
  moreover have "blocks 0 4 ex_lists" by (auto simp: blocks_def block_ok_def ex_lists_def MAX_ORDER_def)
  ultimately show "buddy_inv 0 4 ex_frames ex_lists" by (simp add: buddy_inv_def)
  show "coalesced ex_lists" by (auto simp: coalesced_def ex_lists_def buddy_of_def order_to_pages_def)
qed

subsection \<open>The free pages, exactly\<close>

text \<open>
  C35.  Allocating a block of order \<open>t\<close> always returns.  It fails, and changes nothing, only when every
  free list of order \<open>t\<close> or more is empty.  Otherwise it returns the non-zero address of an aligned
  block of the zone that was free, exactly these pages stop being free, the lists stay well linked, marked
  and disjoint, and no two free buddies are left unmerged.
\<close>

theorem buddy_alloc_order_exact:
  assumes "buddy_inv lo hi s F" "coalesced F"
  shows "\<exists>a s' F'. buddy_alloc_order_locked ZONE_NORMAL t s = Some (a, s') \<and> buddy_inv lo hi s' F' \<and> coalesced F' \<and>
    (if \<forall>k. t \<le> k \<and> k < MAX_ORDER \<longrightarrow> F k = [] then a = 0 \<and> s' = s
     else \<exists>x. a = x * PAGE_SIZE \<and> a \<noteq> 0 \<and> block_ok lo hi x t \<and> blk x t \<subseteq> free_pages F \<and>
       free_pages F' = free_pages F - blk x t)"
proof (cases "\<forall>k. t \<le> k \<and> k < MAX_ORDER \<longrightarrow> F k = []")
  case True
  then show ?thesis using buddy_alloc_law [OF assms, of t] assms by auto
next
  case False
  obtain x s' F' where x: "buddy_alloc_order_locked ZONE_NORMAL t s = Some (x * PAGE_SIZE, s')"
    "out_of lo hi (free_pages F) x t s' F'"
    using buddy_alloc_law [OF assms, of t] unfolding if_not_P [OF False] by blast
  have "buddy_inv lo hi s' F'" "coalesced F'" "block_ok lo hi x t" using x(2) by (auto simp: out_of_def)
  then show ?thesis using x(1) out_of_block(2,4,5) [OF x(2)] unfolding if_not_P [OF False] by blast
qed

theorem buddy_alloc_order_exact_witness:
  "buddy_inv 0 4 ex_frames ex_lists \<and> coalesced ex_lists \<and>
   (\<exists>a s'. buddy_alloc_order_locked ZONE_NORMAL 0 ex_frames = Some (a, s') \<and> a \<noteq> 0)"
proof -
  have "ex_lists 1 \<noteq> [] \<and> 0 \<le> (1 :: nat) \<and> 1 < MAX_ORDER" by (simp add: ex_lists_def MAX_ORDER_def)
  then have n: "\<not> (\<forall>k. 0 \<le> k \<and> k < MAX_ORDER \<longrightarrow> ex_lists k = [])" by blast
  show ?thesis using buddy_alloc_order_exact [OF ex_frames_inv, of 0] ex_frames_inv unfolding if_not_P [OF n] by blast
qed

text \<open>
  C36.  Freeing a block of the zone whose pages are not free always returns, and exactly its pages become
  free: the loop merges it with free buddies as far as it can, so again no two free buddies are left
  unmerged, and the lists stay well linked, marked and disjoint.
\<close>

theorem buddy_free_order_exact:
  assumes "buddy_inv lo hi s F" "coalesced F" "block_ok lo hi x k" "blk x k \<inter> free_pages F = {}"
  shows "\<exists>h s' F'. buddy_free_order_locked ZONE_NORMAL (x * PAGE_SIZE) k s = Some (h, s') \<and> buddy_inv lo hi s' F' \<and>
    coalesced F' \<and> free_pages F' = free_pages F \<union> blk x k"
  using buddy_free_law [OF assms] by blast

theorem buddy_free_order_exact_witness:
  "block_ok 0 4 1 0 \<and> blk 1 0 \<inter> free_pages ex_lists = {} \<and>
   (\<exists>h s' F'. buddy_free_order_locked ZONE_NORMAL (1 * PAGE_SIZE) 0 ex_frames = Some (h, s') \<and> free_pages F' = {1, 2, 3} \<and>
      buddy_inv 0 4 s' F')"
proof -
  have b: "block_ok 0 4 1 0" "blk 1 0 \<inter> free_pages ex_lists = {}" "free_pages ex_lists \<union> blk 1 0 = {1, 2, 3}"
    by (auto simp: block_ok_def MAX_ORDER_def blk_def ex_lists_pages)
  show ?thesis using buddy_free_order_exact [OF ex_frames_inv b(1,2)] b unfolding b(3) by blast
qed

text \<open>
  C37.  Allocating and giving back is a round trip: whenever a block can be had, freeing the block that
  was returned leaves every free list with the blocks it had before, however far the block was split.
\<close>

theorem buddy_alloc_free_restores:
  assumes "buddy_inv lo hi s F" "coalesced F" "t \<le> k" "k < MAX_ORDER" "F k \<noteq> []"
  shows "\<exists>a s' h s'' F''. buddy_alloc_order_locked ZONE_NORMAL t s = Some (a, s') \<and>
    buddy_free_order_locked ZONE_NORMAL a t s' = Some (h, s'') \<and> buddy_inv lo hi s'' F'' \<and>
    (\<forall>j < MAX_ORDER. set (F'' j) = set (F j))"
proof -
  have n: "\<not> (\<forall>k. t \<le> k \<and> k < MAX_ORDER \<longrightarrow> F k = [])" using assms(3-5) by blast
  obtain x s' F' where x: "buddy_alloc_order_locked ZONE_NORMAL t s = Some (x * PAGE_SIZE, s')"
    "out_of lo hi (free_pages F) x t s' F'"
    using buddy_alloc_law [OF assms(1,2), of t] unfolding if_not_P [OF n] by blast
  have o: "buddy_inv lo hi s' F'" "coalesced F'" "block_ok lo hi x t" "blk x t \<inter> free_pages F' = {}"
    "free_pages F' \<union> blk x t = free_pages F" using x(2) by (auto simp: out_of_def)
  obtain h s'' F'' where f: "buddy_free_order_locked ZONE_NORMAL (x * PAGE_SIZE) t s' = Some (h, s'')"
    "buddy_inv lo hi s'' F''" "coalesced F''" "free_pages F'' = free_pages F"
    using buddy_free_law [OF o(1-4)] unfolding o(5) by blast
  then show ?thesis using x(1) lists_determined [OF f(2,3) assms(1,2) f(4)] by blast
qed

theorem buddy_alloc_free_restores_witness:
  "\<exists>a s' h s'' F''. buddy_alloc_order_locked ZONE_NORMAL 0 ex_frames = Some (a, s') \<and>
     buddy_free_order_locked ZONE_NORMAL a 0 s' = Some (h, s'') \<and> buddy_inv 0 4 s'' F'' \<and> set (F'' 1) = {2}"
proof -
  have e: "ex_lists 1 \<noteq> []" "1 < MAX_ORDER" "set (ex_lists 1) = {2}" by (simp_all add: ex_lists_def MAX_ORDER_def)
  show ?thesis using buddy_alloc_free_restores [OF ex_frames_inv, of 0 1] e by (metis zero_le)
qed

end
