(* ===== verification/Sched.thy ===== *)
theory Sched
  imports Rbtree_Spec
begin

text \<open>
  The scheduler: \<open>task/sched.c\<close> and \<open>task/sched.h\<close>.  A \<open>sched_entity\<close> contains its tree node \<open>run_node\<close>;
  both have the address of the entity here, so that \<open>rb_entry\<close> is the identity.  Node fields are in
  \<open>se_nodes\<close>, the others in \<open>entities\<close>; run queues and tasks are objects in maps of their own, and a
  pointer to none of them is \<open>None\<close>.  Each function that takes the lock of a run queue runs as one
  step.  The clock \<open>nano_time\<close> is the argument \<open>now_ns\<close>; the interrupts sent to other CPUs are recorded in
  \<open>ipis\<close>.
\<close>

subsection \<open>State\<close>

datatype task_state = TASK_CREATING | TASK_RUNNING | TASK_READY | TASK_BLOCKING | TASK_UNINTERRUPTABLE | TASK_DIED

text \<open>The fields of a \<open>task_t\<close> that the scheduler uses.\<close>

record task_struct =
  t_pid :: u64
  t_cpu_id :: u32
  t_nice :: int
  sched_info :: ptr
  t_state :: task_state
  current_state :: task_state
  need_resched :: bool

record sched_entity =
  se_task :: ptr
  se_rq :: ptr
  vruntime :: u64
  deadline :: u64
  slice_ns :: u64
  exec_start_ns :: u64
  account_start_ns :: u64
  subtree_min_vruntime :: u64
  on_rq :: bool

record sched_rq =
  run_tree :: ptr
  rq_idle :: ptr
  rq_curr :: ptr
  min_vruntime :: u64
  load_weight :: u64
  nr_running :: u64
  nr_running_snapshot :: u64
  nr_queued :: u64
  cleanup_queued :: bool

type_synonym se_heap = "ptr \<Rightarrow> sched_entity option"

text \<open>\<open>schedulers\<close> gives the addresses of the elements of the array of that name.\<close>

record sched_mem =
  se_nodes :: rb_heap
  entities :: se_heap
  rqs :: "ptr \<Rightarrow> sched_rq option"
  tasks :: "ptr \<Rightarrow> task_struct option"
  schedulers :: "u32 \<Rightarrow> ptr"
  current_cpu_id :: u32
  nr_cpus :: u32
  ipis :: "u32 list"

definition get_se :: "sched_mem \<Rightarrow> ptr \<Rightarrow> sched_entity option" where
  "get_se s p = (if p = 0 then None else entities s p)"

definition get_rq :: "sched_mem \<Rightarrow> ptr \<Rightarrow> sched_rq option" where
  "get_rq s p = (if p = 0 then None else rqs s p)"

definition get_task :: "sched_mem \<Rightarrow> ptr \<Rightarrow> task_struct option" where
  "get_task s p = (if p = 0 then None else tasks s p)"

definition upd_se :: "ptr \<Rightarrow> (sched_entity \<Rightarrow> sched_entity) \<Rightarrow> sched_mem \<Rightarrow> sched_mem option" where
  "upd_se p f s = do { e \<leftarrow> get_se s p; Some (s\<lparr>entities := (entities s)(p \<mapsto> f e)\<rparr>) }"

definition upd_rq :: "ptr \<Rightarrow> (sched_rq \<Rightarrow> sched_rq) \<Rightarrow> sched_mem \<Rightarrow> sched_mem option" where
  "upd_rq p f s = do { q \<leftarrow> get_rq s p; Some (s\<lparr>rqs := (rqs s)(p \<mapsto> f q)\<rparr>) }"

definition upd_task :: "ptr \<Rightarrow> (task_struct \<Rightarrow> task_struct) \<Rightarrow> sched_mem \<Rightarrow> sched_mem option" where
  "upd_task p f s = do { t \<leftarrow> get_task s p; Some (s\<lparr>tasks := (tasks s)(p \<mapsto> f t)\<rparr>) }"

text \<open>The test \<open>task && task->state == TASK_READY\<close> for the task of an entity.\<close>

definition se_ready :: "sched_mem \<Rightarrow> sched_entity \<Rightarrow> bool option" where
  "se_ready s e =
     (if se_task e = 0 then Some False else map_option (\<lambda>t. t_state t = TASK_READY) (get_task s (se_task e)))"

text \<open>
  The run tree of a queue as the tree operations see it.  Their memory is the entities, \<open>None\<close> after the
  callback has followed a wild pointer.
\<close>

type_synonym run_tree_state = "se_heap option rb_state"

definition run_tree_of :: "sched_mem \<Rightarrow> sched_rq \<Rightarrow> run_tree_state" where
  "run_tree_of s q = \<lparr>nodes = se_nodes s, root = run_tree q, aux = Some (entities s)\<rparr>"

definition on_tree :: "ptr \<Rightarrow> (run_tree_state \<Rightarrow> run_tree_state option) \<Rightarrow> sched_mem \<Rightarrow> sched_mem option" where
  "on_tree scheduler f s =
     do { q \<leftarrow> get_rq s scheduler;
          r \<leftarrow> f (run_tree_of s q);
          es \<leftarrow> aux r;
          upd_rq scheduler (\<lambda>q. q\<lparr>run_tree := root r\<rparr>) (s\<lparr>se_nodes := nodes r, entities := es\<rparr>) }"

subsection \<open>Weights, slices and deadlines\<close>

definition SCHED_NICE_MIN :: int where "SCHED_NICE_MIN = - 20"

definition SCHED_NICE_MAX :: int where "SCHED_NICE_MAX = 19"

definition SCHED_NICE_0_LOAD :: u64 where "SCHED_NICE_0_LOAD = 1024"

definition SCHED_WAKEUP_PREEMPT_GRANULARITY_NS :: u64 where "SCHED_WAKEUP_PREEMPT_GRANULARITY_NS = 250000"

definition SCHED_LATENCY_NS :: u64 where "SCHED_LATENCY_NS = 6000000"

definition SCHED_MIN_GRANULARITY_NS :: u64 where "SCHED_MIN_GRANULARITY_NS = 750000"

definition SCHED_MAX_GRANULARITY_NS :: u64 where "SCHED_MAX_GRANULARITY_NS = 4000000"

definition sched_prio_to_weight :: "u32 list" where
  "sched_prio_to_weight =
     [88761, 71755, 56483, 46273, 36291, 29154, 23254, 18705, 14949, 11916,
      9548, 7620, 6100, 4904, 3906, 3121, 2501, 1991, 1586, 1277,
      1024, 820, 655, 526, 423, 335, 272, 215, 172, 137,
      110, 87, 70, 56, 45, 36, 29, 23, 18, 15]"

definition clamp_nice :: "int \<Rightarrow> int" where
  "clamp_nice nice =
     (if nice < SCHED_NICE_MIN then SCHED_NICE_MIN else if nice > SCHED_NICE_MAX then SCHED_NICE_MAX else nice)"

definition sched_task_nice :: "sched_mem \<Rightarrow> ptr \<Rightarrow> int option" where
  "sched_task_nice s t =
     do { nice \<leftarrow> (if t \<noteq> 0 then map_option t_nice (get_task s t) else Some 0); Some (clamp_nice nice) }"

definition sched_task_weight :: "sched_mem \<Rightarrow> ptr \<Rightarrow> u64 option" where
  "sched_task_weight s t =
     do { nice \<leftarrow> sched_task_nice s t;
          w \<leftarrow> array_get sched_prio_to_weight (nat (nice - SCHED_NICE_MIN));
          Some (ucast w) }"

definition sched_nice_weight :: "int \<Rightarrow> u64 option" where
  "sched_nice_weight nice =
     do { w \<leftarrow> array_get sched_prio_to_weight (nat (clamp_nice nice - SCHED_NICE_MIN)); Some (ucast w) }"

definition sched_calc_delta_fair :: "sched_mem \<Rightarrow> u64 \<Rightarrow> ptr \<Rightarrow> u64 option" where
  "sched_calc_delta_fair s delta_ns t =
     do { weight \<leftarrow> sched_task_weight s t;
          Some (if delta_ns = 0 \<or> weight = SCHED_NICE_0_LOAD then delta_ns
                else delta_ns * SCHED_NICE_0_LOAD div weight) }"

definition sched_entity_slice_locked :: "sched_mem \<Rightarrow> ptr \<Rightarrow> ptr \<Rightarrow> u64 option" where
  "sched_entity_slice_locked s scheduler entity =
     do { t \<leftarrow> (if entity \<noteq> 0 then map_option se_task (get_se s entity) else Some 0);
          weight \<leftarrow> sched_task_weight s t;
          total_weight \<leftarrow> (if scheduler \<noteq> 0 then map_option load_weight (get_rq s scheduler) else Some weight);
          foreign \<leftarrow> (if scheduler \<noteq> 0 \<and> entity \<noteq> 0
                      then map_option (\<lambda>e. se_rq e \<noteq> scheduler) (get_se s entity) else Some False);
          let total_weight = (if foreign then total_weight + weight else total_weight);
          let slice = (if total_weight \<noteq> 0 then SCHED_LATENCY_NS * weight div total_weight else SCHED_LATENCY_NS);
          Some (if slice < SCHED_MIN_GRANULARITY_NS then SCHED_MIN_GRANULARITY_NS
                else if slice > SCHED_MAX_GRANULARITY_NS then SCHED_MAX_GRANULARITY_NS else slice) }"

definition sched_entity_deadline_locked :: "ptr \<Rightarrow> ptr \<Rightarrow> sched_mem \<Rightarrow> (u64 \<times> sched_mem) option" where
  "sched_entity_deadline_locked scheduler se s =
     do { slice \<leftarrow> sched_entity_slice_locked s scheduler se;
          s \<leftarrow> upd_se se (\<lambda>e. e\<lparr>slice_ns := slice\<rparr>) s;
          e \<leftarrow> get_se s se;
          delta \<leftarrow> sched_calc_delta_fair s slice (se_task e);
          Some (vruntime e + delta, s) }"

text \<open>The statement \<open>entity->deadline = sched_entity_deadline_locked(scheduler, entity)\<close>.\<close>

definition set_deadline :: "ptr \<Rightarrow> ptr \<Rightarrow> sched_mem \<Rightarrow> sched_mem option" where
  "set_deadline scheduler entity s =
     do { (d, s) \<leftarrow> sched_entity_deadline_locked scheduler entity s; upd_se entity (\<lambda>e. e\<lparr>deadline := d\<rparr>) s }"

definition sched_entity_eligible_locked :: "u64 \<Rightarrow> sched_entity \<Rightarrow> bool" where
  "sched_entity_eligible_locked min_vr se = (vruntime se \<le> min_vr)"

definition sched_run_node_reset :: "ptr \<Rightarrow> 'x rb_state \<Rightarrow> 'x rb_state option" where
  "sched_run_node_reset node s = (if node \<noteq> 0 then clear_node node s else Some s)"

definition subtree_min :: "se_heap \<Rightarrow> ptr \<Rightarrow> u64 option" where
  "subtree_min es node = (if node = 0 then Some UINT64_MAX else map_option subtree_min_vruntime (es node))"

definition sched_subtree_min_vruntime :: "sched_mem \<Rightarrow> ptr \<Rightarrow> u64 option" where
  "sched_subtree_min_vruntime s node = subtree_min (entities s) node"

text \<open>The callback of the run tree.\<close>

definition sched_update_subtree_min_vruntime :: "rb_heap \<Rightarrow> ptr \<Rightarrow> se_heap option \<Rightarrow> se_heap option" where
  "sched_update_subtree_min_vruntime h node m =
     do { es \<leftarrow> m;
          n \<leftarrow> (if node = 0 then None else h node);
          e \<leftarrow> es node;
          let min_vr = vruntime e;
          child_min \<leftarrow> subtree_min es (rb_left n);
          let min_vr = (if child_min < min_vr then child_min else min_vr);
          child_min \<leftarrow> subtree_min es (rb_right n);
          let min_vr = (if child_min < min_vr then child_min else min_vr);
          Some (es(node \<mapsto> e\<lparr>subtree_min_vruntime := min_vr\<rparr>)) }"

definition sched_entity_cmp :: "sched_mem \<Rightarrow> ptr \<Rightarrow> ptr \<Rightarrow> int option" where
  "sched_entity_cmp s left right =
     do { l \<leftarrow> get_se s left;
          r \<leftarrow> get_se s right;
          if deadline l < deadline r then Some (- 1)
          else if deadline l > deadline r then Some 1
          else if vruntime l < vruntime r then Some (- 1)
          else if vruntime l > vruntime r then Some 1
          else do {
            left_pid \<leftarrow> (if se_task l \<noteq> 0 then map_option t_pid (get_task s (se_task l)) else Some 0);
            right_pid \<leftarrow> (if se_task r \<noteq> 0 then map_option t_pid (get_task s (se_task r)) else Some 0);
            Some (if left_pid < right_pid then - 1
                  else if left_pid > right_pid then 1
                  else if left < right then - 1 else if left > right then 1 else 0) } }"

subsection \<open>The run tree and the counters of a queue\<close>

definition sched_update_min_vruntime_locked :: "ptr \<Rightarrow> sched_mem \<Rightarrow> sched_mem option" where
  "sched_update_min_vruntime_locked scheduler s =
     do { q \<leftarrow> get_rq s scheduler;
          (min_vr, found) \<leftarrow>
            (if rq_curr q \<noteq> 0 \<and> rq_curr q \<noteq> rq_idle q
             then do { c \<leftarrow> get_se s (rq_curr q);
                       if se_task c = 0 then Some (min_vruntime q, False)
                       else do { t \<leftarrow> get_task s (se_task c);
                                 Some (if t_state t = TASK_READY \<or> current_state t = TASK_RUNNING
                                       then (vruntime c, True) else (min_vruntime q, False)) } }
             else Some (min_vruntime q, False));
          (min_vr, found) \<leftarrow>
            (if run_tree q \<noteq> 0
             then do { queued_min \<leftarrow> sched_subtree_min_vruntime s (run_tree q);
                       Some (if \<not> found \<or> queued_min < min_vr then queued_min else min_vr, True) }
             else Some (min_vr, found));
          if found \<and> min_vr > min_vruntime q then upd_rq scheduler (\<lambda>q. q\<lparr>min_vruntime := min_vr\<rparr>) s else Some s }"

definition sched_entity_preempts_curr_locked :: "sched_mem \<Rightarrow> ptr \<Rightarrow> ptr \<Rightarrow> u64 \<Rightarrow> bool option" where
  "sched_entity_preempts_curr_locked s scheduler entity now_ns =
     (if scheduler = 0 \<or> entity = 0 then Some False
      else do {
        e \<leftarrow> get_se s entity;
        ready \<leftarrow> se_ready s e;
        if \<not> ready then Some False
        else do {
          q \<leftarrow> get_rq s scheduler;
          if rq_curr q = 0 then Some True
          else do {
            c \<leftarrow> get_se s (rq_curr q);
            if se_task c = 0 \<or> rq_curr q = rq_idle q then Some True
            else if rq_curr q = entity \<or> se_task c = se_task e then Some False
            else do {
              t \<leftarrow> get_task s (se_task c);
              if t_state t \<noteq> TASK_READY \<or> current_state t \<noteq> TASK_RUNNING then Some True
              else do {
                runtime \<leftarrow> (if account_start_ns c \<noteq> 0 \<and> now_ns > account_start_ns c
                           then sched_calc_delta_fair s (now_ns - account_start_ns c) (se_task c) else Some 0);
                Some (vruntime e + SCHED_WAKEUP_PREEMPT_GRANULARITY_NS < vruntime c + runtime \<or>
                      deadline e + SCHED_WAKEUP_PREEMPT_GRANULARITY_NS < deadline c + runtime) } } } } })"

text \<open>The descent of \<open>sched_entity_enqueue_locked\<close>; the results are \<open>slot\<close> and \<open>parent\<close>.\<close>

partial_function (option) enqueue_pos :: "sched_mem \<Rightarrow> run_tree_state \<Rightarrow> ptr \<Rightarrow> rb_link \<Rightarrow> ptr \<Rightarrow> (rb_link \<times> ptr) option" where
  "enqueue_pos s t entity slot parent =
     do { p \<leftarrow> get_link t slot;
          if p \<noteq> 0
          then do { c \<leftarrow> sched_entity_cmp s entity p;
                    enqueue_pos s t entity (if c < 0 then Link_Left p else Link_Right p) p }
          else Some (slot, parent) }"

definition sched_entity_enqueue_locked :: "ptr \<Rightarrow> ptr \<Rightarrow> sched_mem \<Rightarrow> sched_mem option" where
  "sched_entity_enqueue_locked scheduler entity s =
     do { s \<leftarrow> set_deadline scheduler entity s;
          s \<leftarrow> upd_se entity (\<lambda>e. e\<lparr>subtree_min_vruntime := vruntime e\<rparr>) s;
          q \<leftarrow> get_rq s scheduler;
          (slot, parent) \<leftarrow> enqueue_pos s (run_tree_of s q) entity Link_Root 0;
          s \<leftarrow> on_tree scheduler (\<lambda>t.
            do { t \<leftarrow> sched_run_node_reset entity t;
                 t \<leftarrow> rb_set_parent entity parent t;
                 t \<leftarrow> rb_set_color entity KRB_RED t;
                 t \<leftarrow> set_link slot entity t;
                 rb_insert_augmented (Some sched_update_subtree_min_vruntime) entity t }) s;
          s \<leftarrow> upd_se entity (\<lambda>e. e\<lparr>on_rq := True, se_rq := scheduler\<rparr>) s;
          e \<leftarrow> get_se s entity;
          ready \<leftarrow> se_ready s e;
          s \<leftarrow> (if \<not> ready then upd_rq scheduler (\<lambda>q. q\<lparr>cleanup_queued := True\<rparr>) s else Some s);
          s \<leftarrow> upd_rq scheduler (\<lambda>q. q\<lparr>nr_queued := nr_queued q + 1, nr_running := nr_running q + 1,
                                          nr_running_snapshot := nr_running q + 1\<rparr>) s;
          weight \<leftarrow> sched_task_weight s (se_task e);
          upd_rq scheduler (\<lambda>q. q\<lparr>load_weight := load_weight q + weight\<rparr>) s }"

text \<open>The counters that drop to zero at least.\<close>

definition dec :: "u64 \<Rightarrow> u64" where
  "dec n = (if n \<noteq> 0 then n - 1 else n)"

definition less_weight :: "u64 \<Rightarrow> u64 \<Rightarrow> u64" where
  "less_weight load weight = (if load > weight then load - weight else 0)"

definition sched_entity_dequeue_locked :: "ptr \<Rightarrow> ptr \<Rightarrow> bool \<Rightarrow> sched_mem \<Rightarrow> sched_mem option" where
  "sched_entity_dequeue_locked scheduler entity update_min_vruntime s =
     do { s \<leftarrow> on_tree scheduler (\<lambda>t.
            do { t \<leftarrow> rb_erase_augmented (Some sched_update_subtree_min_vruntime) entity t;
                 sched_run_node_reset entity t }) s;
          s \<leftarrow> upd_se entity (\<lambda>e. e\<lparr>on_rq := False, se_rq := 0\<rparr>) s;
          s \<leftarrow> upd_rq scheduler (\<lambda>q. q\<lparr>nr_queued := dec (nr_queued q), nr_running := dec (nr_running q),
                                          nr_running_snapshot := dec (nr_running q)\<rparr>) s;
          e \<leftarrow> get_se s entity;
          weight \<leftarrow> sched_task_weight s (se_task e);
          s \<leftarrow> upd_rq scheduler (\<lambda>q. q\<lparr>load_weight := less_weight (load_weight q) weight\<rparr>) s;
          if update_min_vruntime then sched_update_min_vruntime_locked scheduler s else Some s }"

definition sched_entity_reweight_current_locked :: "ptr \<Rightarrow> ptr \<Rightarrow> u64 \<Rightarrow> int \<Rightarrow> u64 \<Rightarrow> sched_mem \<Rightarrow> sched_mem option" where
  "sched_entity_reweight_current_locked scheduler entity old_weight new_nice now_ns s =
     (if scheduler = 0 \<or> entity = 0 then Some s
      else do {
        e \<leftarrow> get_se s entity;
        if se_task e = 0 then Some s
        else do {
          s \<leftarrow> (if account_start_ns e \<noteq> 0 \<and> now_ns > account_start_ns e
                then let delta_ns = now_ns - account_start_ns e
                     in upd_se entity (\<lambda>e. e\<lparr>account_start_ns := now_ns,
                          vruntime := vruntime e + (if old_weight = SCHED_NICE_0_LOAD then delta_ns
                                                    else delta_ns * SCHED_NICE_0_LOAD div old_weight)\<rparr>) s
                else Some s);
          s \<leftarrow> upd_task (se_task e) (\<lambda>t. t\<lparr>t_nice := new_nice\<rparr>) s;
          new_weight \<leftarrow> sched_task_weight s (se_task e);
          s \<leftarrow> upd_rq scheduler (\<lambda>q. q\<lparr>load_weight := less_weight (load_weight q) old_weight + new_weight\<rparr>) s;
          slice \<leftarrow> sched_entity_slice_locked s scheduler entity;
          s \<leftarrow> upd_se entity (\<lambda>e. e\<lparr>slice_ns := slice\<rparr>) s;
          set_deadline scheduler entity s } })"

definition sched_curr_attach_locked :: "ptr \<Rightarrow> ptr \<Rightarrow> u64 \<Rightarrow> sched_mem \<Rightarrow> sched_mem option" where
  "sched_curr_attach_locked scheduler entity now_ns s =
     do { s \<leftarrow> upd_rq scheduler (\<lambda>q. q\<lparr>rq_curr := entity\<rparr>) s;
          s \<leftarrow> upd_se entity (\<lambda>e. e\<lparr>se_rq := scheduler, on_rq := False\<rparr>) s;
          s \<leftarrow> upd_rq scheduler (\<lambda>q. q\<lparr>nr_running := nr_running q + 1, nr_running_snapshot := nr_running q + 1\<rparr>) s;
          e \<leftarrow> get_se s entity;
          weight \<leftarrow> sched_task_weight s (se_task e);
          s \<leftarrow> upd_rq scheduler (\<lambda>q. q\<lparr>load_weight := load_weight q + weight\<rparr>) s;
          s \<leftarrow> upd_se entity (\<lambda>e. e\<lparr>exec_start_ns := now_ns, account_start_ns := now_ns\<rparr>) s;
          slice \<leftarrow> sched_entity_slice_locked s scheduler entity;
          s \<leftarrow> upd_se entity (\<lambda>e. e\<lparr>slice_ns := slice\<rparr>) s;
          set_deadline scheduler entity s }"

definition sched_curr_detach_locked :: "ptr \<Rightarrow> ptr \<Rightarrow> sched_mem \<Rightarrow> sched_mem option" where
  "sched_curr_detach_locked scheduler entity s =
     do { s \<leftarrow> upd_rq scheduler (\<lambda>q. if rq_curr q = entity then q\<lparr>rq_curr := rq_idle q\<rparr> else q) s;
          s \<leftarrow> upd_rq scheduler (\<lambda>q. q\<lparr>nr_running := dec (nr_running q), nr_running_snapshot := dec (nr_running q)\<rparr>) s;
          e \<leftarrow> get_se s entity;
          weight \<leftarrow> sched_task_weight s (se_task e);
          s \<leftarrow> upd_rq scheduler (\<lambda>q. q\<lparr>load_weight := less_weight (load_weight q) weight\<rparr>) s;
          s \<leftarrow> upd_se entity (\<lambda>e. e\<lparr>se_rq := 0, on_rq := False\<rparr>) s;
          sched_update_min_vruntime_locked scheduler s }"

definition sched_entity_is_current_locked :: "sched_mem \<Rightarrow> ptr \<Rightarrow> ptr \<Rightarrow> bool option" where
  "sched_entity_is_current_locked s scheduler entity =
     (if scheduler = 0 \<or> entity = 0 then Some False
      else do { q \<leftarrow> get_rq s scheduler;
                if rq_curr q \<noteq> entity then Some False
                else map_option (\<lambda>e. \<not> on_rq e \<and> se_rq e = scheduler) (get_se s entity) })"

subsection \<open>Adding, removing and accounting\<close>

definition sched_add_entity :: "ptr \<Rightarrow> ptr \<Rightarrow> bool \<Rightarrow> u64 \<Rightarrow> sched_mem \<Rightarrow> sched_mem option" where
  "sched_add_entity t scheduler wakeup now_ns s =
     (if t = 0 \<or> scheduler = 0 then Some s
      else do {
        tk \<leftarrow> get_task s t;
        let entity = sched_info tk;
        let target_cpu = t_cpu_id tk;
        if entity = 0 then Some s
        else do {
          s \<leftarrow> upd_se entity (\<lambda>e. e\<lparr>se_task := t\<rparr>) s;
          q \<leftarrow> get_rq s scheduler;
          e \<leftarrow> get_se s entity;
          current \<leftarrow> sched_entity_is_current_locked s scheduler entity;
          if rq_idle q = entity then Some s
          else if on_rq e \<or> current then Some s
          else if se_rq e \<noteq> 0 \<and> se_rq e \<noteq> scheduler then Some s
          else do {
            let placement = min_vruntime q;
            let placement = (if wakeup \<and> placement > SCHED_WAKEUP_PREEMPT_GRANULARITY_NS
                             then placement - SCHED_WAKEUP_PREEMPT_GRANULARITY_NS
                             else if wakeup then 0 else placement);
            s \<leftarrow> (if vruntime e < placement then upd_se entity (\<lambda>e. e\<lparr>vruntime := placement\<rparr>) s else Some s);
            s \<leftarrow> sched_entity_enqueue_locked scheduler entity s;
            s \<leftarrow> sched_update_min_vruntime_locked scheduler s;
            q \<leftarrow> get_rq s scheduler;
            resched_task \<leftarrow>
              (if rq_curr q = 0 then Some 0
               else do { c \<leftarrow> get_se s (rq_curr q);
                         if se_task c = 0 \<or> se_task c = t then Some 0
                         else do { b \<leftarrow> sched_entity_preempts_curr_locked s scheduler entity now_ns;
                                   Some (if b then se_task c else 0) } });
            should_ping_cpu \<leftarrow> (if target_cpu < nr_cpus s \<and> target_cpu \<noteq> current_cpu_id s
                                then sched_entity_preempts_curr_locked s scheduler entity now_ns else Some False);
            s \<leftarrow> (if resched_task \<noteq> 0 then upd_task resched_task (\<lambda>t. t\<lparr>need_resched := True\<rparr>) s else Some s);
            Some (if should_ping_cpu then s\<lparr>ipis := ipis s @ [target_cpu]\<rparr> else s) } } })"

definition add_sched_entity :: "ptr \<Rightarrow> ptr \<Rightarrow> u64 \<Rightarrow> sched_mem \<Rightarrow> sched_mem option" where
  "add_sched_entity t scheduler now_ns s = sched_add_entity t scheduler False now_ns s"

definition add_sched_entity_wakeup :: "ptr \<Rightarrow> ptr \<Rightarrow> u64 \<Rightarrow> sched_mem \<Rightarrow> sched_mem option" where
  "add_sched_entity_wakeup t scheduler now_ns s = sched_add_entity t scheduler True now_ns s"

definition remove_sched_entity :: "ptr \<Rightarrow> ptr \<Rightarrow> sched_mem \<Rightarrow> sched_mem option" where
  "remove_sched_entity t scheduler s =
     (if t = 0 \<or> scheduler = 0 then Some s
      else do {
        tk \<leftarrow> get_task s t;
        let entity = sched_info tk;
        if entity = 0 then Some s
        else do {
          e \<leftarrow> get_se s entity;
          if on_rq e \<and> se_rq e = scheduler then sched_entity_dequeue_locked scheduler entity True s
          else do {
            current \<leftarrow> sched_entity_is_current_locked s scheduler entity;
            if current then sched_curr_detach_locked scheduler entity s else Some s } } })"

text \<open>The queue of an entity, or the one of its CPU.\<close>

definition scheduler_of :: "sched_mem \<Rightarrow> sched_entity \<Rightarrow> task_struct \<Rightarrow> ptr" where
  "scheduler_of s e tk =
     (if se_rq e = 0 \<and> unat (t_cpu_id tk) < MAX_CPU_NUM then schedulers s (t_cpu_id tk) else se_rq e)"

definition sched_account_runtime_until :: "ptr \<Rightarrow> u64 \<Rightarrow> sched_mem \<Rightarrow> sched_mem option" where
  "sched_account_runtime_until t now_ns s =
     (if t = 0 then Some s
      else do {
        tk \<leftarrow> get_task s t;
        let entity = sched_info tk;
        if entity = 0 then Some s
        else do {
          e \<leftarrow> get_se s entity;
          let scheduler = scheduler_of s e tk;
          if scheduler = 0 then Some s
          else do {
            let was_queued = (on_rq e \<and> se_rq e = scheduler);
            s \<leftarrow> (if was_queued then sched_entity_dequeue_locked scheduler entity True s else Some s);
            e \<leftarrow> get_se s entity;
            let delta_ns = (if account_start_ns e \<noteq> 0 \<and> now_ns > account_start_ns e
                            then now_ns - account_start_ns e else 0);
            delta \<leftarrow> sched_calc_delta_fair s delta_ns t;
            s \<leftarrow> upd_se entity (\<lambda>e. e\<lparr>vruntime := vruntime e + delta\<rparr>) s;
            current \<leftarrow> sched_entity_is_current_locked s scheduler entity;
            s \<leftarrow> (if current
                  then do { s \<leftarrow> upd_se entity (\<lambda>e. e\<lparr>account_start_ns := now_ns\<rparr>) s;
                            slice \<leftarrow> sched_entity_slice_locked s scheduler entity;
                            s \<leftarrow> upd_se entity (\<lambda>e. e\<lparr>slice_ns := slice\<rparr>) s;
                            set_deadline scheduler entity s }
                  else Some s);
            s \<leftarrow> (if was_queued then sched_entity_enqueue_locked scheduler entity s else Some s);
            sched_update_min_vruntime_locked scheduler s } } })"

definition sched_set_task_nice :: "ptr \<Rightarrow> int \<Rightarrow> u64 \<Rightarrow> sched_mem \<Rightarrow> sched_mem option" where
  "sched_set_task_nice t niceval now_ns s =
     (if t = 0 then Some s
      else do {
        let niceval = clamp_nice niceval;
        tk \<leftarrow> get_task s t;
        let entity = sched_info tk;
        if t_nice tk = niceval then Some s
        else if entity = 0 then upd_task t (\<lambda>t. t\<lparr>t_nice := niceval\<rparr>) s
        else do {
          e \<leftarrow> get_se s entity;
          let scheduler = scheduler_of s e tk;
          if scheduler = 0 then upd_task t (\<lambda>t. t\<lparr>t_nice := niceval\<rparr>) s
          else do {
            current \<leftarrow> sched_entity_is_current_locked s scheduler entity;
            s \<leftarrow> (if on_rq e \<and> se_rq e = scheduler
                  then do { s \<leftarrow> sched_entity_dequeue_locked scheduler entity True s;
                            s \<leftarrow> upd_task t (\<lambda>t. t\<lparr>t_nice := niceval\<rparr>) s;
                            sched_entity_enqueue_locked scheduler entity s }
                  else if current
                  then do { old_weight \<leftarrow> sched_nice_weight (t_nice tk);
                            sched_entity_reweight_current_locked scheduler entity old_weight niceval now_ns s }
                  else upd_task t (\<lambda>t. t\<lparr>t_nice := niceval\<rparr>) s);
            sched_update_min_vruntime_locked scheduler s } } })"

subsection \<open>Picking the next entity\<close>

text \<open>A recursive descent; the pointer 0 is \<open>NULL\<close>, and the state may get its \<open>cleanup_queued\<close> set.\<close>

partial_function (option) sched_first_eligible_locked :: "ptr \<Rightarrow> ptr \<Rightarrow> u64 \<Rightarrow> ptr \<Rightarrow> sched_mem \<Rightarrow> (ptr \<times> sched_mem) option" where
  "sched_first_eligible_locked scheduler node max_vruntime excluded s =
     (if node = 0 then Some (0, s)
      else do {
        m \<leftarrow> sched_subtree_min_vruntime s node;
        if m > max_vruntime then Some (0, s)
        else do {
          n \<leftarrow> se_nodes s node;
          (eligible, s) \<leftarrow> sched_first_eligible_locked scheduler (rb_left n) max_vruntime excluded s;
          if eligible \<noteq> 0 then Some (eligible, s)
          else do {
            e \<leftarrow> get_se s node;
            let fits = sched_entity_eligible_locked max_vruntime e;
            ready \<leftarrow> (if fits then se_ready s e else Some False);
            s \<leftarrow> (if fits \<and> \<not> ready then upd_rq scheduler (\<lambda>q. q\<lparr>cleanup_queued := True\<rparr>) s else Some s);
            if fits \<and> ready \<and> se_task e \<noteq> excluded then Some (node, s)
            else sched_first_eligible_locked scheduler (rb_right n) max_vruntime excluded s } } })"

partial_function (option) min_fallback_loop :: "ptr \<Rightarrow> ptr \<Rightarrow> ptr \<Rightarrow> ptr \<Rightarrow> sched_mem \<Rightarrow> (ptr \<times> sched_mem) option" where
  "min_fallback_loop scheduler excluded node best s =
     (if node \<noteq> 0
      then do {
        e \<leftarrow> get_se s node;
        ready \<leftarrow> se_ready s e;
        (best, s) \<leftarrow>
          (if \<not> ready then do { s \<leftarrow> upd_rq scheduler (\<lambda>q. q\<lparr>cleanup_queued := True\<rparr>) s; Some (best, s) }
           else if se_task e = excluded then Some (best, s)
           else if best = 0 then Some (node, s)
           else do { b \<leftarrow> get_se s best; Some (if vruntime e < vruntime b then node else best, s) });
        q \<leftarrow> get_rq s scheduler;
        nxt \<leftarrow> rb_next (run_tree_of s q) node;
        min_fallback_loop scheduler excluded nxt best s }
      else Some (best, s))"

definition sched_pick_min_fallback_locked :: "ptr \<Rightarrow> ptr \<Rightarrow> sched_mem \<Rightarrow> (ptr \<times> sched_mem) option" where
  "sched_pick_min_fallback_locked scheduler excluded s =
     do { q \<leftarrow> get_rq s scheduler;
          node \<leftarrow> rb_first (run_tree_of s q);
          min_fallback_loop scheduler excluded node 0 s }"

definition sched_pick_eevdf_locked :: "ptr \<Rightarrow> ptr \<Rightarrow> sched_mem \<Rightarrow> (ptr \<times> sched_mem) option" where
  "sched_pick_eevdf_locked scheduler excluded s =
     do { q \<leftarrow> get_rq s scheduler;
          if run_tree q = 0 then Some (0, s)
          else do {
            queued_min \<leftarrow> sched_subtree_min_vruntime s (run_tree q);
            let effective_min_vruntime = (if queued_min > min_vruntime q then queued_min else min_vruntime q);
            (eligible, s) \<leftarrow> sched_first_eligible_locked scheduler (run_tree q) effective_min_vruntime excluded s;
            if eligible \<noteq> 0 then Some (eligible, s) else sched_pick_min_fallback_locked scheduler excluded s } }"

partial_function (option) drop_dead_loop :: "ptr \<Rightarrow> ptr \<Rightarrow> bool \<Rightarrow> sched_mem \<Rightarrow> (bool \<times> sched_mem) option" where
  "drop_dead_loop scheduler node dropped s =
     (if node \<noteq> 0
      then do {
        q \<leftarrow> get_rq s scheduler;
        nxt \<leftarrow> rb_next (run_tree_of s q) node;
        e \<leftarrow> get_se s node;
        ready \<leftarrow> se_ready s e;
        if \<not> ready
        then do { s \<leftarrow> sched_entity_dequeue_locked scheduler node False s; drop_dead_loop scheduler nxt True s }
        else drop_dead_loop scheduler nxt dropped s }
      else Some (dropped, s))"

definition sched_drop_dead_queued_locked :: "ptr \<Rightarrow> sched_mem \<Rightarrow> sched_mem option" where
  "sched_drop_dead_queued_locked scheduler s =
     do { q \<leftarrow> get_rq s scheduler;
          node \<leftarrow> rb_first (run_tree_of s q);
          (dropped, s) \<leftarrow> drop_dead_loop scheduler node False s;
          s \<leftarrow> (if dropped then sched_update_min_vruntime_locked scheduler s else Some s);
          upd_rq scheduler (\<lambda>q. q\<lparr>cleanup_queued := False\<rparr>) s }"

text \<open>Both callers that pick an entity clean the queue and pick again when the search met a dead one.\<close>

definition pick_clean :: "ptr \<Rightarrow> ptr \<Rightarrow> sched_mem \<Rightarrow> (ptr \<times> sched_mem) option" where
  "pick_clean scheduler excluded s =
     do { (nxt, s) \<leftarrow> sched_pick_eevdf_locked scheduler excluded s;
          q \<leftarrow> get_rq s scheduler;
          if cleanup_queued q
          then do { s \<leftarrow> sched_drop_dead_queued_locked scheduler s; sched_pick_eevdf_locked scheduler excluded s }
          else Some (nxt, s) }"

subsection \<open>Preemption\<close>

definition sched_should_preempt :: "ptr \<Rightarrow> ptr \<Rightarrow> u64 \<Rightarrow> sched_mem \<Rightarrow> (bool \<times> sched_mem) option" where
  "sched_should_preempt scheduler curr_task now_ns s =
     (if scheduler = 0 \<or> curr_task = 0 then Some (True, s)
      else do {
        tk \<leftarrow> get_task s curr_task;
        let curr = sched_info tk;
        if curr = 0 then Some (True, s)
        else do {
          q \<leftarrow> get_rq s scheduler;
          is_idle \<leftarrow> (if rq_idle q = 0 then Some False
                      else map_option (\<lambda>i. curr_task = se_task i) (get_se s (rq_idle q)));
          if is_idle then Some (nr_queued q \<noteq> 0, s)
          else if t_state tk \<noteq> TASK_READY \<or> current_state tk \<noteq> TASK_RUNNING then Some (True, s)
          else if nr_queued q = 0 then Some (False, s)
          else do {
            current \<leftarrow> sched_entity_is_current_locked s scheduler curr;
            if \<not> current then Some (True, s)
            else do {
              s \<leftarrow> upd_se curr (\<lambda>c. if exec_start_ns c = 0 \<or> now_ns < exec_start_ns c
                                     then c\<lparr>exec_start_ns := now_ns\<rparr> else c) s;
              s \<leftarrow> (if cleanup_queued q then sched_drop_dead_queued_locked scheduler s else Some s);
              c \<leftarrow> get_se s curr;
              let ran_ns = now_ns - exec_start_ns c;
              slice \<leftarrow> (if slice_ns c \<noteq> 0 then Some (slice_ns c) else sched_entity_slice_locked s scheduler curr);
              (nxt, s) \<leftarrow> pick_clean scheduler curr_task s;
              if nxt = 0 then Some (False, s)
              else do {
                n \<leftarrow> get_se s nxt;
                c \<leftarrow> get_se s curr;
                Some (deadline n + SCHED_WAKEUP_PREEMPT_GRANULARITY_NS < deadline c \<or> ran_ns \<ge> slice, s) } } } } })"

definition sched_next_preempt_deadline :: "sched_mem \<Rightarrow> ptr \<Rightarrow> ptr \<Rightarrow> u64 \<Rightarrow> u64 option" where
  "sched_next_preempt_deadline s scheduler curr_task now_ns =
     (if scheduler = 0 \<or> curr_task = 0 then Some now_ns
      else do {
        tk \<leftarrow> get_task s curr_task;
        let curr = sched_info tk;
        if curr = 0 then Some now_ns
        else do {
          q \<leftarrow> get_rq s scheduler;
          if rq_idle q \<noteq> 0 \<and> curr = rq_idle q then Some UINT64_MAX
          else do {
            current \<leftarrow> sched_entity_is_current_locked s scheduler curr;
            if \<not> current then Some now_ns
            else if t_state tk \<noteq> TASK_READY \<or> current_state tk \<noteq> TASK_RUNNING then Some now_ns
            else if nr_queued q = 0 then Some UINT64_MAX
            else do {
              c \<leftarrow> get_se s curr;
              slice \<leftarrow> (if slice_ns c \<noteq> 0 then Some (slice_ns c) else sched_entity_slice_locked s scheduler curr);
              let start_ns = (if exec_start_ns c \<noteq> 0 then exec_start_ns c else now_ns);
              Some (if now_ns \<ge> start_ns + slice then now_ns else start_ns + slice) } } } })"

subsection \<open>Switching\<close>

text \<open>
  The part of \<open>sched_pick_next_task_internal\<close> that takes the running task off the CPU.  The results are
  the task that simply goes on (0 if none does) and \<open>deferred_enqueue\<close>.
\<close>

definition requeue_current :: "ptr \<Rightarrow> ptr \<Rightarrow> bool \<Rightarrow> sched_mem \<Rightarrow> (ptr \<times> ptr \<times> sched_mem) option" where
  "requeue_current scheduler requeue_task yielded s =
     do { entity \<leftarrow> (if requeue_task = 0 then Some 0 else map_option sched_info (get_task s requeue_task));
          if entity = 0 then Some (0, 0, s)
          else do {
            q \<leftarrow> get_rq s scheduler;
            current \<leftarrow> sched_entity_is_current_locked s scheduler entity;
            if rq_idle q = entity \<or> \<not> current then Some (0, 0, s)
            else if yielded \<and> nr_queued q = 0 then Some (requeue_task, 0, s)
            else do {
              s \<leftarrow> sched_curr_detach_locked scheduler entity s;
              q \<leftarrow> get_rq s scheduler;
              s \<leftarrow> upd_se entity (\<lambda>e. if vruntime e < min_vruntime q then e\<lparr>vruntime := min_vruntime q\<rparr> else e) s;
              s \<leftarrow> upd_se entity (\<lambda>e. if yielded \<and> nr_queued q \<noteq> 0 \<and> vruntime e \<noteq> UINT64_MAX
                                       then e\<lparr>vruntime := vruntime e + 1\<rparr> else e) s;
              if yielded then Some (0, entity, s)
              else do { s \<leftarrow> sched_entity_enqueue_locked scheduler entity s; Some (0, 0, s) } } } }"

definition sched_pick_next_task_internal :: "ptr \<Rightarrow> ptr \<Rightarrow> ptr \<Rightarrow> bool \<Rightarrow> bool \<Rightarrow> u64 \<Rightarrow> sched_mem \<Rightarrow> (ptr \<times> sched_mem) option" where
  "sched_pick_next_task_internal scheduler excluded requeue_task yielded fallback_to_excluded now_ns s =
     do { q \<leftarrow> get_rq s scheduler;
          s \<leftarrow> (if cleanup_queued q then sched_drop_dead_queued_locked scheduler s else Some s);
          (next_task, deferred_enqueue, s) \<leftarrow> requeue_current scheduler requeue_task yielded s;
          (next_task, s) \<leftarrow>
            (if next_task \<noteq> 0 then Some (next_task, s)
             else do {
               (nxt, s) \<leftarrow> pick_clean scheduler excluded s;
               (nxt, s) \<leftarrow> (if nxt = 0 \<and> fallback_to_excluded then sched_pick_eevdf_locked scheduler 0 s
                            else Some (nxt, s));
               q \<leftarrow> get_rq s scheduler;
               if nxt \<noteq> 0
               then do {
                 s \<leftarrow> (if rq_curr q = rq_idle q \<and> rq_idle q \<noteq> 0
                       then upd_se (rq_idle q) (\<lambda>i. i\<lparr>se_rq := 0, on_rq := False\<rparr>) s else Some s);
                 s \<leftarrow> sched_entity_dequeue_locked scheduler nxt True s;
                 s \<leftarrow> sched_curr_attach_locked scheduler nxt now_ns s;
                 s \<leftarrow> (if deferred_enqueue \<noteq> 0 then sched_entity_enqueue_locked scheduler deferred_enqueue s
                       else Some s);
                 n \<leftarrow> get_se s nxt;
                 Some (se_task n, s) }
               else if deferred_enqueue \<noteq> 0
               then do { s \<leftarrow> sched_curr_attach_locked scheduler deferred_enqueue now_ns s;
                         d \<leftarrow> get_se s deferred_enqueue;
                         Some (se_task d, s) }
               else if rq_idle q \<noteq> 0
               then do { s \<leftarrow> upd_rq scheduler (\<lambda>q. q\<lparr>rq_curr := rq_idle q\<rparr>) s;
                         s \<leftarrow> upd_se (rq_idle q) (\<lambda>i. i\<lparr>se_rq := scheduler, on_rq := False, exec_start_ns := now_ns,
                                                         slice_ns := 0, deadline := min_vruntime q\<rparr>) s;
                         i \<leftarrow> get_se s (rq_idle q);
                         Some (se_task i, s) }
               else Some (0, s) });
          s \<leftarrow> sched_update_min_vruntime_locked scheduler s;
          Some (next_task, s) }"

definition sched_requeue_current_and_pick_next :: "ptr \<Rightarrow> ptr \<Rightarrow> bool \<Rightarrow> u64 \<Rightarrow> sched_mem \<Rightarrow> (ptr \<times> sched_mem) option" where
  "sched_requeue_current_and_pick_next t scheduler yielded now_ns s =
     sched_pick_next_task_internal scheduler 0 t yielded False now_ns s"

definition sched_pick_next_task :: "ptr \<Rightarrow> u64 \<Rightarrow> sched_mem \<Rightarrow> (ptr \<times> sched_mem) option" where
  "sched_pick_next_task scheduler now_ns s = sched_pick_next_task_internal scheduler 0 0 False False now_ns s"

definition sched_pick_next_task_excluding :: "ptr \<Rightarrow> ptr \<Rightarrow> u64 \<Rightarrow> sched_mem \<Rightarrow> (ptr \<times> sched_mem) option" where
  "sched_pick_next_task_excluding scheduler excluded now_ns s =
     sched_pick_next_task_internal scheduler excluded 0 False False now_ns s"

definition sched_rq_nr_running :: "sched_mem \<Rightarrow> ptr \<Rightarrow> u64 option" where
  "sched_rq_nr_running s scheduler = (if scheduler = 0 then Some 0 else map_option nr_running (get_rq s scheduler))"

definition sched_rq_nr_queued :: "sched_mem \<Rightarrow> ptr \<Rightarrow> u64 option" where
  "sched_rq_nr_queued s scheduler = (if scheduler = 0 then Some 0 else map_option nr_queued (get_rq s scheduler))"

definition sched_rq_nr_running_snapshot :: "sched_mem \<Rightarrow> ptr \<Rightarrow> u64 option" where
  "sched_rq_nr_running_snapshot s scheduler =
     (if scheduler = 0 then Some 0 else map_option nr_running_snapshot (get_rq s scheduler))"

declare enqueue_pos.simps [code] sched_first_eligible_locked.simps [code] min_fallback_loop.simps [code] drop_dead_loop.simps [code]

end
