(* ===== verification/Sched_Min.thy ===== *)
theory Sched_Min
  imports Sched "HOL-Library.Product_Lexorder"
begin

text \<open>
  The run tree of \<open>task/sched.c\<close>: its callback obeys the laws of an augmentation, so that the minima it
  keeps are exact, and the comparison of entities is a linear order.
\<close>

subsection \<open>The callback\<close>

abbreviation vmin :: "rb_heap \<Rightarrow> ptr \<Rightarrow> se_heap option \<Rightarrow> se_heap option" where
  "vmin \<equiv> sched_update_subtree_min_vruntime"

text \<open>What a call computes, from the children of the node.\<close>

definition vcall :: "ptr \<Rightarrow> ptr \<Rightarrow> ptr \<Rightarrow> se_heap \<Rightarrow> se_heap option" where
  "vcall p l r es =
     (case (if p = 0 then None else es p, subtree_min es l, subtree_min es r) of
        (Some e, Some a, Some b) \<Rightarrow> Some (es(p \<mapsto> e\<lparr>subtree_min_vruntime := min (min (vruntime e) a) b\<rparr>))
      | _ \<Rightarrow> None)"

lemma min_if: "(if a < v then a else v) = min v (a :: u64)"
  by (auto simp: min_def)

lemma vmin_vcall:
  "vmin h p m = (case m of None \<Rightarrow> None | Some es \<Rightarrow> (case kids h p of None \<Rightarrow> None | Some (l, r) \<Rightarrow> vcall p l r es))"
proof (cases m)
  case (Some es)
  show ?thesis
  proof (cases "h p")
    case (Some n)
    show ?thesis
      by (cases "es p"; cases "subtree_min es (rb_left n)"; cases "subtree_min es (rb_right n)")
        (simp_all add: sched_update_subtree_min_vruntime_def kids_def vcall_def min_if Some \<open>m = _\<close>)
  qed (simp add: sched_update_subtree_min_vruntime_def kids_def Some)
qed (simp add: sched_update_subtree_min_vruntime_def)

lemma vcall_Some:
  "vcall p l r es = Some es' \<longleftrightarrow> p \<noteq> 0 \<and> (\<exists>e a b. es p = Some e \<and> subtree_min es l = Some a \<and> subtree_min es r = Some b \<and>
     es' = es(p \<mapsto> e\<lparr>subtree_min_vruntime := min (min (vruntime e) a) b\<rparr>))"
  by (auto simp: vcall_def split: option.splits)

text \<open>The value of a node is right.\<close>

definition vright :: "se_heap \<Rightarrow> ptr \<Rightarrow> ptr \<Rightarrow> ptr \<Rightarrow> bool" where
  "vright es p l r \<longleftrightarrow> p \<noteq> 0 \<and> (\<exists>e a b. es p = Some e \<and> subtree_min es l = Some a \<and> subtree_min es r = Some b \<and>
     subtree_min_vruntime e = min (min (vruntime e) a) b)"

lemma vcall_fix: "vcall p l r es = Some es \<longleftrightarrow> vright es p l r"
proof -
  have "es = es(p \<mapsto> e\<lparr>subtree_min_vruntime := v\<rparr>) \<longleftrightarrow> subtree_min_vruntime e = v" if "es p = Some e" for e v
  proof
    assume "es = es(p \<mapsto> e\<lparr>subtree_min_vruntime := v\<rparr>)"
    then have "es p = Some (e\<lparr>subtree_min_vruntime := v\<rparr>)" by (metis fun_upd_same)
    then have "e = e\<lparr>subtree_min_vruntime := v\<rparr>" using that by simp
    then have "subtree_min_vruntime e = subtree_min_vruntime (e\<lparr>subtree_min_vruntime := v\<rparr>)" by (rule arg_cong)
    then show "subtree_min_vruntime e = v" by simp
  next
    assume "subtree_min_vruntime e = v"
    then have "e\<lparr>subtree_min_vruntime := v\<rparr> = e" by simp
    then show "es = es(p \<mapsto> e\<lparr>subtree_min_vruntime := v\<rparr>)" using that by (simp add: fun_upd_idem)
  qed
  then show ?thesis unfolding vcall_Some vright_def by blast
qed

lemma subtree_min_other: "q \<noteq> p \<Longrightarrow> subtree_min (es(p \<mapsto> e)) q = subtree_min es q"
  by (simp add: subtree_min_def)

lemma subtree_min_self: "p \<noteq> 0 \<Longrightarrow> subtree_min (es(p \<mapsto> e)) p = Some (subtree_min_vruntime e)"
  by (simp add: subtree_min_def)

lemma vmin_None [simp]: "vmin h p None = None"
  by (simp add: vmin_vcall)

lemma vmin_fix: "vmin h p (Some es) = Some es \<longleftrightarrow> (\<exists>l r. kids h p = Some (l, r) \<and> vright es p l r)"
  by (auto simp: vmin_vcall vcall_fix split: option.splits)

lemma vcall_again: "vcall p l r es = Some es' \<Longrightarrow> p \<notin> {l, r} \<Longrightarrow> vright es' p l r"
  by (auto simp: vcall_Some vright_def subtree_min_other)

lemma vcall_apart: "vcall p l r es = Some es' \<Longrightarrow> vright es z u v \<Longrightarrow> z \<noteq> p \<Longrightarrow> p \<notin> {u, v} \<Longrightarrow> vright es' z u v"
  by (auto simp: vcall_Some vright_def subtree_min_other)

text \<open>After a rotation the upper node has the minimum the old upper node had.\<close>

lemma vcall_turn:
  assumes "vright es x a y" "vright es y b d" "{x, y} \<inter> {a, b, d} = {}" "x \<noteq> y"
    and "vcall x a b es = Some es1" "vcall y x d es1 = Some es2"
  shows "subtree_min es2 y = subtree_min es x" "\<And>q. q \<notin> {x, y} \<Longrightarrow> es2 q = es q"
proof -
  obtain ex A Y where x: "x \<noteq> 0" "es x = Some ex" "subtree_min es a = Some A" "subtree_min es y = Some Y"
    "subtree_min_vruntime ex = min (min (vruntime ex) A) Y" using assms(1) by (auto simp: vright_def)
  obtain ey B D where y: "y \<noteq> 0" "es y = Some ey" "subtree_min es b = Some B" "subtree_min es d = Some D"
    "subtree_min_vruntime ey = min (min (vruntime ey) B) D" using assms(2) by (auto simp: vright_def)
  have Y: "Y = subtree_min_vruntime ey" using x(4) y(1,2) by (simp add: subtree_min_def)
  have 1: "es1 = es(x \<mapsto> ex\<lparr>subtree_min_vruntime := min (min (vruntime ex) A) B\<rparr>)" using assms(5) x(2,3) y(3) by (auto simp: vcall_Some)
  have "subtree_min es1 x = Some (min (min (vruntime ex) A) B)" "subtree_min es1 d = Some D" "es1 y = Some ey"
    using 1 x(1) y(2,4) assms(3,4) by (simp_all add: subtree_min_self subtree_min_other)
  then have 2: "es2 = es1(y \<mapsto> ey\<lparr>subtree_min_vruntime := min (min (vruntime ey) (min (min (vruntime ex) A) B)) D\<rparr>)"
    using assms(6) by (auto simp: vcall_Some)
  show "subtree_min es2 y = subtree_min es x"
    using 2 x Y y by (simp add: subtree_min_def ac_simps)
  show "\<And>q. q \<notin> {x, y} \<Longrightarrow> es2 q = es q" using 1 2 by simp
qed

lemma vright_moved:
  assumes "vright es z x l \<or> vright es z l x" "subtree_min es2 y = subtree_min es x" "\<And>q. q \<notin> {x, y} \<Longrightarrow> es2 q = es q"
    "z \<notin> {x, y}" "l \<notin> {x, y}"
  shows "(vright es z x l \<longrightarrow> vright es2 z y l) \<and> (vright es z l x \<longrightarrow> vright es2 z l y)"
proof -
  have "subtree_min es2 l = subtree_min es l" "es2 z = es z" using assms(3-5) by (auto simp: subtree_min_def)
  then show ?thesis using assms(2) by (auto simp: vright_def)
qed

lemma vswap: "vcall p l r = vcall p r l" "vright es p l r = vright es p r l"
  by (auto simp: vcall_def vright_def fun_eq_iff ac_simps split: option.splits)

lemma vmin_turn:
  assumes k: "kids h x = Some (a, y)" "kids h y = Some (b, d)" "kids h' x = Some (a, b)" "kids h' y = Some (x, d)"
    and o: "x \<noteq> y" "{x, y} \<inter> {a, b, d} = {}" and m: "vmin h x m = m" "vmin h y m = m" "vmin h z m = m"
    and z: "kids h z = Some (x, l) \<and> kids h' z = Some (y, l) \<or> kids h z = Some (l, x) \<and> kids h' z = Some (l, y)"
      "z \<notin> {x, y}" "l \<notin> {x, y}"
  shows "vmin h' z (vmin h' y (vmin h' x m)) = vmin h' y (vmin h' x m)"
proof (cases "vmin h' y (vmin h' x m)")
  case (Some es2)
  then obtain es1 where 1: "vmin h' x m = Some es1" "vmin h' y (Some es1) = Some es2" by (cases "vmin h' x m") auto
  then obtain es where es: "m = Some es" by (cases m) auto
  have c: "vcall x a b es = Some es1" "vcall y x d es1 = Some es2" using 1 k es by (simp_all add: vmin_vcall)
  have v: "vright es x a y" "vright es y b d" using m(1,2) k unfolding es vmin_fix by auto
  note t = vcall_turn [OF v o(2,1) c]
  have "vright es z x l \<or> vright es z l x" using m(3) z(1) unfolding es vmin_fix by auto
  then have "\<exists>i j. kids h' z = Some (i, j) \<and> vright es2 z i j"
    using vright_moved [OF _ t z(2,3)] m(3) z(1) unfolding es vmin_fix by auto
  then show ?thesis using Some vmin_fix by simp
qed simp

text \<open>The mirror image of a heap.\<close>

definition mirror :: "rb_heap \<Rightarrow> rb_heap" where
  "mirror h p = map_option (\<lambda>n. n\<lparr>rb_left := rb_right n, rb_right := rb_left n\<rparr>) (h p)"

lemma kids_mirror: "kids (mirror h) p = map_option (\<lambda>(l, r). (r, l)) (kids h p)"
  by (simp add: kids_def mirror_def option.map_comp comp_def)

lemma vmin_mirror: "vmin (mirror h) p m = vmin h p m"
  by (simp add: vmin_vcall kids_mirror vswap(1) split: option.splits)

interpretation vr: augmentation sched_update_subtree_min_vruntime
proof unfold_locales
  fix h h' :: rb_heap and p z l r x y a b d :: ptr and m :: "se_heap option"
  show "kids h p = kids h' p \<Longrightarrow> vmin h p m = vmin h' p m" by (cases m) (simp_all add: vmin_vcall)
  show "vmin h p (vmin h p m) = vmin h p m" if "kids h p = Some (l, r)" "p \<notin> {l, r}"
  proof (cases "vmin h p m")
    case (Some es)
    then have "vright es p l r" using that vcall_again by (auto simp: vmin_vcall split: option.splits)
    then show ?thesis using that Some vmin_fix by auto
  qed simp
  show "vmin h z (vmin h p m) = vmin h p m"
    if "kids h z = Some (l, r)" "z \<noteq> p" "p \<notin> {l, r}" "vmin h z m = m"
  proof (cases "vmin h p m")
    case (Some es')
    then obtain es i j where e: "m = Some es" "kids h p = Some (i, j)" "vcall p i j es = Some es'"
      by (auto simp: vmin_vcall split: option.splits)
    have "vright es z l r" using that(1,4) unfolding e(1) vmin_fix by auto
    then show ?thesis using vcall_apart [OF e(3)] that Some vmin_fix by auto
  qed simp
  show "vmin h' z (vmin h' y (vmin h' x m)) = vmin h' y (vmin h' x m)"
    if "kids h x = Some (a, y)" "kids h y = Some (b, d)" "kids h' x = Some (a, b)" "kids h' y = Some (x, d)"
      "0 \<notin> {x, y}" "x \<noteq> y" "{x, y} \<inter> {a, b, d} = {}" "vmin h x m = m" "vmin h y m = m"
      "kids h z = Some (x, l) \<and> kids h' z = Some (y, l) \<or> kids h z = Some (l, x) \<and> kids h' z = Some (l, y)"
      "z \<notin> {x, y}" "l \<notin> {x, y}" "vmin h z m = m"
    using vmin_turn [OF that(1-4,6-9,13,10-12)] .
  show "vmin h' z (vmin h' y (vmin h' x m)) = vmin h' y (vmin h' x m)"
    if k: "kids h x = Some (y, a)" "kids h y = Some (d, b)" "kids h' x = Some (b, a)" "kids h' y = Some (d, x)"
      and o: "0 \<notin> {x, y}" "x \<noteq> y" "{x, y} \<inter> {a, b, d} = {}" and m: "vmin h x m = m" "vmin h y m = m"
      and z: "kids h z = Some (x, l) \<and> kids h' z = Some (y, l) \<or> kids h z = Some (l, x) \<and> kids h' z = Some (l, y)"
      "z \<notin> {x, y}" "l \<notin> {x, y}" "vmin h z m = m"
    using vmin_turn [of "mirror h" x a y b d "mirror h'" m z l] k o(2,3) m z by (auto simp: kids_mirror vmin_mirror)
qed

subsection \<open>Minima\<close>

text \<open>Calls of the callback change the cached minima of the nodes \<open>A\<close> only.\<close>

definition same_entities :: "ptr set \<Rightarrow> se_heap \<Rightarrow> se_heap \<Rightarrow> bool" where
  "same_entities A es es' \<longleftrightarrow> (\<forall>p \<in> A. \<exists>e v. es p = Some e \<and> es' p = Some (e\<lparr>subtree_min_vruntime := v\<rparr>)) \<and>
     (\<forall>p. p \<notin> A \<longrightarrow> es' p = es p)"

lemma same_entities_refl:
  assumes "\<forall>p \<in> A. es p \<noteq> None"
  shows "same_entities A es es"
proof -
  have "\<exists>e v. es p = Some e \<and> es p = Some (e\<lparr>subtree_min_vruntime := v\<rparr>)" if p: "p \<in> A" for p
  proof -
    obtain e where e: "es p = Some e" using assms p by auto
    show ?thesis by (rule exI [of _ e], rule exI [of _ "subtree_min_vruntime e"]) (simp add: e)
  qed
  then show ?thesis by (simp add: same_entities_def)
qed

lemma calls_entities:
  assumes "calls vmin A m m'" "m = Some es" "\<forall>p \<in> A. es p \<noteq> None"
  shows "\<exists>es'. m' = Some es' \<and> same_entities A es es'"
  using assms
proof (induction rule: calls.induct)
  case none
  then show ?case using same_entities_refl by simp
next
  case (more m m' p h l r)
  obtain es' where es': "m' = Some es'" "same_entities A es es'" using more.IH more.prems by blast
  obtain e v where e: "es p = Some e" "es' p = Some (e\<lparr>subtree_min_vruntime := v\<rparr>)"
    using es'(2) more.hyps(2) unfolding same_entities_def by blast
  have sm: "\<exists>a. subtree_min es' q = Some a" if "q \<in> insert 0 A" for q
    using that es'(2) unfolding same_entities_def subtree_min_def by (cases "q = 0") auto
  obtain a where a: "subtree_min es' l = Some a" using sm [of l] more.hyps(5) by auto
  obtain b where b: "subtree_min es' r = Some b" using sm [of r] more.hyps(5) by auto
  have "vmin h p m' = Some (es'(p \<mapsto> e\<lparr>subtree_min_vruntime := min (min (vruntime e) a) b\<rparr>))"
    using more.hyps(3,4) es'(1) e(2) a b by (simp add: vmin_vcall vcall_def)
  moreover have "same_entities A es (es'(p \<mapsto> e\<lparr>subtree_min_vruntime := w\<rparr>))" for w
    using es'(2) e(1) more.hyps(2) unfolding same_entities_def by auto
  ultimately show ?case by blast
qed

lemma addrs_sub [simp]: "addrs (CL c x k r) t = addrs c (Nd t x k r)" "addrs (CR l x k c) t = addrs c (Nd l x k t)"
  by (auto simp: addrs_def)

lemma settled_right:
  assumes "rep t c (Nd l x k r)" "settled vmin (addrs c (Nd l x k r)) t" "aux t = Some es"
  shows "vright es x (rt l) (rt r)"
proof -
  have "vmin (nodes t) x (Some es) = Some es" using assms(2,3) by (simp add: settled_def addrs_def)
  moreover have "kids (nodes t) x = Some (rt l, rt r)" using rep_trip [OF assms(1), of x] by simp
  ultimately show ?thesis unfolding vmin_fix by auto
qed

text \<open>The cached value of a subtree is the least virtual runtime in it, \<open>UINT64_MAX\<close> for an empty one.\<close>

lemma minimum:
  assumes "settled vmin (addrs c t) s" "aux s = Some es" "rep s c t"
  shows "\<exists>m. subtree_min es (rt t) = Some m \<and> (\<forall>p \<in> set (inorder t). \<exists>e. es p = Some e \<and> m \<le> vruntime e) \<and>
    (t \<noteq> Lf \<longrightarrow> (\<exists>p \<in> set (inorder t). \<exists>e. es p = Some e \<and> vruntime e = m))"
  using assms(1,3)
proof (induction t arbitrary: c)
  case Lf
  then show ?case by (simp add: subtree_min_def)
next
  case (Nd l x k r)
  obtain ml where l: "subtree_min es (rt l) = Some ml" "\<forall>p \<in> set (inorder l). \<exists>e. es p = Some e \<and> ml \<le> vruntime e"
    "l \<noteq> Lf \<longrightarrow> (\<exists>p \<in> set (inorder l). \<exists>e. es p = Some e \<and> vruntime e = ml)"
    using Nd.IH(1) [of "CL c x k r"] Nd.prems by (auto simp: rep_CL)
  obtain mr where r: "subtree_min es (rt r) = Some mr" "\<forall>p \<in> set (inorder r). \<exists>e. es p = Some e \<and> mr \<le> vruntime e"
    "r \<noteq> Lf \<longrightarrow> (\<exists>p \<in> set (inorder r). \<exists>e. es p = Some e \<and> vruntime e = mr)"
    using Nd.IH(2) [of "CR l x k c"] Nd.prems by (auto simp: rep_CR)
  obtain e where e: "x \<noteq> 0" "es x = Some e" "subtree_min_vruntime e = min (min (vruntime e) ml) mr"
    using settled_right [OF Nd.prems(2,1) assms(2)] l(1) r(1) by (auto simp: vright_def)
  let ?m = "min (min (vruntime e) ml) mr"
  have top: "ml = - 1" if "l = Lf" using that l(1) by (simp add: subtree_min_def)
  have top': "mr = - 1" if "r = Lf" using that r(1) by (simp add: subtree_min_def)
  have "?m = vruntime e \<or> ?m = ml \<and> l \<noteq> Lf \<or> ?m = mr \<and> r \<noteq> Lf"
    using top top' by (auto simp: min_def)
  then have "\<exists>p \<in> set (inorder (Nd l x k r)). \<exists>e. es p = Some e \<and> vruntime e = ?m"
  proof (elim disjE conjE)
    assume "?m = vruntime e"
    then show ?thesis unfolding \<open>?m = _\<close> using e(2) by (intro bexI [of _ x]) auto
  next
    assume "?m = ml" "l \<noteq> Lf"
    then show ?thesis unfolding \<open>?m = _\<close> using l(3) by auto
  next
    assume "?m = mr" "r \<noteq> Lf"
    then show ?thesis unfolding \<open>?m = _\<close> using r(3) by auto
  qed
  moreover have "\<forall>p \<in> set (inorder (Nd l x k r)). \<exists>e. es p = Some e \<and> ?m \<le> vruntime e"
    using e(2) l(2) r(2) by (fastforce simp: min_le_iff_disj)
  ultimately show ?case using e by (simp add: subtree_min_def)
qed

subsection \<open>The order of a queue\<close>

definition key :: "sched_mem \<Rightarrow> ptr \<Rightarrow> u64 \<times> u64 \<times> u64 \<times> ptr" where
  "key s p =
     (let e = the (entities s p)
      in (deadline e, vruntime e, if se_task e = 0 then 0 else t_pid (the (get_task s (se_task e))), p))"

text \<open>An entity whose pointers lead somewhere.\<close>

definition sound_se :: "sched_mem \<Rightarrow> ptr \<Rightarrow> bool" where
  "sound_se s p \<longleftrightarrow> p \<noteq> 0 \<and> (\<exists>e. entities s p = Some e \<and> (se_task e \<noteq> 0 \<longrightarrow> get_task s (se_task e) \<noteq> None))"

lemma cmp_key:
  assumes "sound_se s x" "sound_se s y"
  shows "sched_entity_cmp s x y = Some (if key s x < key s y then - 1 else if key s y < key s x then 1 else 0)"
proof -
  obtain ex where x: "get_se s x = Some ex" "entities s x = Some ex" "se_task ex \<noteq> 0 \<Longrightarrow> \<exists>t. get_task s (se_task ex) = Some t"
    using assms(1) by (auto simp: sound_se_def get_se_def)
  obtain ey where y: "get_se s y = Some ey" "entities s y = Some ey" "se_task ey \<noteq> 0 \<Longrightarrow> \<exists>t. get_task s (se_task ey) = Some t"
    using assms(2) by (auto simp: sound_se_def get_se_def)
  define px py where "px = (if se_task ex = 0 then 0 else t_pid (the (get_task s (se_task ex))))"
    and "py = (if se_task ey = 0 then 0 else t_pid (the (get_task s (se_task ey))))"
  have k: "key s x = (deadline ex, vruntime ex, px, x)" "key s y = (deadline ey, vruntime ey, py, y)"
    by (simp_all add: key_def x(2) y(2) px_def py_def)
  have p: "(if se_task ex \<noteq> 0 then map_option t_pid (get_task s (se_task ex)) else Some 0) = Some px"
    "(if se_task ey \<noteq> 0 then map_option t_pid (get_task s (se_task ey)) else Some 0) = Some py"
    using x(3) y(3) by (auto simp: px_def py_def)
  have "sched_entity_cmp s x y =
      Some (if deadline ex < deadline ey then - 1 else if deadline ex > deadline ey then 1
        else if vruntime ex < vruntime ey then - 1 else if vruntime ex > vruntime ey then 1
        else if px < py then - 1 else if px > py then 1 else if x < y then - 1 else if x > y then 1 else 0)"
    unfolding sched_entity_cmp_def x(1) y(1) Option.bind.bind_lunit unfolding p by simp
  also have "\<dots> = Some (if key s x < key s y then - 1 else if key s y < key s x then 1 else 0)"
    unfolding k
    by (cases "deadline ex" "deadline ey" rule: linorder_cases; cases "vruntime ex" "vruntime ey" rule: linorder_cases;
        cases px py rule: linorder_cases; cases x y rule: linorder_cases) auto
  finally show ?thesis .
qed

end
