(* ===== verification/Sched_Queue.thy ===== *)
theory Sched_Queue
  imports Sched_Min
begin

text \<open>
  Entering and leaving a run queue of \<open>task/sched.c\<close>: the tree stays a red-black tree ordered by deadline,
  with exact minima, and the counter of queued entities counts them.
\<close>

subsection \<open>The invariant of a queue\<close>

definition ordered :: "sched_mem \<Rightarrow> ptr \<Rightarrow> ptr list \<Rightarrow> sched_rq \<Rightarrow> bool" where
  "ordered s q L r \<longleftrightarrow> get_rq s q = Some r \<and> holds_tree (run_tree_of s r) L \<and> settled vmin (set L) (run_tree_of s r) \<and>
     (\<forall>p \<in> set L. sound_se s p) \<and> sorted_wrt (\<lambda>a b. key s a < key s b) L"

text \<open>An entity of the queue knows that it is queued, and where.\<close>

definition queued :: "sched_mem \<Rightarrow> ptr \<Rightarrow> ptr \<Rightarrow> bool" where
  "queued s q p \<longleftrightarrow> (\<exists>e. entities s p = Some e \<and> on_rq e \<and> se_rq e = q)"

definition queue_ok :: "sched_mem \<Rightarrow> ptr \<Rightarrow> ptr list \<Rightarrow> bool" where
  "queue_ok s q L \<longleftrightarrow> (\<exists>r. ordered s q L r \<and> nr_queued r = of_nat (length L)) \<and> (\<forall>p \<in> set L. queued s q p)"

lemma run_tree_of_simps [simp]:
  "nodes (run_tree_of s r) = se_nodes s" "root (run_tree_of s r) = run_tree r" "aux (run_tree_of s r) = Some (entities s)"
  by (simp_all add: run_tree_of_def)

lemma holds_tree_kids:
  assumes "holds_tree t L" "p \<in> set L"
  shows "\<exists>l r. kids (nodes t) p = Some (l, r) \<and> {l, r} \<subseteq> insert 0 (set L)"
proof -
  obtain T where T: "rep t Top T" "inorder T = L" using assms(1) by (auto simp: holds_tree_def)
  then have "addrs Top T = set L" by (simp add: addrs_def)
  then show ?thesis using rep_kids [OF T(1), of p] assms(2) by auto
qed

lemma settled_vright:
  "settled vmin A t \<Longrightarrow> aux t = Some es \<Longrightarrow> p \<in> A \<Longrightarrow> \<exists>l r. kids (nodes t) p = Some (l, r) \<and> vright es p l r"
  by (auto simp: settled_def vmin_fix)

lemma settled_cong:
  assumes "holds_tree t L" "settled vmin (set L) t" "aux t = Some es" "aux t' = Some es'" "\<And>p. p \<in> set L \<Longrightarrow> nodes t' p = nodes t p"
    and same: "\<And>p. p \<in> set L \<Longrightarrow> \<exists>e e'. es p = Some e \<and> es' p = Some e' \<and> vruntime e' = vruntime e \<and> subtree_min_vruntime e' = subtree_min_vruntime e"
  shows "settled vmin (set L) t'"
proof -
  have sm: "subtree_min es' p = subtree_min es p" if "p \<in> insert 0 (set L)" for p
    using same [of p] that by (cases "p = 0") (auto simp: subtree_min_def)
  have "\<exists>l r. kids (nodes t') p = Some (l, r) \<and> vright es' p l r" if p: "p \<in> set L" for p
  proof -
    obtain l r where k: "kids (nodes t) p = Some (l, r)" "{l, r} \<subseteq> insert 0 (set L)" using holds_tree_kids [OF assms(1) p] by blast
    have "vright es p l r" using settled_vright [OF assms(2,3) p] k(1) by auto
    then have "vright es' p l r" using same [OF p] sm [of l] sm [of r] k(2) by (auto simp: vright_def)
    then show ?thesis using k(1) assms(5) [OF p] by (auto simp: kids_def)
  qed
  then show ?thesis using assms(4) by (simp add: settled_def vmin_fix)
qed

definition same_key :: "sched_entity \<Rightarrow> sched_entity \<Rightarrow> bool" where
  "same_key e e' \<longleftrightarrow> vruntime e' = vruntime e \<and> subtree_min_vruntime e' = subtree_min_vruntime e \<and> deadline e' = deadline e \<and>
     se_task e' = se_task e"

text \<open>Changes of the other fields do not matter.\<close>

lemma queue_cong:
  assumes o: "ordered s q L r" and s': "get_rq s' q = Some r'" "run_tree r' = run_tree r" "se_nodes s' = se_nodes s"
    and t: "\<And>x. map_option t_pid (get_task s' x) = map_option t_pid (get_task s x)"
    and e: "\<And>p. p \<in> set L \<Longrightarrow> \<exists>e e'. entities s p = Some e \<and> entities s' p = Some e' \<and> same_key e e'"
  shows "ordered s' q L r'"
proof -
  have "holds_tree (run_tree_of s' r') L" using holds_tree_cong [of "run_tree_of s r" L "run_tree_of s' r'"] o s' by (simp add: ordered_def)
  moreover have "settled vmin (set L) (run_tree_of s' r')"
    using settled_cong [of "run_tree_of s r" L "entities s" "run_tree_of s' r'" "entities s'"] o s'(3) e
    by (fastforce simp: ordered_def same_key_def)
  moreover have "sound_se s' p \<and> key s' p = key s p" if p: "p \<in> set L" for p
  proof -
    obtain x x' where x: "entities s p = Some x" "entities s' p = Some x'" "same_key x x'" using e [OF p] by blast
    have "sound_se s p" using o p by (simp add: ordered_def)
    moreover have "get_task s' (se_task x) = None \<longleftrightarrow> get_task s (se_task x) = None" using t [of "se_task x"]
      by (metis map_option_is_None)
    moreover have "t_pid (the (get_task s' (se_task x))) = t_pid (the (get_task s (se_task x)))" if "get_task s (se_task x) \<noteq> None"
      using t [of "se_task x"] that by (cases "get_task s' (se_task x)"; cases "get_task s (se_task x)") auto
    ultimately show ?thesis using x by (auto simp: sound_se_def key_def same_key_def)
  qed
  moreover have "sorted_wrt (\<lambda>a b. key s a < key s b) L" using o by (simp add: ordered_def)
  ultimately show ?thesis
    using s'(1) unfolding ordered_def by (auto elim!: sorted_wrt_mono_rel [rotated])
qed

lemma queue_entity: "ordered s q L r \<Longrightarrow> p \<in> set L \<Longrightarrow> \<exists>x. entities s p = Some x"
  by (auto simp: ordered_def sound_se_def)

lemma queue_rq:
  assumes "ordered s q L r" "run_tree r' = run_tree r"
  shows "ordered (s\<lparr>rqs := (rqs s)(q \<mapsto> r')\<rparr>) q L r'"
proof -
  have "q \<noteq> 0" using assms(1) by (auto simp: ordered_def get_rq_def split: if_splits)
  moreover have "\<exists>a b. entities s p = Some a \<and> entities s p = Some b \<and> same_key a b" if "p \<in> set L" for p
    using queue_entity [OF assms(1) that] by (auto simp: same_key_def)
  ultimately show ?thesis using assms(2) by (intro queue_cong [OF assms(1)]) (simp_all add: get_rq_def get_task_def)
qed

subsection \<open>Finding the place and linking\<close>

lemma enqueue_pos_law:
  assumes "sound_se s e" "rep t c T" "\<forall>p \<in> set (inorder T). sound_se s p" "sorted_wrt (\<lambda>a b. key s a < key s b) (inorder T)"
  shows "\<exists>d us vs. enqueue_pos s t e (link_of c) (cpar c) = Some (link_of d, cpar d) \<and> rep t d Lf \<and> plug d Lf = plug c T \<and>
    inorder T = us @ vs \<and> before d = before c @ us \<and> behind d = vs @ behind c \<and>
    (\<forall>p \<in> set us. \<not> key s e < key s p) \<and> (\<forall>p \<in> set vs. key s e < key s p)"
  using assms(2-4)
proof (induction T arbitrary: c)
  case Lf
  then show ?case using rep_get_link [OF Lf(1)] by (intro exI [of _ c] exI [of _ "[]"]) (simp add: enqueue_pos.simps)
next
  case (Nd l x k r)
  have x: "x \<noteq> 0" "sched_entity_cmp s e x = Some (if key s e < key s x then - 1 else if key s x < key s e then 1 else 0)"
    using cmp_key [OF assms(1), of x] rep_node(2) [OF Nd.prems(1)] Nd.prems(2) by auto
  have step: "enqueue_pos s t e (link_of c) (cpar c) =
      enqueue_pos s t e (if key s e < key s x then Link_Left x else Link_Right x) x"
    using rep_get_link [OF Nd.prems(1)] x by (simp add: enqueue_pos.simps [of s t e "link_of c"])
  show ?case
  proof (cases "key s e < key s x")
    case True
    obtain d us vs where d: "enqueue_pos s t e (Link_Left x) x = Some (link_of d, cpar d)" "rep t d Lf" "plug d Lf = plug c (Nd l x k r)"
      "inorder l = us @ vs" "before d = before c @ us" "behind d = vs @ x # inorder r @ behind c"
      "\<forall>p \<in> set us. \<not> key s e < key s p" "\<forall>p \<in> set vs. key s e < key s p"
      using Nd.IH(1) [of "CL c x k r"] Nd.prems by (auto simp: rep_CL sorted_wrt_append)
    have "\<forall>p \<in> set (inorder r). key s e < key s p" using Nd.prems(3) True by (auto simp: sorted_wrt_append)
    then show ?thesis using d True step by (intro exI [of _ d] exI [of _ us] exI [of _ "vs @ x # inorder r"]) auto
  next
    case False
    obtain d us vs where d: "enqueue_pos s t e (Link_Right x) x = Some (link_of d, cpar d)" "rep t d Lf" "plug d Lf = plug c (Nd l x k r)"
      "inorder r = us @ vs" "before d = before c @ inorder l @ x # us" "behind d = vs @ behind c"
      "\<forall>p \<in> set us. \<not> key s e < key s p" "\<forall>p \<in> set vs. key s e < key s p"
      using Nd.IH(2) [of "CR l x k c"] Nd.prems by (auto simp: rep_CR sorted_wrt_append)
    have "\<forall>p \<in> set (inorder l). \<not> key s e < key s p" using Nd.prems(3) False by (auto simp: sorted_wrt_append)
    then show ?thesis using d False step by (intro exI [of _ d] exI [of _ "inorder l @ x # us"] exI [of _ vs]) auto
  qed
qed

lemma link_sequence:
  assumes "e \<noteq> 0" "nodes t e \<noteq> None" "parent AND 3 = 0"
  shows "do { t \<leftarrow> sched_run_node_reset e t; t \<leftarrow> rb_set_parent e parent t; t \<leftarrow> rb_set_color e KRB_RED t; set_link slot e t } =
    link_node e parent slot t"
proof -
  have "parent AND NOT 1 = parent" using aligned_or(4) [OF assms(3), of Red] by (simp add: KRB_RED_def)
  then show ?thesis using assms(1,2)
    by (auto simp: sched_run_node_reset_def clear_node_def rb_set_parent_def rb_set_color_def link_node_def upd_node_def node_at_def KRB_RED_def)
qed

subsection \<open>Weights and deadlines\<close>

lemma weight_Some:
  assumes "t \<noteq> 0 \<longrightarrow> get_task s t \<noteq> None"
  shows "\<exists>w. sched_task_weight s t = Some w"
proof -
  obtain n where n: "sched_task_nice s t = Some (clamp_nice n)" using assms by (cases "t = 0") (auto simp: sched_task_nice_def)
  have "length sched_prio_to_weight = 40" by (simp add: sched_prio_to_weight_def)
  moreover have "nat (clamp_nice n - SCHED_NICE_MIN) < 40" by (auto simp: clamp_nice_def SCHED_NICE_MIN_def SCHED_NICE_MAX_def)
  ultimately have "nat (clamp_nice n - SCHED_NICE_MIN) < length sched_prio_to_weight" by simp
  then show ?thesis using n by (simp add: sched_task_weight_def)
qed

lemma slice_Some:
  assumes "sound_se s e" "get_rq s q \<noteq> None"
  shows "\<exists>v. sched_entity_slice_locked s q e = Some v"
proof -
  obtain x where x: "get_se s e = Some x" "se_task x \<noteq> 0 \<longrightarrow> get_task s (se_task x) \<noteq> None" "e \<noteq> 0"
    using assms(1) by (auto simp: sound_se_def get_se_def)
  obtain w where "sched_task_weight s (se_task x) = Some w" using weight_Some [OF x(2)] by blast
  then show ?thesis using x assms(2) by (auto simp: sched_entity_slice_locked_def Let_def)
qed

lemma set_deadline_law:
  assumes "sound_se s e" "get_rq s q \<noteq> None" "entities s e = Some x"
  shows "\<exists>v d. set_deadline q e s = Some (s\<lparr>entities := (entities s)(e \<mapsto> x\<lparr>slice_ns := v, deadline := d\<rparr>)\<rparr>)"
proof -
  obtain v where v: "sched_entity_slice_locked s q e = Some v" using slice_Some [OF assms(1,2)] by blast
  have x: "e \<noteq> 0" "se_task x \<noteq> 0 \<longrightarrow> get_task s (se_task x) \<noteq> None" using assms(1,3) by (auto simp: sound_se_def)
  define s1 where "s1 = s\<lparr>entities := (entities s)(e \<mapsto> x\<lparr>slice_ns := v\<rparr>)\<rparr>"
  have "get_task s1 = get_task s" by (simp add: s1_def get_task_def fun_eq_iff)
  then obtain w where "sched_task_weight s1 (se_task x) = Some w" using weight_Some [of "se_task x" s1] x(2) by auto
  then obtain u where "sched_calc_delta_fair s1 v (se_task x) = Some u" by (auto simp: sched_calc_delta_fair_def)
  then show ?thesis using v x(1) assms(3)
    by (intro exI [of _ v] exI [of _ "vruntime x + u"])
      (auto simp: set_deadline_def sched_entity_deadline_locked_def upd_se_def get_se_def s1_def)
qed

lemma on_tree_law:
  assumes "get_rq s q = Some r" "f (run_tree_of s r) = Some t" "aux t = Some es"
  shows "\<exists>s'. on_tree q f s = Some s' \<and> get_rq s' q = Some (r\<lparr>run_tree := root t\<rparr>) \<and> run_tree_of s' (r\<lparr>run_tree := root t\<rparr>) = t \<and>
    s' = s\<lparr>se_nodes := nodes t, entities := es, rqs := (rqs s)(q \<mapsto> r\<lparr>run_tree := root t\<rparr>)\<rparr>"
  using assms by (auto simp: on_tree_def upd_rq_def get_rq_def run_tree_of_def split: if_splits)

subsection \<open>Entering a queue\<close>

lemma same_entities_key:
  assumes "same_entities A (entities s) (entities s')" "tasks s' = tasks s"
  shows "key s' p = key s p" "sound_se s' p = sound_se s p"
proof -
  have g: "get_task s' = get_task s" using assms(2) by (simp add: get_task_def fun_eq_iff)
  have "key s' p = key s p \<and> sound_se s' p = sound_se s p"
  proof (cases "p \<in> A")
    case True
    then obtain e v where "entities s p = Some e" "entities s' p = Some (e\<lparr>subtree_min_vruntime := v\<rparr>)"
      using assms(1) by (auto simp: same_entities_def)
    then show ?thesis using g by (simp add: key_def sound_se_def Let_def)
  next
    case False
    then have "entities s' p = entities s p" using assms(1) by (simp add: same_entities_def)
    then show ?thesis using g by (simp add: key_def sound_se_def Let_def)
  qed
  then show "key s' p = key s p" "sound_se s' p = sound_se s p" by simp_all
qed

lemma key_less: "p \<noteq> e \<Longrightarrow> \<not> key s e < key s p \<Longrightarrow> key s p < key s e"
  using linorder_less_linear [of "key s e" "key s p"] by (auto simp: key_def Let_def)

lemma frame_dom:
  assumes "frame aug (set L) s s'" "\<And>p. p \<in> set L \<Longrightarrow> nodes s p \<noteq> None \<and> nodes s' p \<noteq> None"
  shows "dom (nodes s') = dom (nodes s)"
proof -
  have "nodes s' p = None \<longleftrightarrow> nodes s p = None" for p using assms(1) assms(2) [of p] by (cases "p \<in> set L") (auto simp: frame_def)
  then show ?thesis by (auto simp: dom_def)
qed

text \<open>The tree part of \<open>sched_entity_enqueue_locked\<close>.\<close>

lemma tree_insert:
  assumes o: "ordered s q L r" and e: "sound_se s e" "ok e" "se_nodes s e \<noteq> None" "e \<notin> set L"
  shows "\<exists>slot parent us vs s' v. enqueue_pos s (run_tree_of s r) e Link_Root 0 = Some (slot, parent) \<and> L = us @ vs \<and>
    on_tree q (\<lambda>t. do { t \<leftarrow> sched_run_node_reset e t; t \<leftarrow> rb_set_parent e parent t; t \<leftarrow> rb_set_color e KRB_RED t;
      t \<leftarrow> set_link slot e t; rb_insert_augmented (Some vmin) e t }) s = Some s' \<and>
    ordered s' q (us @ e # vs) (r\<lparr>run_tree := v\<rparr>) \<and> same_entities (set (us @ e # vs)) (entities s) (entities s') \<and>
    (\<exists>n. dom n = dom (se_nodes s) \<and> s' = s\<lparr>se_nodes := n, entities := entities s', rqs := (rqs s)(q \<mapsto> r\<lparr>run_tree := v\<rparr>)\<rparr>)"
proof -
  let ?t = "run_tree_of s r"
  obtain T where T: "rep ?t Top T" "rb_tree T" "inorder T = L" using o by (auto simp: ordered_def holds_tree_def)
  obtain d us vs where d: "enqueue_pos s ?t e Link_Root 0 = Some (link_of d, cpar d)" "rep ?t d Lf" "plug d Lf = T" "L = us @ vs"
    "before d = us" "behind d = vs" "\<forall>p \<in> set us. \<not> key s e < key s p" "\<forall>p \<in> set vs. key s e < key s p"
    using enqueue_pos_law [OF e(1) T(1)] o T(3) by (auto simp: ordered_def)
  obtain t1 t2 where t2: "link_node e (cpar d) (link_of d) ?t = Some t1" "rb_insert_augmented (Some vmin) e t1 = Some t2"
    "holds_tree t2 (us @ e # vs)" "frame (Some vmin) (set (us @ e # vs)) ?t t2"
    "settled vmin (set (us @ vs)) ?t \<Longrightarrow> settled vmin (set (us @ e # vs)) t2"
    using insert_holds_tree [OF d(2), of e "Some vmin"] d(3-6) T(2) e(2-4) vr.augmentation_axioms by (auto simp: walk_def)
  have "\<forall>p \<in> set (us @ e # vs). entities s p \<noteq> None" using o e(1) d(4) by (auto simp: ordered_def sound_se_def)
  then obtain es where es: "aux t2 = Some es" "same_entities (set (us @ e # vs)) (entities s) es"
    using calls_entities [of "set (us @ e # vs)" "Some (entities s)" "aux t2" "entities s"] t2(4) by (auto simp: frame_def)
  have "e \<noteq> 0" "cpar d AND 3 = 0" using e(2) rep_parent_aligned [OF d(2)] by (auto simp: ok_def)
  then have l: "do { t \<leftarrow> sched_run_node_reset e ?t; t \<leftarrow> rb_set_parent e (cpar d) t; t \<leftarrow> rb_set_color e KRB_RED t; set_link (link_of d) e t } = Some t1"
    using link_sequence [of e ?t "cpar d" "link_of d"] e(3) t2(1) by simp
  have "(\<lambda>t. do { t \<leftarrow> sched_run_node_reset e t; t \<leftarrow> rb_set_parent e (cpar d) t; t \<leftarrow> rb_set_color e KRB_RED t;
      t \<leftarrow> set_link (link_of d) e t; rb_insert_augmented (Some vmin) e t }) ?t = Some t2"
    using arg_cong [OF l, of "\<lambda>m. Option.bind m (rb_insert_augmented (Some vmin) e)"] t2(2) by simp
  then obtain s' where s': "on_tree q (\<lambda>t. do { t \<leftarrow> sched_run_node_reset e t; t \<leftarrow> rb_set_parent e (cpar d) t; t \<leftarrow> rb_set_color e KRB_RED t;
      t \<leftarrow> set_link (link_of d) e t; rb_insert_augmented (Some vmin) e t }) s = Some s'"
    "get_rq s' q = Some (r\<lparr>run_tree := root t2\<rparr>)" "run_tree_of s' (r\<lparr>run_tree := root t2\<rparr>) = t2"
    "s' = s\<lparr>se_nodes := nodes t2, entities := es, rqs := (rqs s)(q \<mapsto> r\<lparr>run_tree := root t2\<rparr>)\<rparr>"
    using on_tree_law [of s q r] o es(1) by (auto simp: ordered_def)
  have k: "key s' p = key s p" "sound_se s' p = sound_se s p" for p
    using same_entities_key [of "set (us @ e # vs)" s s' p] es(2) s'(4) by simp_all
  have "key s p < key s e" if "p \<in> set us" for p using key_less [of p e s] d(4,7) e(4) that by auto
  then have "sorted_wrt (\<lambda>a b. key s' a < key s' b) (us @ e # vs)"
    using o d(4,8) unfolding k by (auto simp: ordered_def sorted_wrt_append)
  then have "ordered s' q (us @ e # vs) (r\<lparr>run_tree := root t2\<rparr>)"
    using o e(1) d(4) s'(2,3) t2(3,5) k(2) by (auto simp: ordered_def)
  moreover have "nodes ?t p \<noteq> None \<and> nodes t2 p \<noteq> None" if p: "p \<in> set (us @ e # vs)" for p
    using holds_tree_nonnull [OF t2(3) p] holds_tree_nonnull [of ?t L p] o e(3) d(4) p by (cases "p = e") (auto simp: ordered_def)
  then have "dom (nodes t2) = dom (se_nodes s)" using frame_dom [OF t2(4)] by simp
  moreover have "same_entities (set (us @ e # vs)) (entities s) (entities s')"
    "s' = s\<lparr>se_nodes := nodes t2, entities := entities s', rqs := (rqs s)(q \<mapsto> r\<lparr>run_tree := root t2\<rparr>)\<rparr>"
    using es(2) s'(4) by simp_all
  ultimately show ?thesis using d(1,4) s'(1) by blast
qed

text \<open>
  What entering or leaving the queue \<open>q\<close> leaves alone: tasks, other queues and entities; of the queued entities \<open>A\<close>
  only the minima change, and of the entity \<open>e\<close> itself neither the virtual runtime nor the task.  The virtual clock of
  the queue never goes back.
\<close>

definition same_except :: "ptr \<Rightarrow> ptr set \<Rightarrow> se_heap \<Rightarrow> se_heap \<Rightarrow> bool" where
  "same_except e A es es' \<longleftrightarrow> (\<forall>p. p \<notin> insert e A \<longrightarrow> es' p = es p) \<and>
     (\<forall>p \<in> A - {e}. \<exists>x v. es p = Some x \<and> es' p = Some (x\<lparr>subtree_min_vruntime := v\<rparr>))"

definition same_rq :: "sched_rq option \<Rightarrow> sched_rq option \<Rightarrow> bool" where
  "same_rq m m' \<longleftrightarrow> (\<exists>r r'. m = Some r \<and> m' = Some r' \<and> rq_curr r' = rq_curr r \<and> rq_idle r' = rq_idle r \<and>
     min_vruntime r \<le> min_vruntime r')"

definition only_queue :: "ptr \<Rightarrow> ptr \<Rightarrow> ptr set \<Rightarrow> sched_mem \<Rightarrow> sched_mem \<Rightarrow> bool" where
  "only_queue q e A s s' \<longleftrightarrow> tasks s' = tasks s \<and> schedulers s' = schedulers s \<and> current_cpu_id s' = current_cpu_id s \<and>
     nr_cpus s' = nr_cpus s \<and> ipis s' = ipis s \<and> dom (se_nodes s') = dom (se_nodes s) \<and> (\<forall>x. x \<noteq> q \<longrightarrow> rqs s' x = rqs s x) \<and>
     same_except e A (entities s) (entities s') \<and> same_rq (rqs s q) (rqs s' q) \<and>
     (\<exists>x y. entities s e = Some x \<and> entities s' e = Some y \<and> vruntime y = vruntime x \<and> se_task y = se_task x)"

lemma same_except_step:
  assumes "same_entities (insert e A) (es(e := a)) es'"
  shows "same_except e A es (es'(e := b))"
  unfolding same_except_def
proof (intro conjI ballI allI impI)
  fix p assume "p \<in> A - {e}"
  then obtain x v where "(es(e := a)) p = Some x" "es' p = Some (x\<lparr>subtree_min_vruntime := v\<rparr>)" "p \<noteq> e"
    using assms unfolding same_entities_def by blast
  then show "\<exists>x v. es p = Some x \<and> (es'(e := b)) p = Some (x\<lparr>subtree_min_vruntime := v\<rparr>)" by auto
next
  fix p assume "p \<notin> insert e A"
  then show "(es'(e := b)) p = es p" using assms by (simp add: same_entities_def)
qed

lemma same_except_queued:
  assumes "same_except e A (entities s) (entities s')" "p \<in> A - {e}" "queued s q p"
  shows "queued s' q p"
proof -
  obtain x v where "entities s p = Some x" "entities s' p = Some (x\<lparr>subtree_min_vruntime := v\<rparr>)"
    using assms(1,2) unfolding same_except_def by blast
  then show ?thesis using assms(3) by (simp add: queued_def)
qed

lemma only_queue_sound:
  assumes "only_queue q e A s s'" "sound_se s p"
  shows "sound_se s' p"
proof -
  have "\<exists>x y. entities s p = Some x \<and> entities s' p = Some y \<and> se_task y = se_task x"
  proof (cases "p \<in> A - {e}")
    case True
    then obtain x v where "entities s p = Some x" "entities s' p = Some (x\<lparr>subtree_min_vruntime := v\<rparr>)"
      using assms(1) unfolding only_queue_def same_except_def by blast
    then show ?thesis by simp
  next
    case False
    then show ?thesis using assms by (cases "p = e") (auto simp: only_queue_def same_except_def sound_se_def)
  qed
  then show ?thesis using assms by (auto simp: sound_se_def only_queue_def get_task_def)
qed

lemma se_ready_Some: "se_task e \<noteq> 0 \<longrightarrow> get_task s (se_task e) \<noteq> None \<Longrightarrow> \<exists>b. se_ready s e = Some b"
  by (auto simp: se_ready_def)

text \<open>The part behind the tree operations: flags and counters.\<close>

lemma enqueue_tail:
  assumes "get_rq s q = Some r" "entities s e = Some z" "e \<noteq> 0" "se_task z \<noteq> 0 \<longrightarrow> get_task s (se_task z) \<noteq> None"
  shows "\<exists>r'. do { s \<leftarrow> upd_se e (\<lambda>e. e\<lparr>on_rq := True, se_rq := q\<rparr>) s;
          e \<leftarrow> get_se s e;
          ready \<leftarrow> se_ready s e;
          s \<leftarrow> (if \<not> ready then upd_rq q (\<lambda>q. q\<lparr>cleanup_queued := True\<rparr>) s else Some s);
          s \<leftarrow> upd_rq q (\<lambda>q. q\<lparr>nr_queued := nr_queued q + 1, nr_running := nr_running q + 1, nr_running_snapshot := nr_running q + 1\<rparr>) s;
          weight \<leftarrow> sched_task_weight s (se_task e);
          upd_rq q (\<lambda>q. q\<lparr>load_weight := load_weight q + weight\<rparr>) s } =
      Some (s\<lparr>entities := (entities s)(e \<mapsto> z\<lparr>on_rq := True, se_rq := q\<rparr>), rqs := (rqs s)(q \<mapsto> r')\<rparr>) \<and>
    run_tree r' = run_tree r \<and> nr_queued r' = nr_queued r + 1 \<and> same_rq (Some r) (Some r')"
proof -
  have q: "q \<noteq> 0" "rqs s q = Some r" using assms(1) by (auto simp: get_rq_def split: if_splits)
  define s1 where "s1 = s\<lparr>entities := (entities s)(e \<mapsto> z\<lparr>on_rq := True, se_rq := q\<rparr>)\<rparr>"
  have g: "get_task (s1\<lparr>rqs := R\<rparr>) = get_task s" for R by (simp add: s1_def get_task_def fun_eq_iff)
  have "get_task s1 = get_task s" using g [of "rqs s1"] by simp
  then obtain b where b: "se_ready s1 (z\<lparr>on_rq := True, se_rq := q\<rparr>) = Some b"
    using se_ready_Some [of "z\<lparr>on_rq := True, se_rq := q\<rparr>" s1] assms(4) by auto
  define r1 where "r1 = (if b then r else r\<lparr>cleanup_queued := True\<rparr>)"
  define r2 where "r2 = r1\<lparr>nr_queued := nr_queued r1 + 1, nr_running := nr_running r1 + 1, nr_running_snapshot := nr_running r1 + 1\<rparr>"
  obtain w where w: "sched_task_weight (s1\<lparr>rqs := (rqs s)(q \<mapsto> r2)\<rparr>) (se_task z) = Some w"
    using weight_Some [of "se_task z" "s1\<lparr>rqs := (rqs s)(q \<mapsto> r2)\<rparr>"] assms(4) g by auto
  have 1: "upd_se e (\<lambda>e. e\<lparr>on_rq := True, se_rq := q\<rparr>) s = Some s1" "get_se s1 e = Some (z\<lparr>on_rq := True, se_rq := q\<rparr>)"
    using assms(2,3) by (simp_all add: upd_se_def get_se_def s1_def)
  have 2: "(if \<not> b then upd_rq q (\<lambda>q. q\<lparr>cleanup_queued := True\<rparr>) s1 else Some s1) = Some (s1\<lparr>rqs := (rqs s)(q \<mapsto> r1)\<rparr>)"
    using q by (auto simp: upd_rq_def get_rq_def s1_def r1_def fun_upd_idem)
  have 3: "upd_rq q (\<lambda>q. q\<lparr>nr_queued := nr_queued q + 1, nr_running := nr_running q + 1, nr_running_snapshot := nr_running q + 1\<rparr>)
      (s1\<lparr>rqs := (rqs s)(q \<mapsto> r1)\<rparr>) = Some (s1\<lparr>rqs := (rqs s)(q \<mapsto> r2)\<rparr>)"
    using q by (simp add: upd_rq_def get_rq_def r2_def)
  have 4: "upd_rq q (\<lambda>q. q\<lparr>load_weight := load_weight q + w\<rparr>) (s1\<lparr>rqs := (rqs s)(q \<mapsto> r2)\<rparr>) =
      Some (s1\<lparr>rqs := (rqs s)(q \<mapsto> r2\<lparr>load_weight := load_weight r2 + w\<rparr>)\<rparr>)"
    using q by (simp add: upd_rq_def get_rq_def)
  have t: "se_task (z\<lparr>on_rq := True, se_rq := q\<rparr>) = se_task z" by simp
  show ?thesis
    by (rule exI [of _ "r2\<lparr>load_weight := load_weight r2 + w\<rparr>"], simp only: 1 b 2 3 t w 4 Option.bind.simps)
      (simp add: r2_def r1_def s1_def same_rq_def)
qed

lemma enqueue_law:
  assumes Q: "queue_ok s q L" and e: "sound_se s e" "ok e" "se_nodes s e \<noteq> None" "e \<notin> set L"
  shows "\<exists>s' us vs. sched_entity_enqueue_locked q e s = Some s' \<and> L = us @ vs \<and> queue_ok s' q (us @ e # vs) \<and>
    only_queue q e (set L) s s'"
proof -
  obtain r where r: "ordered s q L r" "nr_queued r = of_nat (length L)" using Q by (auto simp: queue_ok_def)
  obtain x where x: "entities s e = Some x" "e \<noteq> 0" "se_task x \<noteq> 0 \<longrightarrow> get_task s (se_task x) \<noteq> None"
    using e(1) by (auto simp: sound_se_def)
  have rq: "get_rq s q = Some r" "q \<noteq> 0" "rqs s q = Some r" using r(1) by (auto simp: ordered_def get_rq_def split: if_splits)
  obtain v dl where 1: "set_deadline q e s = Some (s\<lparr>entities := (entities s)(e \<mapsto> x\<lparr>slice_ns := v, deadline := dl\<rparr>)\<rparr>)"
    using set_deadline_law [OF e(1) _ x(1), of q] rq by auto
  define y where "y = x\<lparr>slice_ns := v, deadline := dl, subtree_min_vruntime := vruntime x\<rparr>"
  define s2 where "s2 = s\<lparr>entities := (entities s)(e \<mapsto> y)\<rparr>"
  have 2: "upd_se e (\<lambda>e. e\<lparr>subtree_min_vruntime := vruntime e\<rparr>) (s\<lparr>entities := (entities s)(e \<mapsto> x\<lparr>slice_ns := v, deadline := dl\<rparr>)\<rparr>) = Some s2"
    using x(2) by (simp add: upd_se_def get_se_def s2_def y_def)
  have g: "get_task s2 = get_task s" "get_rq s2 = get_rq s" by (simp_all add: s2_def get_task_def get_rq_def fun_eq_iff)
  have o2: "ordered s2 q L r"
    using rq(1) g e(4) r(1) by (intro queue_cong [OF r(1)]) (auto simp: s2_def same_key_def ordered_def sound_se_def)
  have e2: "sound_se s2 e" using x g by (simp add: sound_se_def s2_def y_def)
  obtain slot parent us vs s3 w n where 3: "enqueue_pos s2 (run_tree_of s2 r) e Link_Root 0 = Some (slot, parent)" "L = us @ vs"
    "on_tree q (\<lambda>t. do { t \<leftarrow> sched_run_node_reset e t; t \<leftarrow> rb_set_parent e parent t; t \<leftarrow> rb_set_color e KRB_RED t;
      t \<leftarrow> set_link slot e t; rb_insert_augmented (Some vmin) e t }) s2 = Some s3"
    "ordered s3 q (us @ e # vs) (r\<lparr>run_tree := w\<rparr>)" "same_entities (set (us @ e # vs)) (entities s2) (entities s3)"
    "s3 = s2\<lparr>se_nodes := n, entities := entities s3, rqs := (rqs s2)(q \<mapsto> r\<lparr>run_tree := w\<rparr>)\<rparr>" "dom n = dom (se_nodes s)"
    using tree_insert [OF o2 e2 e(2) _ e(4)] e(3) by (auto simp: s2_def)
  obtain u where u: "entities s3 e = Some (y\<lparr>subtree_min_vruntime := u\<rparr>)" using 3(5) by (auto simp: same_entities_def s2_def)
  define z where "z = y\<lparr>subtree_min_vruntime := u\<rparr>"
  have 4: "tasks s3 = tasks s" "schedulers s3 = schedulers s" "current_cpu_id s3 = current_cpu_id s" "nr_cpus s3 = nr_cpus s"
    "ipis s3 = ipis s" "rqs s3 = (rqs s)(q \<mapsto> r\<lparr>run_tree := w\<rparr>)" "se_nodes s3 = n" by (subst 3(6), simp add: s2_def)+
  then have g3: "get_task s3 = get_task s" by (simp add: get_task_def fun_eq_iff)
  have r3: "get_rq s3 q = Some (r\<lparr>run_tree := w\<rparr>)" "se_task z \<noteq> 0 \<longrightarrow> get_task s3 (se_task z) \<noteq> None"
    using 3(4) x(3) g3 by (auto simp: ordered_def z_def y_def)
  obtain r' where r': "sched_entity_enqueue_locked q e s =
      Some (s3\<lparr>entities := (entities s3)(e \<mapsto> z\<lparr>on_rq := True, se_rq := q\<rparr>), rqs := (rqs s3)(q \<mapsto> r')\<rparr>)"
    "run_tree r' = w" "nr_queued r' = nr_queued r + 1" "same_rq (Some (r\<lparr>run_tree := w\<rparr>)) (Some r')"
    using enqueue_tail [OF r3(1) u [folded z_def] x(2) r3(2)] 1 2 3(1,3) rq(1) g(2)
    by (auto simp: sched_entity_enqueue_locked_def)
  let ?s = "s3\<lparr>entities := (entities s3)(e \<mapsto> z\<lparr>on_rq := True, se_rq := q\<rparr>), rqs := (rqs s3)(q \<mapsto> r')\<rparr>"
  have s3: "same_entities (insert e (set L)) ((entities s)(e := Some y)) (entities s3)" using 3(2,5) by (simp add: s2_def)
  have x3: "same_except e (set L) (entities s) (entities ?s)" using same_except_step [OF s3] by simp
  have "\<exists>a b. entities s3 p = Some a \<and> entities ?s p = Some b \<and> same_key a b" if "p \<in> set (us @ e # vs)" for p
    using queue_entity [OF 3(4) that] u by (auto simp: same_key_def z_def)
  then have "ordered ?s q (us @ e # vs) r'"
    using rq(2) r'(2) by (intro queue_cong [OF 3(4)]) (simp_all add: get_rq_def get_task_def)
  moreover have "queued ?s q p" if "p \<in> set (us @ e # vs)" for p
    using same_except_queued [OF x3, of p q] Q that 3(2) by (cases "p = e") (auto simp: queue_ok_def, simp add: queued_def)
  moreover have "nr_queued r' = of_nat (length (us @ e # vs))" using r'(3) r(2) 3(2) by simp
  moreover have "only_queue q e (set L) s ?s"
    using x3 4 x(1) 3(7) rq(3) r'(4) by (auto simp: only_queue_def z_def y_def same_rq_def)
  ultimately show ?thesis using r'(1) 3(2) unfolding queue_ok_def by blast
qed

text \<open>The value at the root is the least virtual runtime of the queue.\<close>

lemma root_min:
  assumes "ordered s q L r"
  shows "\<exists>m. sched_subtree_min_vruntime s (run_tree r) = Some m \<and> (\<forall>p \<in> set L. m \<le> vruntime (the (entities s p))) \<and>
    (L \<noteq> [] \<longrightarrow> (\<exists>p \<in> set L. vruntime (the (entities s p)) = m))"
proof -
  obtain T where T: "rep (run_tree_of s r) Top T" "inorder T = L" using assms by (auto simp: ordered_def holds_tree_def)
  then have "rt T = run_tree r" "addrs Top T = set L" by (simp_all add: rep_def addrs_def)
  then obtain m where m: "sched_subtree_min_vruntime s (run_tree r) = Some m" "\<forall>p \<in> set L. \<exists>e. entities s p = Some e \<and> m \<le> vruntime e"
    "T \<noteq> Lf \<longrightarrow> (\<exists>p \<in> set L. \<exists>e. entities s p = Some e \<and> vruntime e = m)"
    using minimum [of Top T "run_tree_of s r" "entities s"] T assms by (auto simp: ordered_def sched_subtree_min_vruntime_def)
  have "T \<noteq> Lf" if "L \<noteq> []" using that T(2) by auto
  then show ?thesis using m by (metis option.sel)
qed

subsection \<open>Leaving a queue\<close>

text \<open>The tree part of \<open>sched_entity_dequeue_locked\<close>.\<close>

lemma tree_erase:
  assumes o: "ordered s q (us @ e # vs) r"
  shows "\<exists>s' v. on_tree q (\<lambda>t. do { t \<leftarrow> rb_erase_augmented (Some vmin) e t; sched_run_node_reset e t }) s = Some s' \<and>
    ordered s' q (us @ vs) (r\<lparr>run_tree := v\<rparr>) \<and> same_entities (set (us @ e # vs)) (entities s) (entities s') \<and>
    (\<exists>n. dom n = dom (se_nodes s) \<and> s' = s\<lparr>se_nodes := n, entities := entities s', rqs := (rqs s)(q \<mapsto> r\<lparr>run_tree := v\<rparr>)\<rparr>)"
proof -
  let ?t = "run_tree_of s r" and ?L = "us @ e # vs"
  have h: "holds_tree ?t ?L" "settled vmin (set ?L) ?t" using o by (simp_all add: ordered_def)
  obtain t1 where t1: "rb_erase_augmented (Some vmin) e ?t = Some t1" "holds_tree t1 (us @ vs)" "frame (Some vmin) (set ?L) ?t t1"
    "settled vmin (set (us @ vs)) t1"
    using rb_erase_law [OF h(1), of "Some vmin"] h(2) vr.augmentation_axioms unfolding rb_erase_augmented_def by blast
  have dom: "dom (nodes t1) = dom (se_nodes s)" using rb_erase_dom t1(1) unfolding rb_erase_augmented_def by fastforce
  have e: "e \<noteq> 0" "se_nodes s e \<noteq> None" "e \<notin> set (us @ vs)"
    using holds_tree_nonnull [OF h(1), of e] holds_tree_distinct [OF h(1)] by (auto simp: ok_def)
  have "\<forall>p \<in> set ?L. entities s p \<noteq> None" using o by (auto simp: ordered_def sound_se_def)
  then obtain es where es: "aux t1 = Some es" "same_entities (set ?L) (entities s) es"
    using calls_entities [of "set ?L" "Some (entities s)" "aux t1" "entities s"] t1(3) by (auto simp: frame_def)
  define t2 where "t2 = t1\<lparr>nodes := (nodes t1)(e \<mapsto> \<lparr>rb_parent_color = 0, rb_right = 0, rb_left = 0\<rparr>)\<rparr>"
  obtain n where n: "nodes t1 e = Some n" using e(2) dom by blast
  then have c: "sched_run_node_reset e t1 = Some t2"
    using e(1) by (simp add: sched_run_node_reset_def clear_node_def upd_node_def node_at_def t2_def)
  have nd: "\<And>p. p \<in> set (us @ vs) \<Longrightarrow> nodes t2 p = nodes t1 p" using e(3) by (auto simp: t2_def)
  have t2: "aux t2 = Some es" "dom (nodes t2) = dom (se_nodes s)" "root t2 = root t1" using es(1) dom n by (auto simp: t2_def)
  have ht: "holds_tree t2 (us @ vs)" by (rule holds_tree_cong [OF t1(2) nd t2(3)])
  have "\<exists>a. es p = Some a" if "p \<in> set (us @ vs)" for p using es(2) that unfolding same_entities_def by fastforce
  then have st: "settled vmin (set (us @ vs)) t2" by (intro settled_cong [OF t1(2,4) es(1) t2(1) nd]) blast+
  obtain s' where s': "on_tree q (\<lambda>t. do { t \<leftarrow> rb_erase_augmented (Some vmin) e t; sched_run_node_reset e t }) s = Some s'"
    "get_rq s' q = Some (r\<lparr>run_tree := root t2\<rparr>)" "run_tree_of s' (r\<lparr>run_tree := root t2\<rparr>) = t2"
    "s' = s\<lparr>se_nodes := nodes t2, entities := es, rqs := (rqs s)(q \<mapsto> r\<lparr>run_tree := root t2\<rparr>)\<rparr>"
    using on_tree_law [of s q r "\<lambda>t. do { t \<leftarrow> rb_erase_augmented (Some vmin) e t; sched_run_node_reset e t }"] o t1(1) c t2(1)
    by (auto simp: ordered_def)
  have k: "key s' p = key s p" "sound_se s' p = sound_se s p" for p
    using same_entities_key [of "set ?L" s s' p] es(2) s'(4) by simp_all
  have "ordered s' q (us @ vs) (r\<lparr>run_tree := root t2\<rparr>)"
    using o s'(2,3) ht st unfolding ordered_def k by (simp add: sorted_wrt_append)
  moreover have "same_entities (set ?L) (entities s) (entities s')"
    "s' = s\<lparr>se_nodes := nodes t2, entities := entities s', rqs := (rqs s)(q \<mapsto> r\<lparr>run_tree := root t2\<rparr>)\<rparr>"
    using es(2) s'(4) by simp_all
  ultimately show ?thesis using s'(1) t2(2) by blast
qed

text \<open>The entity running on the queue, if any, has a task that exists.\<close>

definition sound_curr :: "sched_mem \<Rightarrow> ptr \<Rightarrow> bool" where
  "sound_curr s q \<longleftrightarrow> (\<exists>r. get_rq s q = Some r \<and> (rq_curr r \<noteq> 0 \<longrightarrow> sound_se s (rq_curr r)))"

lemma update_min_law:
  assumes "ordered s q L r" "sound_curr s q"
  shows "\<exists>v. sched_update_min_vruntime_locked q s = Some (s\<lparr>rqs := (rqs s)(q \<mapsto> r\<lparr>min_vruntime := v\<rparr>)\<rparr>) \<and> min_vruntime r \<le> v"
proof -
  have q: "get_rq s q = Some r" "q \<noteq> 0" "rqs s q = Some r" using assms(1) by (auto simp: ordered_def get_rq_def split: if_splits)
  have "(if rq_curr r \<noteq> 0 \<and> rq_curr r \<noteq> rq_idle r
             then do { c \<leftarrow> get_se s (rq_curr r);
                       if se_task c = 0 then Some (min_vruntime r, False)
                       else do { t \<leftarrow> get_task s (se_task c);
                                 Some (if t_state t = TASK_READY \<or> current_state t = TASK_RUNNING
                                       then (vruntime c, True) else (min_vruntime r, False)) } }
             else Some (min_vruntime r, False)) \<noteq> None" (is "?c \<noteq> None")
  proof (cases "rq_curr r = 0")
    case False
    then obtain c where c: "get_se s (rq_curr r) = Some c" "se_task c \<noteq> 0 \<longrightarrow> (\<exists>t. get_task s (se_task c) = Some t)"
      using assms(2) q(1) by (auto simp: sound_curr_def sound_se_def get_se_def)
    show ?thesis using c by (cases "se_task c = 0") auto
  qed simp
  then obtain a where a: "?c = Some a" unfolding not_None_eq by (rule exE)
  obtain m f where 1: "a = (m, f)" by (rule prod.exhaust)
  have "\<exists>x. run_tree r \<noteq> 0 \<longrightarrow> sched_subtree_min_vruntime s (run_tree r) = Some x" using root_min [OF assms(1)] by blast
  then obtain m' f' where 2: "(if run_tree r \<noteq> 0
             then do { queued_min \<leftarrow> sched_subtree_min_vruntime s (run_tree r);
                       Some (if \<not> f \<or> queued_min < m then queued_min else m, True) }
             else Some (m, f)) = Some (m', f')" by (cases "run_tree r = 0") auto
  let ?v = "if f' \<and> m' > min_vruntime r then m' else min_vruntime r"
  have "r\<lparr>min_vruntime := min_vruntime r\<rparr> = r" by simp
  then have "sched_update_min_vruntime_locked q s = Some (s\<lparr>rqs := (rqs s)(q \<mapsto> r\<lparr>min_vruntime := ?v\<rparr>)\<rparr>)"
    unfolding sched_update_min_vruntime_locked_def q(1) Option.bind.simps a 1 split_conv 2 using q(2,3)
    by (auto simp: upd_rq_def get_rq_def fun_upd_idem)
  moreover have "min_vruntime r \<le> ?v" by auto
  ultimately show ?thesis by blast
qed

lemma dequeue_tail:
  assumes "get_rq s q = Some r" "entities s e = Some z" "e \<noteq> 0" "se_task z \<noteq> 0 \<longrightarrow> get_task s (se_task z) \<noteq> None"
  shows "\<exists>r'. do { s \<leftarrow> upd_se e (\<lambda>e. e\<lparr>on_rq := False, se_rq := 0\<rparr>) s;
          s \<leftarrow> upd_rq q (\<lambda>q. q\<lparr>nr_queued := dec (nr_queued q), nr_running := dec (nr_running q),
                                          nr_running_snapshot := dec (nr_running q)\<rparr>) s;
          e \<leftarrow> get_se s e;
          weight \<leftarrow> sched_task_weight s (se_task e);
          s \<leftarrow> upd_rq q (\<lambda>q. q\<lparr>load_weight := less_weight (load_weight q) weight\<rparr>) s;
          k s } =
      k (s\<lparr>entities := (entities s)(e \<mapsto> z\<lparr>on_rq := False, se_rq := 0\<rparr>), rqs := (rqs s)(q \<mapsto> r')\<rparr>) \<and>
    run_tree r' = run_tree r \<and> nr_queued r' = dec (nr_queued r) \<and> same_rq (Some r) (Some r')"
proof -
  have q: "q \<noteq> 0" "rqs s q = Some r" using assms(1) by (auto simp: get_rq_def split: if_splits)
  define r1 where "r1 = r\<lparr>nr_queued := dec (nr_queued r), nr_running := dec (nr_running r), nr_running_snapshot := dec (nr_running r)\<rparr>"
  define s1 where "s1 = s\<lparr>entities := (entities s)(e \<mapsto> z\<lparr>on_rq := False, se_rq := 0\<rparr>)\<rparr>"
  let ?s = "s1\<lparr>rqs := (rqs s)(q \<mapsto> r1)\<rparr>"
  have "get_task ?s = get_task s" by (simp add: s1_def get_task_def fun_eq_iff)
  then obtain w where w: "sched_task_weight ?s (se_task z) = Some w" using weight_Some [of "se_task z" ?s] assms(4) by auto
  have 1: "upd_se e (\<lambda>e. e\<lparr>on_rq := False, se_rq := 0\<rparr>) s = Some s1" "get_se ?s e = Some (z\<lparr>on_rq := False, se_rq := 0\<rparr>)"
    using assms(2,3) by (simp_all add: upd_se_def get_se_def s1_def)
  have 2: "upd_rq q (\<lambda>q. q\<lparr>nr_queued := dec (nr_queued q), nr_running := dec (nr_running q),
      nr_running_snapshot := dec (nr_running q)\<rparr>) s1 = Some ?s"
    using q by (simp add: upd_rq_def get_rq_def r1_def s1_def)
  have 3: "upd_rq q (\<lambda>q. q\<lparr>load_weight := less_weight (load_weight q) w\<rparr>) ?s =
      Some (s1\<lparr>rqs := (rqs s)(q \<mapsto> r1\<lparr>load_weight := less_weight (load_weight r1) w\<rparr>)\<rparr>)"
    using q by (simp add: upd_rq_def get_rq_def)
  have t: "se_task (z\<lparr>on_rq := False, se_rq := 0\<rparr>) = se_task z" by simp
  show ?thesis
    by (rule exI [of _ "r1\<lparr>load_weight := less_weight (load_weight r1) w\<rparr>"], simp only: 1 2 t w 3 Option.bind.simps)
      (simp add: r1_def s1_def same_rq_def)
qed

lemma of_nat_nonzero: "n < 2 ^ 64 \<Longrightarrow> n \<noteq> 0 \<Longrightarrow> of_nat n \<noteq> (0 :: u64)"
  by (auto simp: word_of_nat_eq_0_iff dest: nat_dvd_not_less)

lemma dequeue_law:
  assumes Q: "queue_ok s q (us @ e # vs)" "length (us @ e # vs) < 2 ^ 64" and c: "sound_curr s q"
  shows "\<exists>s'. sched_entity_dequeue_locked q e upd s = Some s' \<and> queue_ok s' q (us @ vs) \<and> \<not> queued s' q e \<and>
    only_queue q e (set (us @ vs)) s s'"
proof -
  let ?L = "us @ e # vs"
  obtain r where r: "ordered s q ?L r" "nr_queued r = of_nat (length ?L)" using Q(1) by (auto simp: queue_ok_def)
  have e: "e \<noteq> 0" "e \<notin> set (us @ vs)" using r(1) holds_tree_distinct holds_tree_null by (fastforce simp: ordered_def)+
  obtain x where x: "entities s e = Some x" "se_task x \<noteq> 0 \<longrightarrow> get_task s (se_task x) \<noteq> None"
    using r(1) by (auto simp: ordered_def sound_se_def)
  have rq: "get_rq s q = Some r" "q \<noteq> 0" "rqs s q = Some r" using r(1) by (auto simp: ordered_def get_rq_def split: if_splits)
  obtain s1 v n where 1: "on_tree q (\<lambda>t. do { t \<leftarrow> rb_erase_augmented (Some vmin) e t; sched_run_node_reset e t }) s = Some s1"
    "ordered s1 q (us @ vs) (r\<lparr>run_tree := v\<rparr>)" "same_entities (set ?L) (entities s) (entities s1)" "dom n = dom (se_nodes s)"
    "s1 = s\<lparr>se_nodes := n, entities := entities s1, rqs := (rqs s)(q \<mapsto> r\<lparr>run_tree := v\<rparr>)\<rparr>"
    using tree_erase [OF r(1)] by blast
  have 2: "tasks s1 = tasks s" "schedulers s1 = schedulers s" "current_cpu_id s1 = current_cpu_id s" "nr_cpus s1 = nr_cpus s"
    "ipis s1 = ipis s" "rqs s1 = (rqs s)(q \<mapsto> r\<lparr>run_tree := v\<rparr>)" "se_nodes s1 = n" by (subst 1(5), simp)+
  then have g: "get_task s1 = get_task s" by (simp add: get_task_def fun_eq_iff)
  obtain w where w: "entities s1 e = Some (x\<lparr>subtree_min_vruntime := w\<rparr>)" using 1(3) x(1) by (auto simp: same_entities_def)
  have r1: "get_rq s1 q = Some (r\<lparr>run_tree := v\<rparr>)" using 1(2) by (simp add: ordered_def)
  define z where "z = x\<lparr>subtree_min_vruntime := w\<rparr>"
  have "se_task z \<noteq> 0 \<longrightarrow> get_task s1 (se_task z) \<noteq> None" using x(2) g by (simp add: z_def)
  then obtain r2 where r2: "sched_entity_dequeue_locked q e upd s =
      (let s2 = s1\<lparr>entities := (entities s1)(e \<mapsto> z\<lparr>on_rq := False, se_rq := 0\<rparr>), rqs := (rqs s1)(q \<mapsto> r2)\<rparr>
       in if upd then sched_update_min_vruntime_locked q s2 else Some s2)"
    "run_tree r2 = v" "nr_queued r2 = dec (nr_queued r)" "same_rq (Some (r\<lparr>run_tree := v\<rparr>)) (Some r2)"
    using dequeue_tail [OF r1 w [folded z_def] e(1), of "\<lambda>s. if upd then sched_update_min_vruntime_locked q s else Some s"] 1(1)
    unfolding sched_entity_dequeue_locked_def by (auto simp: Let_def)
  define s2 where "s2 = s1\<lparr>entities := (entities s1)(e \<mapsto> z\<lparr>on_rq := False, se_rq := 0\<rparr>), rqs := (rqs s1)(q \<mapsto> r2)\<rparr>"
  have "same_entities (insert e (set (us @ vs))) ((entities s)(e := entities s e)) (entities s1)" using 1(3) by simp
  from same_except_step [OF this] have x2: "same_except e (set (us @ vs)) (entities s) (entities s2)" by (simp add: s2_def)
  have e2: "entities s2 e = Some (z\<lparr>on_rq := False, se_rq := 0\<rparr>)" by (simp add: s2_def)
  have "\<exists>a b. entities s1 p = Some a \<and> entities s2 p = Some b \<and> same_key a b" if "p \<in> set (us @ vs)" for p
    using queue_entity [OF 1(2) that] that e(2) by (auto simp: same_key_def s2_def)
  then have o2: "ordered s2 q (us @ vs) r2"
    using rq(2) r2(2) by (intro queue_cong [OF 1(2)]) (simp_all add: get_rq_def get_task_def s2_def)
  have q2: "queued s2 q p" if "p \<in> set (us @ vs)" for p
    using same_except_queued [OF x2, of p q] Q(1) that e(2) by (auto simp: queue_ok_def)
  have "of_nat (length ?L) \<noteq> (0 :: u64)" using of_nat_nonzero [OF Q(2)] by simp
  then have n2: "nr_queued r2 = of_nat (length (us @ vs))" using r2(3) r(2) by (simp add: dec_def)
  have u2: "only_queue q e (set (us @ vs)) s (s2\<lparr>rqs := (rqs s2)(q \<mapsto> r2\<lparr>min_vruntime := m\<rparr>)\<rparr>)" if "min_vruntime r2 \<le> m" for m
    using x2 2 x(1) 1(4) rq(3) r2(4) that by (auto simp: only_queue_def z_def s2_def same_rq_def)
  have q3: "queue_ok s3 q (us @ vs) \<and> \<not> queued s3 q e \<and> only_queue q e (set (us @ vs)) s s3"
    if s3: "s3 = s2\<lparr>rqs := (rqs s2)(q \<mapsto> r2\<lparr>min_vruntime := m\<rparr>)\<rparr>" "min_vruntime r2 \<le> m" for s3 m
  proof -
    have "ordered s3 q (us @ vs) (r2\<lparr>min_vruntime := m\<rparr>)"
      using queue_rq [OF o2] by (simp add: s3(1))
    then show ?thesis using n2 q2 e2 rq(2) u2 [OF s3(2)] unfolding s3(1) queue_ok_def by (auto simp: queued_def)
  qed
  have "r2\<lparr>min_vruntime := min_vruntime r2\<rparr> = r2" "rqs s2 q = Some r2" by (simp_all add: s2_def)
  then have "s2\<lparr>rqs := (rqs s2)(q \<mapsto> r2\<lparr>min_vruntime := min_vruntime r2\<rparr>)\<rparr> = s2" by (simp add: fun_upd_idem)
  then have q0: "queue_ok s2 q (us @ vs) \<and> \<not> queued s2 q e \<and> only_queue q e (set (us @ vs)) s s2" using q3 [of s2 "min_vruntime r2"] by simp
  have "sound_curr s2 q" using c rq r2(4) [unfolded same_rq_def] only_queue_sound [of q e "set (us @ vs)" s s2] q0 \<open>rqs s2 q = Some r2\<close>
    by (auto simp: sound_curr_def get_rq_def)
  then obtain m where m: "sched_update_min_vruntime_locked q s2 = Some (s2\<lparr>rqs := (rqs s2)(q \<mapsto> r2\<lparr>min_vruntime := m\<rparr>)\<rparr>)"
    "min_vruntime r2 \<le> m" using update_min_law [OF o2] by blast
  show ?thesis using r2(1) [folded s2_def] q0 q3 m by (cases upd) (auto simp: Let_def)
qed

end
