(* ===== verification/Sched_Pick.thy ===== *)
theory Sched_Pick
  imports Sched_Queue
begin

text \<open>
  Choosing the next entity, \<open>sched_pick_eevdf_locked\<close> of \<open>task/sched.c\<close>: the search that is pruned by the
  cached minima finds what a search of the whole queue would find.
\<close>

subsection \<open>The flag of dead entities\<close>

text \<open>A search changes nothing but \<open>cleanup_queued\<close> of its queue.\<close>

definition flag :: "ptr \<Rightarrow> bool \<Rightarrow> sched_mem \<Rightarrow> sched_mem" where
  "flag q b s = s\<lparr>rqs := (rqs s)(q := map_option (\<lambda>r. r\<lparr>cleanup_queued := b\<rparr>) (rqs s q))\<rparr>"

lemma flag_simps [simp]:
  "entities (flag q b s) = entities s" "se_nodes (flag q b s) = se_nodes s" "tasks (flag q b s) = tasks s"
  "get_se (flag q b s) = get_se s" "get_task (flag q b s) = get_task s" "se_ready (flag q b s) = se_ready s"
  "sched_subtree_min_vruntime (flag q b s) = sched_subtree_min_vruntime s" "flag q b (flag q c s) = flag q b s"
  by (simp_all add: flag_def get_se_def get_task_def se_ready_def sched_subtree_min_vruntime_def fun_eq_iff option.map_comp comp_def)

lemma flag_rq:
  assumes "get_rq s q = Some r"
  shows "get_rq (flag q b s) q = Some (r\<lparr>cleanup_queued := b\<rparr>)" "flag q (cleanup_queued r) s = s"
    "upd_rq q (\<lambda>q. q\<lparr>cleanup_queued := True\<rparr>) (flag q b s) = Some (flag q True s)"
proof -
  have q: "q \<noteq> 0" "rqs s q = Some r" using assms by (auto simp: get_rq_def split: if_splits)
  then show "get_rq (flag q b s) q = Some (r\<lparr>cleanup_queued := b\<rparr>)" by (simp add: flag_def get_rq_def)
  have "r\<lparr>cleanup_queued := cleanup_queued r\<rparr> = r" by simp
  then show "flag q (cleanup_queued r) s = s" using q by (simp add: flag_def fun_upd_idem)
  show "upd_rq q (\<lambda>q. q\<lparr>cleanup_queued := True\<rparr>) (flag q b s) = Some (flag q True s)"
    using q by (simp add: flag_def upd_rq_def get_rq_def)
qed

subsection \<open>What may be picked\<close>

definition vr_of :: "sched_mem \<Rightarrow> ptr \<Rightarrow> u64" where
  "vr_of s p = vruntime (the (entities s p))"

text \<open>The task of the entity is ready, and it is not the excluded one.\<close>

definition is_ready :: "sched_mem \<Rightarrow> ptr \<Rightarrow> bool" where
  "is_ready s p \<longleftrightarrow> se_ready s (the (entities s p)) = Some True"

definition pickable :: "sched_mem \<Rightarrow> ptr \<Rightarrow> ptr \<Rightarrow> bool" where
  "pickable s ex p \<longleftrightarrow> is_ready s p \<and> se_task (the (entities s p)) \<noteq> ex"

lemma flag_entity [simp]:
  "vr_of (flag q b s) = vr_of s" "is_ready (flag q b s) = is_ready s" "pickable (flag q b s) = pickable s" "key (flag q b s) = key s"
  "sound_se (flag q b s) = sound_se s"
  by (simp_all add: vr_of_def is_ready_def pickable_def key_def sound_se_def fun_eq_iff Let_def)

lemma sound_ready: "sound_se s p \<Longrightarrow> \<exists>e. get_se s p = Some e \<and> the (entities s p) = e \<and> se_ready s e = Some (is_ready s p)"
  by (auto simp: sound_se_def get_se_def is_ready_def se_ready_def)

subsection \<open>The search for an eligible entity\<close>

lemma first_eligible_law:
  assumes rq: "get_rq s q = Some r" and t: "rep (run_tree_of s r) c t" "settled vmin (addrs c t) (run_tree_of s r)"
    "\<forall>p \<in> set (inorder t). sound_se s p"
  shows "\<exists>b. sched_first_eligible_locked q (rt t) mx ex (flag q b0 s) =
      Some (hd0 (filter (\<lambda>p. vr_of s p \<le> mx \<and> pickable s ex p) (inorder t)), flag q b s) \<and>
    (b0 \<longrightarrow> b) \<and> (b \<longrightarrow> b0 \<or> (\<exists>p \<in> set (inorder t). \<not> is_ready s p))"
  using t
proof (induction t arbitrary: c b0)
  case Lf
  then show ?case by (intro exI [of _ b0]) (simp add: sched_first_eligible_locked.simps)
next
  case (Nd l x k rr)
  let ?P = "\<lambda>p. vr_of s p \<le> mx \<and> pickable s ex p"
  obtain m where m: "sched_subtree_min_vruntime s x = Some m" "\<forall>p \<in> set (inorder (Nd l x k rr)). m \<le> vr_of s p"
    using minimum [OF Nd.prems(2) _ Nd.prems(1), of "entities s"] by (fastforce simp: sched_subtree_min_vruntime_def vr_of_def)
  have x: "x \<noteq> 0" using rep_node(2) [OF Nd.prems(1)] .
  show ?case
  proof (cases "m > mx")
    case True
    then have "\<not> ?P p" if "p \<in> set (inorder (Nd l x k rr))" for p using m(2) that by (metis leD le_less_trans)
    then have "filter ?P (inorder (Nd l x k rr)) = []" unfolding filter_empty_conv by blast
    then show ?thesis using True m(1) x by (intro exI [of _ b0]) (simp add: sched_first_eligible_locked.simps [of q x])
  next
    case False
    have "se_nodes s x = Some (mk (cpar c) k (rt l) (rt rr))" using rep_node(1) [OF Nd.prems(1)] x by (simp add: node_at_def)
    then have n: "se_nodes s x = Some (mk (cpar c) k (rt l) (rt rr))" "rb_left (mk (cpar c) k (rt l) (rt rr)) = rt l"
      "rb_right (mk (cpar c) k (rt l) (rt rr)) = rt rr" by (simp_all add: mk_def)
    obtain bl where l: "sched_first_eligible_locked q (rt l) mx ex (flag q b0 s) = Some (hd0 (filter ?P (inorder l)), flag q bl s)"
      "b0 \<longrightarrow> bl" "bl \<longrightarrow> b0 \<or> (\<exists>p \<in> set (inorder l). \<not> is_ready s p)"
      using Nd.IH(1) [of "CL c x k rr" b0] Nd.prems by (auto simp: rep_CL)
    show ?thesis
    proof (cases "filter ?P (inorder l) = []")
      case True
      obtain e where e: "get_se s x = Some e" "the (entities s x) = e" "se_ready s e = Some (is_ready s x)"
        using sound_ready [of s x] Nd.prems(3) by auto
      let ?b = "bl \<or> vr_of s x \<le> mx \<and> \<not> is_ready s x"
      obtain br where r: "sched_first_eligible_locked q (rt rr) mx ex (flag q ?b s) = Some (hd0 (filter ?P (inorder rr)), flag q br s)"
        "?b \<longrightarrow> br" "br \<longrightarrow> ?b \<or> (\<exists>p \<in> set (inorder rr). \<not> is_ready s p)"
        using Nd.IH(2) [of "CR l x k c" ?b] Nd.prems by (auto simp: rep_CR)
      have step: "sched_first_eligible_locked q x mx ex (flag q b0 s) =
          (if ?P x then Some (x, flag q bl s) else sched_first_eligible_locked q (rt rr) mx ex (flag q ?b s))"
        using True False m(1) x n l(1) e flag_rq(3) [OF rq]
        by (auto simp: sched_first_eligible_locked.simps [of q x] sched_entity_eligible_locked_def vr_of_def pickable_def Let_def)
      show ?thesis
      proof (cases "?P x")
        case True
        then show ?thesis using step l \<open>filter ?P (inorder l) = []\<close> by (intro exI [of _ bl]) auto
      next
        case False
        then show ?thesis using step l r \<open>filter ?P (inorder l) = []\<close> by (intro exI [of _ br]) auto
      qed
    next
      case ne: False
      then have "hd0 (filter ?P (inorder l)) \<in> set (filter ?P (inorder l))" by (cases "filter ?P (inorder l)") auto
      then have "hd0 (filter ?P (inorder l)) \<noteq> 0" using Nd.prems(3) by (auto simp: sound_se_def)
      then show ?thesis using False m(1) x n l ne
        by (intro exI [of _ bl]) (auto simp: sched_first_eligible_locked.simps [of q x] hd0_append)
    qed
  qed
qed

subsection \<open>The fallback\<close>

definition better :: "sched_mem \<Rightarrow> ptr \<Rightarrow> ptr \<Rightarrow> ptr \<Rightarrow> ptr" where
  "better s ex best p = (if pickable s ex p \<and> (best = 0 \<or> vr_of s p < vr_of s best) then p else best)"

lemma fallback_loop_law:
  assumes o: "ordered s q (us @ ws) r" and b: "best = 0 \<or> best \<in> set us"
  shows "\<exists>b. min_fallback_loop q ex (hd0 ws) best (flag q b0 s) = Some (foldl (better s ex) best ws, flag q b s) \<and>
    (b0 \<longrightarrow> b) \<and> (b \<longrightarrow> b0 \<or> (\<exists>p \<in> set ws. \<not> is_ready s p))"
  using assms
proof (induction ws arbitrary: us best b0)
  case Nil
  then show ?case by (intro exI [of _ b0]) (simp add: min_fallback_loop.simps)
next
  case (Cons x ws)
  have rq: "get_rq s q = Some r" "holds_tree (run_tree_of s r) (us @ x # ws)" "\<forall>p \<in> set (us @ x # ws). sound_se s p"
    using Cons.prems(1) by (simp_all add: ordered_def)
  obtain e where e: "get_se s x = Some e" "the (entities s x) = e" "se_ready s e = Some (is_ready s x)" "x \<noteq> 0"
    using sound_ready [of s x] rq(3) by (auto simp: sound_se_def)
  have bb: "best \<noteq> 0 \<longrightarrow> (\<exists>e'. get_se s best = Some e' \<and> vruntime e' = vr_of s best)"
    using Cons.prems(2) queue_entity [OF Cons.prems(1), of best] by (auto simp: get_se_def vr_of_def)
  let ?b = "b0 \<or> \<not> is_ready s x"
  have nx: "rb_next (run_tree_of (flag q b s) (r\<lparr>cleanup_queued := b\<rparr>)) x = Some (hd0 ws)" for b
    using rb_next_hd [OF rq(2)] by (simp add: run_tree_of_def)
  have step: "min_fallback_loop q ex x best (flag q b0 s) = min_fallback_loop q ex (hd0 ws) (better s ex best x) (flag q ?b s)"
    using e bb flag_rq [OF rq(1)] nx
    by (cases "is_ready s x"; cases "se_task e = ex"; cases "best = 0")
      (auto simp: min_fallback_loop.simps [of q ex x] better_def pickable_def vr_of_def)
  have "ordered s q ((us @ [x]) @ ws) r" "better s ex best x = 0 \<or> better s ex best x \<in> set (us @ [x])"
    using Cons.prems by (auto simp: better_def)
  from Cons.IH [OF this, of ?b] step show ?case by auto
qed

text \<open>The entity of least virtual runtime in \<open>X\<close> that may be picked, 0 if there is none.\<close>

definition least_of :: "sched_mem \<Rightarrow> ptr \<Rightarrow> ptr set \<Rightarrow> ptr \<Rightarrow> bool" where
  "least_of s ex X p \<longleftrightarrow>
     (if p = 0 then \<forall>x \<in> X. \<not> pickable s ex x
      else p \<in> X \<and> pickable s ex p \<and> (\<forall>x \<in> X. pickable s ex x \<longrightarrow> vr_of s p \<le> vr_of s x))"

lemma least_of_better:
  assumes "least_of s ex X best" "x \<noteq> 0"
  shows "least_of s ex (insert x X) (better s ex best x)"
proof (cases "pickable s ex x \<and> (best = 0 \<or> vr_of s x < vr_of s best)")
  case True
  then have "vr_of s x \<le> vr_of s y" if "y \<in> X" "pickable s ex y" for y
    using assms(1) that by (cases "best = 0") (auto simp: least_of_def intro: order_trans)
  then show ?thesis using True assms(2) by (auto simp: least_of_def better_def)
next
  case False
  then show ?thesis using assms by (auto simp: least_of_def better_def split: if_splits)
qed

lemma least_of_fold: "least_of s ex X best \<Longrightarrow> 0 \<notin> set ws \<Longrightarrow> least_of s ex (X \<union> set ws) (foldl (better s ex) best ws)"
proof (induction ws arbitrary: X best)
  case (Cons x ws)
  then show ?case using Cons.IH [OF least_of_better [OF Cons.prems(1)], of x] by simp
qed simp

lemma fallback_law:
  assumes "ordered s q L r"
  shows "\<exists>p b. sched_pick_min_fallback_locked q ex (flag q b0 s) = Some (p, flag q b s) \<and> least_of s ex (set L) p \<and>
    (b0 \<longrightarrow> b) \<and> (b \<longrightarrow> b0 \<or> (\<exists>p \<in> set L. \<not> is_ready s p))"
proof -
  have h: "get_rq s q = Some r" "holds_tree (run_tree_of s r) L" using assms by (simp_all add: ordered_def)
  have "rb_first (run_tree_of (flag q b0 s) (r\<lparr>cleanup_queued := b0\<rparr>)) = Some (hd0 L)"
    using rb_first_hd [OF h(2)] by (simp add: run_tree_of_def)
  moreover have "least_of s ex (set L) (foldl (better s ex) 0 L)"
    using least_of_fold [of s ex "{}" 0 L] holds_tree_null [OF h(2)] by (simp add: least_of_def)
  ultimately show ?thesis using fallback_loop_law [of s q "[]" L r 0 ex b0] assms flag_rq(1) [OF h(1)]
    by (auto simp: sched_pick_min_fallback_locked_def)
qed

subsection \<open>The choice\<close>

text \<open>
  The bound of eligibility is the larger one of \<open>min_vruntime\<close> of the queue and the least virtual runtime queued.
  Of the eligible entities that may be picked the first one is taken, that is the one with the earliest deadline;
  if there is none, the one with the least virtual runtime.
\<close>

definition picks :: "sched_mem \<Rightarrow> u64 \<Rightarrow> ptr \<Rightarrow> ptr list \<Rightarrow> ptr \<Rightarrow> bool" where
  "picks s mx ex L p \<longleftrightarrow>
     (if \<exists>x \<in> set L. vr_of s x \<le> mx \<and> pickable s ex x
      then p \<in> set L \<and> vr_of s p \<le> mx \<and> pickable s ex p \<and>
        (\<forall>x \<in> set L. vr_of s x \<le> mx \<and> pickable s ex x \<longrightarrow> key s p \<le> key s x)
      else least_of s ex (set L) p)"

definition chosen :: "sched_mem \<Rightarrow> ptr \<Rightarrow> ptr \<Rightarrow> ptr list \<Rightarrow> ptr \<Rightarrow> bool" where
  "chosen s q ex L p \<longleftrightarrow> (\<exists>r. get_rq s q = Some r \<and>
     (if L = [] then p = 0 else picks s (max (min_vruntime r) (Min (vr_of s ` set L))) ex L p))"

lemma hd0_filter:
  assumes "sorted_wrt (\<lambda>a b. key s a < key s b) L" "filter P L \<noteq> []"
  shows "hd0 (filter P L) \<in> set L \<and> P (hd0 (filter P L)) \<and> (\<forall>x \<in> set L. P x \<longrightarrow> key s (hd0 (filter P L)) \<le> key s x)"
  using assms by (induction L) (auto split: if_splits dest: less_imp_le)

lemma pick_law:
  assumes o: "ordered s q L r"
  shows "\<exists>p b. sched_pick_eevdf_locked q ex s = Some (p, flag q b s) \<and>
    chosen s q ex L p \<and> (cleanup_queued r \<longrightarrow> b) \<and> (b \<longrightarrow> cleanup_queued r \<or> (\<exists>p \<in> set L. \<not> is_ready s p))"
proof -
  have h: "get_rq s q = Some r" "settled vmin (set L) (run_tree_of s r)" "\<forall>p \<in> set L. sound_se s p"
    "sorted_wrt (\<lambda>a b. key s a < key s b) L" using o by (simp_all add: ordered_def)
  obtain T where T: "rep (run_tree_of s r) Top T" "inorder T = L" using o by (auto simp: ordered_def holds_tree_def)
  then have T': "rt T = run_tree r" "addrs Top T = set L" by (simp_all add: rep_def addrs_def)
  have f: "flag q (cleanup_queued r) s = s" using flag_rq(2) [OF h(1)] .
  show ?thesis
  proof (cases "L = []")
    case True
    then have "run_tree r = 0" using T T' by (cases T) auto
    then show ?thesis using True h(1) f by (intro exI [of _ 0] exI [of _ "cleanup_queued r"]) (simp add: sched_pick_eevdf_locked_def chosen_def)
  next
    case False
    then have nz: "run_tree r \<noteq> 0" using T T' rep_rt_zero [OF T(1)] by auto
    obtain m where m: "sched_subtree_min_vruntime s (run_tree r) = Some m" "\<forall>p \<in> set L. m \<le> vr_of s p" "\<exists>p \<in> set L. vr_of s p = m"
      using root_min [OF o] False by (auto simp: vr_of_def)
    have "Min (vr_of s ` set L) = m" using m(2,3) by (intro Min_eqI) auto
    then have mx: "(if m > min_vruntime r then m else min_vruntime r) = max (min_vruntime r) (Min (vr_of s ` set L))" by (auto simp: max_def)
    let ?mx = "max (min_vruntime r) (Min (vr_of s ` set L))" and ?P = "\<lambda>p. vr_of s p \<le> max (min_vruntime r) (Min (vr_of s ` set L)) \<and> pickable s ex p"
    obtain b where b: "sched_first_eligible_locked q (run_tree r) ?mx ex s = Some (hd0 (filter ?P L), flag q b s)"
      "cleanup_queued r \<longrightarrow> b" "b \<longrightarrow> cleanup_queued r \<or> (\<exists>p \<in> set L. \<not> is_ready s p)"
      using first_eligible_law [OF h(1) T(1), of ?mx ex "cleanup_queued r"] T(2) T' h(2,3) f by auto
    have ch: "chosen s q ex L p = picks s ?mx ex L p" for p using h(1) False by (simp add: chosen_def)
    have step: "sched_pick_eevdf_locked q ex s = (if hd0 (filter ?P L) \<noteq> 0 then Some (hd0 (filter ?P L), flag q b s)
        else sched_pick_min_fallback_locked q ex (flag q b s))"
      using h(1) nz m(1) b(1) mx by (simp add: sched_pick_eevdf_locked_def Let_def)
    show ?thesis
    proof (cases "filter ?P L = []")
      case True
      then have "\<not> (\<exists>x \<in> set L. ?P x)" by (simp add: filter_empty_conv)
      then show ?thesis using fallback_law [OF o, of ex b] step b(2,3) True by (auto simp: picks_def ch)
    next
      case ne: False
      note p = hd0_filter [OF h(4) ne]
      then have "hd0 (filter ?P L) \<noteq> 0" using h(3) by (auto simp: sound_se_def)
      moreover have "picks s ?mx ex L (hd0 (filter ?P L))" using p unfolding picks_def by auto
      ultimately show ?thesis using step b(2,3) by (auto simp: ch)
    qed
  qed
qed

end
