(* ===== verification/Sched_Spec.thy ===== *)
theory Sched_Spec
  imports Sched_Pick
begin

text \<open>
  Dead entities leave the queue, and the properties of the run queues of \<open>task/sched.c\<close>.
\<close>

subsection \<open>What stays during a choice\<close>

definition keeps_run :: "ptr \<Rightarrow> sched_mem \<Rightarrow> sched_mem \<Rightarrow> bool" where
  "keeps_run q s s' \<longleftrightarrow> tasks s' = tasks s \<and> same_rq (rqs s q) (rqs s' q) \<and>
     (\<forall>p. map_option (\<lambda>x. (vruntime x, se_task x)) (entities s' p) = map_option (\<lambda>x. (vruntime x, se_task x)) (entities s p))"

lemma keeps_run_refl: "get_rq s q = Some r \<Longrightarrow> keeps_run q s s"
  by (auto simp: keeps_run_def same_rq_def get_rq_def split: if_splits)

lemma keeps_run_trans: "keeps_run q s s' \<Longrightarrow> keeps_run q s' s'' \<Longrightarrow> keeps_run q s s''"
  by (auto simp: keeps_run_def same_rq_def)

lemma only_queue_keeps:
  assumes "only_queue q e A s s'"
  shows "keeps_run q s s'"
proof -
  have "map_option (\<lambda>x. (vruntime x, se_task x)) (entities s' p) = map_option (\<lambda>x. (vruntime x, se_task x)) (entities s p)" for p
  proof (cases "p \<in> A - {e}")
    case True
    then obtain x v where "entities s p = Some x" "entities s' p = Some (x\<lparr>subtree_min_vruntime := v\<rparr>)"
      using assms unfolding only_queue_def same_except_def by blast
    then show ?thesis by simp
  next
    case False
    then show ?thesis using assms by (cases "p = e") (auto simp: only_queue_def same_except_def)
  qed
  then show ?thesis using assms by (simp add: keeps_run_def only_queue_def)
qed

lemma keeps_run_rq: "get_rq s q = Some r \<Longrightarrow> rq_curr r' = rq_curr r \<Longrightarrow> rq_idle r' = rq_idle r \<Longrightarrow> min_vruntime r \<le> min_vruntime r' \<Longrightarrow>
    keeps_run q s (s\<lparr>rqs := (rqs s)(q \<mapsto> r')\<rparr>)"
  by (auto simp: keeps_run_def same_rq_def get_rq_def split: if_splits)

lemma keeps_run_entity:
  assumes "keeps_run q s s'" "sound_se s p"
  shows "sound_se s' p" "is_ready s' p = is_ready s p" "vr_of s' p = vr_of s p" "pickable s' ex p = pickable s ex p"
proof -
  obtain x where x: "entities s p = Some x" "p \<noteq> 0" "se_task x \<noteq> 0 \<longrightarrow> get_task s (se_task x) \<noteq> None"
    using assms(2) by (auto simp: sound_se_def)
  have "map_option (\<lambda>x. (vruntime x, se_task x)) (entities s' p) = Some (vruntime x, se_task x)"
    using assms(1) x(1) by (simp add: keeps_run_def)
  then obtain y where y: "entities s' p = Some y" "vruntime y = vruntime x" "se_task y = se_task x" by auto
  have g: "get_task s' = get_task s" using assms(1) by (simp add: keeps_run_def get_task_def fun_eq_iff)
  show "sound_se s' p" using x y g by (simp add: sound_se_def)
  show "is_ready s' p = is_ready s p" "vr_of s' p = vr_of s p" "pickable s' ex p = pickable s ex p"
    using x(1) y g by (simp_all add: is_ready_def vr_of_def pickable_def se_ready_def)
qed

lemma keeps_run_curr:
  assumes "keeps_run q s s'" "sound_curr s q"
  shows "sound_curr s' q"
proof -
  obtain r where r: "get_rq s q = Some r" "rq_curr r \<noteq> 0 \<longrightarrow> sound_se s (rq_curr r)" using assms(2) by (auto simp: sound_curr_def)
  then obtain r' where "get_rq s' q = Some r'" "rq_curr r' = rq_curr r"
    using assms(1) by (auto simp: get_rq_def keeps_run_def same_rq_def split: if_splits)
  then show ?thesis using r(2) keeps_run_entity(1) [OF assms(1)] by (simp add: sound_curr_def)
qed

lemma queue_ok_rq:
  assumes "queue_ok s q L" "get_rq s q = Some r" "run_tree r' = run_tree r" "nr_queued r' = nr_queued r"
  shows "queue_ok (s\<lparr>rqs := (rqs s)(q \<mapsto> r')\<rparr>) q L"
proof -
  have "ordered s q L r" "nr_queued r = of_nat (length L)" using assms(1,2) by (auto simp: queue_ok_def ordered_def)
  then show ?thesis using assms(1,4) queue_rq [OF _ assms(3)] by (auto simp: queue_ok_def queued_def)
qed

subsection \<open>Dead entities\<close>

lemma drop_dead_loop_law:
  assumes "queue_ok s q (us @ ws)" "length (us @ ws) < 2 ^ 64" "sound_curr s q"
  shows "\<exists>d' s'. drop_dead_loop q (hd0 ws) d s = Some (d', s') \<and> queue_ok s' q (us @ filter (is_ready s) ws) \<and> keeps_run q s s'"
  using assms
proof (induction ws arbitrary: us d s)
  case Nil
  then obtain r where "get_rq s q = Some r" by (auto simp: queue_ok_def ordered_def)
  then show ?case using Nil keeps_run_refl by (auto simp: drop_dead_loop.simps)
next
  case (Cons x ws)
  obtain r where r: "ordered s q (us @ x # ws) r" using Cons.prems(1) by (auto simp: queue_ok_def)
  then have h: "get_rq s q = Some r" "holds_tree (run_tree_of s r) (us @ x # ws)" "\<forall>p \<in> set (us @ x # ws). sound_se s p"
    by (simp_all add: ordered_def)
  obtain e where e: "get_se s x = Some e" "se_ready s e = Some (is_ready s x)" "x \<noteq> 0"
    using sound_ready [of s x] h(3) by (auto simp: sound_se_def)
  have step: "drop_dead_loop q x d s = (if is_ready s x then drop_dead_loop q (hd0 ws) d s
      else do { s \<leftarrow> sched_entity_dequeue_locked q x False s; drop_dead_loop q (hd0 ws) True s })"
    using h(1) e rb_next_hd [OF h(2)] by (simp add: drop_dead_loop.simps [of q x])
  show ?case
  proof (cases "is_ready s x")
    case True
    then show ?thesis using step Cons.IH [of s "us @ [x]" d] Cons.prems by simp
  next
    case False
    obtain s1 where s1: "sched_entity_dequeue_locked q x False s = Some s1" "queue_ok s1 q (us @ ws)" "keeps_run q s s1"
      using dequeue_law [OF Cons.prems, of False] only_queue_keeps by blast
    have "filter (is_ready s1) ws = filter (is_ready s) ws"
      using keeps_run_entity(2) [OF s1(3)] h(3) by (intro filter_cong) auto
    then show ?thesis
      using step s1 False Cons.IH [of s1 us True] Cons.prems(2) keeps_run_curr [OF s1(3) Cons.prems(3)] keeps_run_trans [OF s1(3)]
      by fastforce
  qed
qed

lemma drop_dead_law:
  assumes "queue_ok s q L" "length L < 2 ^ 64" "sound_curr s q"
  shows "\<exists>s'. sched_drop_dead_queued_locked q s = Some s' \<and> queue_ok s' q (filter (is_ready s) L) \<and> keeps_run q s s'"
proof -
  obtain r where r: "ordered s q L r" using assms(1) by (auto simp: queue_ok_def)
  then have 1: "get_rq s q = Some r" "rb_first (run_tree_of s r) = Some (hd0 L)" using rb_first_hd by (auto simp: ordered_def)
  obtain d s1 where s1: "drop_dead_loop q (hd0 L) False s = Some (d, s1)" "queue_ok s1 q (filter (is_ready s) L)" "keeps_run q s s1"
    using drop_dead_loop_law [of s q "[]" L False] assms by auto
  obtain r1 where r1: "ordered s1 q (filter (is_ready s) L) r1" "get_rq s1 q = Some r1" "q \<noteq> 0"
    using s1(2) by (auto simp: queue_ok_def ordered_def get_rq_def split: if_splits)
  obtain v where v: "sched_update_min_vruntime_locked q s1 = Some (s1\<lparr>rqs := (rqs s1)(q \<mapsto> r1\<lparr>min_vruntime := v\<rparr>)\<rparr>)" "min_vruntime r1 \<le> v"
    using update_min_law [OF r1(1) keeps_run_curr [OF s1(3) assms(3)]] by blast
  let ?r = "if d then r1\<lparr>min_vruntime := v\<rparr> else r1"
  have "sched_drop_dead_queued_locked q s = Some (s1\<lparr>rqs := (rqs s1)(q \<mapsto> ?r\<lparr>cleanup_queued := False\<rparr>)\<rparr>)"
    using 1 s1(1) v(1) r1(2,3) by (auto simp: sched_drop_dead_queued_locked_def upd_rq_def get_rq_def)
  moreover have "queue_ok (s1\<lparr>rqs := (rqs s1)(q \<mapsto> ?r\<lparr>cleanup_queued := False\<rparr>)\<rparr>) q (filter (is_ready s) L)"
    by (rule queue_ok_rq [OF s1(2) r1(2)]) simp_all
  moreover have "keeps_run q s (s1\<lparr>rqs := (rqs s1)(q \<mapsto> ?r\<lparr>cleanup_queued := False\<rparr>)\<rparr>)"
    using v(2) by (intro keeps_run_trans [OF s1(3)] keeps_run_rq [OF r1(2)]) simp_all
  ultimately show ?thesis by blast
qed

text \<open>The choice with the cleaning both callers do.\<close>

lemma flag_law:
  assumes "queue_ok s q L" "sound_curr s q"
  shows "queue_ok (flag q b s) q L" "sound_curr (flag q b s) q" "keeps_run q s (flag q b s)" "chosen (flag q b s) q = chosen s q"
proof -
  obtain r where r: "get_rq s q = Some r" using assms(1) by (auto simp: queue_ok_def ordered_def)
  then have f: "flag q b s = s\<lparr>rqs := (rqs s)(q \<mapsto> r\<lparr>cleanup_queued := b\<rparr>)\<rparr>" by (auto simp: flag_def get_rq_def split: if_splits)
  show "queue_ok (flag q b s) q L" unfolding f by (rule queue_ok_rq [OF assms(1) r]) simp_all
  show k: "keeps_run q s (flag q b s)" unfolding f by (rule keeps_run_rq [OF r]) simp_all
  show "sound_curr (flag q b s) q" by (rule keeps_run_curr [OF k assms(2)])
  show "chosen (flag q b s) q = chosen s q"
  proof (intro ext)
    fix ex L p
    have "picks (flag q b s) = picks s" by (intro ext) (simp only: picks_def least_of_def flag_entity)
    then show "chosen (flag q b s) q ex L p = chosen s q ex L p" using flag_rq(1) [OF r] r by (simp add: chosen_def)
  qed
qed

lemma pick_clean_law:
  assumes Q: "queue_ok s q L" "length L < 2 ^ 64" "sound_curr s q"
    and p: "sched_pick_eevdf_locked q ex s = Some (p, flag q b s)" "chosen s q ex L p"
    and L': "L' = (if b then filter (is_ready s) L else L)"
  shows "\<exists>p' s'. pick_clean q ex s = Some (p', s') \<and> queue_ok s' q L' \<and> keeps_run q s s' \<and> chosen s' q ex L' p'"
proof -
  obtain r where r: "get_rq s q = Some r" using Q(1) by (auto simp: queue_ok_def ordered_def)
  note f = flag_law [OF Q(1,3), of b]
  show ?thesis
  proof (cases b)
    case True
    obtain s1 where s1: "sched_drop_dead_queued_locked q (flag q b s) = Some s1" "queue_ok s1 q L'"
      "keeps_run q (flag q b s) s1" using drop_dead_law [OF f(1) Q(2) f(2)] True L' by auto
    then obtain r1 where "ordered s1 q L' r1" by (auto simp: queue_ok_def)
    then obtain p1 b1 where p1: "sched_pick_eevdf_locked q ex s1 = Some (p1, flag q b1 s1)" "chosen s1 q ex L' p1"
      using pick_law by blast
    have "pick_clean q ex s = Some (p1, flag q b1 s1)" using p(1) True flag_rq(1) [OF r] s1(1) p1(1) by (simp add: pick_clean_def)
    moreover note g = flag_law [OF s1(2) keeps_run_curr [OF s1(3) f(2)], of b1]
    ultimately show ?thesis using p1(2) keeps_run_trans [OF f(3) keeps_run_trans [OF s1(3) g(3)]] by metis
  next
    case False
    then have "pick_clean q ex s = Some (p, flag q b s)" using p(1) flag_rq(1) [OF r] by (simp add: pick_clean_def)
    then show ?thesis using f p(2) L' False by metis
  qed
qed

text \<open>The value cached at the root is the least virtual runtime queued.\<close>

lemma queue_min:
  assumes "queue_ok s q L" "L \<noteq> []"
  shows "\<exists>r. get_rq s q = Some r \<and> sched_subtree_min_vruntime s (run_tree r) = Some (Min (vr_of s ` set L))"
proof -
  obtain r where r: "ordered s q L r" "get_rq s q = Some r" using assms(1) by (auto simp: queue_ok_def ordered_def)
  obtain m where m: "sched_subtree_min_vruntime s (run_tree r) = Some m" "\<forall>p \<in> set L. m \<le> vr_of s p" "\<exists>p \<in> set L. vr_of s p = m"
    using root_min [OF r(1)] assms(2) by (auto simp: vr_of_def)
  have "Min (vr_of s ` set L) = m" using m(2,3) by (intro Min_eqI) auto
  then show ?thesis using m(1) r(2) by simp
qed

subsection \<open>An example\<close>

text \<open>
  A queue at 8 with two entities: 64 with the earlier deadline but a virtual runtime above the bound 5, and 72.
  A third one at 80 is not queued.
\<close>

definition ex_task :: "u64 \<Rightarrow> ptr \<Rightarrow> task_struct" where
  "ex_task pid e = \<lparr>t_pid = pid, t_cpu_id = 0, t_nice = 0, sched_info = e, t_state = TASK_READY, current_state = TASK_READY,
     need_resched = False\<rparr>"

definition ex_se :: "ptr \<Rightarrow> u64 \<Rightarrow> u64 \<Rightarrow> u64 \<Rightarrow> bool \<Rightarrow> sched_entity" where
  "ex_se t vr dl m on = \<lparr>se_task = t, se_rq = (if on then 8 else 0), vruntime = vr, deadline = dl, slice_ns = 0, exec_start_ns = 0,
     account_start_ns = 0, subtree_min_vruntime = m, on_rq = on\<rparr>"

definition ex_rq :: sched_rq where
  "ex_rq = \<lparr>run_tree = 64, rq_idle = 0, rq_curr = 0, min_vruntime = 3, load_weight = 2048, nr_running = 2,
     nr_running_snapshot = 2, nr_queued = 2, cleanup_queued = False\<rparr>"

definition ex_run :: sched_mem where
  "ex_run = \<lparr>se_nodes = [64 \<mapsto> mk 0 Black 0 72, 72 \<mapsto> mk 64 Red 0 0, 80 \<mapsto> mk 0 Red 0 0],
     entities = [64 \<mapsto> ex_se 128 7 10 5 True, 72 \<mapsto> ex_se 136 5 20 5 True, 80 \<mapsto> ex_se 144 6 0 0 False],
     rqs = [8 \<mapsto> ex_rq], tasks = [128 \<mapsto> ex_task 1 64, 136 \<mapsto> ex_task 2 72, 144 \<mapsto> ex_task 3 80],
     schedulers = (\<lambda>_. 8), current_cpu_id = 0, nr_cpus = 1, ipis = []\<rparr>"

lemma ex_queue: "queue_ok ex_run 8 [64, 72]"
proof -
  let ?t = "run_tree_of ex_run ex_rq" and ?T = "Nd Lf 64 Black (Nd Lf 72 Red Lf)"
  have "rep ?t Top ?T" by (simp add: rep_def ex_run_def ex_rq_def ok_def)
  moreover have "rb_tree ?T" by (auto simp: rb_tree_def intro: exI [of _ 1])
  ultimately have "holds_tree ?t [64, 72]" unfolding holds_tree_def by (intro exI [of _ ?T]) simp
  moreover have "settled vmin (set [64, 72]) ?t"
    by (simp add: settled_def vmin_fix kids_def vright_def subtree_min_def ex_run_def ex_se_def mk_def)
  moreover have "\<forall>p \<in> set [64, 72]. sound_se ex_run p"
    by (simp add: sound_se_def ex_run_def ex_se_def get_task_def)
  moreover have "sorted_wrt (\<lambda>a b. key ex_run a < key ex_run b) [64, 72]"
    by (simp add: key_def ex_run_def ex_se_def)
  moreover have "get_rq ex_run 8 = Some ex_rq" by (simp add: get_rq_def ex_run_def)
  ultimately have "ordered ex_run 8 [64, 72] ex_rq" unfolding ordered_def by blast
  moreover have "nr_queued ex_rq = of_nat (length [64, 72 :: ptr])" by (simp add: ex_rq_def)
  moreover have "\<forall>p \<in> set [64, 72]. queued ex_run 8 p" by (simp add: queued_def ex_run_def ex_se_def)
  ultimately show ?thesis unfolding queue_ok_def by blast
qed

lemma ex_curr: "sound_curr ex_run 8"
  by (simp add: sound_curr_def get_rq_def ex_run_def ex_rq_def)

lemma ex_values:
  "get_rq ex_run 8 = Some ex_rq" "min_vruntime ex_rq = 3" "vr_of ex_run 64 = 7" "vr_of ex_run 72 = 5"
  "pickable ex_run ex 64 = (ex \<noteq> 128)" "pickable ex_run ex 72 = (ex \<noteq> 136)"
  by (auto simp: get_rq_def ex_run_def ex_rq_def vr_of_def pickable_def is_ready_def se_ready_def ex_se_def get_task_def ex_task_def)

subsection \<open>The properties\<close>

text \<open>
  C38.  Entering a queue.  \<open>sched_entity_enqueue_locked\<close>, on a well-formed queue and an entity that is not in it,
  returns and leaves a well-formed queue: the entity is linked at the place that the order by deadline, virtual
  runtime, pid and address gives, the tree is a red-black tree in which every node caches the least virtual runtime
  of its subtree, \<open>nr_queued\<close> counts the entities, and each knows its queue.  Of the entities queued before only the
  cached minima change; tasks and other queues stay as they are.
\<close>

theorem enqueue_keeps_queue:
  assumes "queue_ok s q L" "sound_se s e" "ok e" "se_nodes s e \<noteq> None" "e \<notin> set L"
  shows "\<exists>s' us vs. sched_entity_enqueue_locked q e s = Some s' \<and> L = us @ vs \<and> queue_ok s' q (us @ e # vs) \<and>
    only_queue q e (set L) s s' \<and>
    (\<exists>r. get_rq s' q = Some r \<and> sched_subtree_min_vruntime s' (run_tree r) = Some (Min (vr_of s' ` insert e (set L))))"
proof -
  obtain s' us vs where s': "sched_entity_enqueue_locked q e s = Some s'" "L = us @ vs" "queue_ok s' q (us @ e # vs)"
    "only_queue q e (set L) s s'" using enqueue_law [OF assms] by blast
  moreover have "set (us @ e # vs) = insert e (set L)" using s'(2) by auto
  ultimately show ?thesis using queue_min [OF s'(3)] by auto
qed

theorem enqueue_keeps_queue_witness:
  "\<exists>s' L'. sched_entity_enqueue_locked 8 80 ex_run = Some s' \<and> queue_ok s' 8 L' \<and> set L' = {64, 72, 80}"
proof -
  have "sound_se ex_run 80" "ok 80" "se_nodes ex_run 80 \<noteq> None"
    by (simp_all add: sound_se_def ex_run_def ex_se_def get_task_def ok_def)
  then obtain s' us vs where s': "sched_entity_enqueue_locked 8 80 ex_run = Some s'" "[64, 72] = us @ vs" "queue_ok s' 8 (us @ 80 # vs)"
    using enqueue_keeps_queue [OF ex_queue, of 80] by auto
  have "set (us @ 80 # vs) = insert 80 (set (us @ vs))" by auto
  then have "set (us @ 80 # vs) = {64, 72, 80}" unfolding s'(2) [symmetric] by auto
  then show ?thesis using s' by blast
qed

text \<open>
  C39.  Leaving a queue.  \<open>sched_entity_dequeue_locked\<close> takes any entity out of a well-formed queue, wherever it is in
  the tree: it returns, the queue is well formed without the entity, with exact minima, and \<open>min_vruntime\<close> of the
  queue does not go back, whether or not it is recomputed.
\<close>

theorem dequeue_keeps_queue:
  assumes "queue_ok s q (us @ e # vs)" "length (us @ e # vs) < 2 ^ 64" "sound_curr s q"
  shows "\<exists>s'. sched_entity_dequeue_locked q e upd s = Some s' \<and> queue_ok s' q (us @ vs) \<and> \<not> queued s' q e \<and>
    only_queue q e (set (us @ vs)) s s' \<and>
    (us @ vs \<noteq> [] \<longrightarrow>
      (\<exists>r. get_rq s' q = Some r \<and> sched_subtree_min_vruntime s' (run_tree r) = Some (Min (vr_of s' ` set (us @ vs)))))"
  using dequeue_law [OF assms, of upd] queue_min by blast

theorem dequeue_keeps_queue_witness:
  "\<exists>s'. sched_entity_dequeue_locked 8 64 True ex_run = Some s' \<and> queue_ok s' 8 [72] \<and> \<not> queued s' 8 64"
  using dequeue_keeps_queue [of ex_run 8 "[]" 64 "[72]" True] ex_queue ex_curr by auto

text \<open>
  C40.  The choice of the next entity.  The search of \<open>sched_pick_eevdf_locked\<close>, which skips every subtree whose cached
  minimum is above the bound of eligibility, finds what a search of the whole queue finds: of the entities with a ready
  task that is not the excluded one and with a virtual runtime up to the larger one of \<open>min_vruntime\<close> and the least
  virtual runtime queued, the one with the earliest deadline; if there is none, the one of all such entities with the
  least virtual runtime; \<open>NULL\<close> only if no entity qualifies.  It changes nothing but \<open>cleanup_queued\<close>, which it sets
  only if a dead entity is queued.  If it is set, both callers drop the dead entities and choose again: then all and
  only the entities with a ready task stay, and the choice is the one among them.
\<close>

theorem pick_earliest_eligible:
  assumes "queue_ok s q L" "length L < 2 ^ 64" "sound_curr s q"
  shows "\<exists>p b r. sched_pick_eevdf_locked q ex s = Some (p, flag q b s) \<and> chosen s q ex L p \<and>
    get_rq s q = Some r \<and> (b \<longrightarrow> cleanup_queued r \<or> (\<exists>p \<in> set L. \<not> is_ready s p)) \<and>
    (\<exists>p' s' L'. pick_clean q ex s = Some (p', s') \<and> L' = (if b then filter (is_ready s) L else L) \<and> queue_ok s' q L' \<and>
      keeps_run q s s' \<and> chosen s' q ex L' p')"
proof -
  obtain r where r: "ordered s q L r" "get_rq s q = Some r" using assms(1) by (auto simp: queue_ok_def ordered_def)
  obtain p b where p: "sched_pick_eevdf_locked q ex s = Some (p, flag q b s)" "chosen s q ex L p"
    "b \<longrightarrow> cleanup_queued r \<or> (\<exists>p \<in> set L. \<not> is_ready s p)" using pick_law [OF r(1)] by blast
  show ?thesis using p r(2) pick_clean_law [OF assms p(1,2) refl] by blast
qed

theorem pick_earliest_eligible_witness:
  "(\<exists>b. sched_pick_eevdf_locked 8 0 ex_run = Some (72, flag 8 b ex_run)) \<and>
   (\<exists>b. sched_pick_eevdf_locked 8 136 ex_run = Some (64, flag 8 b ex_run))"
proof -
  have "p = 72" if "chosen ex_run 8 0 [64, 72] p" for p
  proof -
    have "p = 64 \<or> p = 72" "vr_of ex_run p \<le> 5" using that ex_values by (simp_all add: chosen_def picks_def)
    then show ?thesis using ex_values(3) by auto
  qed
  moreover have "p = 64" if "chosen ex_run 8 136 [64, 72] p" for p
  proof -
    have "p \<noteq> 0"
    proof
      assume "p = 0"
      then show False using that ex_values by (simp add: chosen_def picks_def least_of_def)
    qed
    then have "p = 64 \<or> p = 72" "pickable ex_run 136 p" using that ex_values by (simp_all add: chosen_def picks_def least_of_def)
    then show ?thesis using ex_values(6) by auto
  qed
  moreover have "length [64, 72 :: ptr] < 2 ^ 64" by simp
  note pick_earliest_eligible [OF ex_queue this ex_curr]
  ultimately show ?thesis by metis
qed

end
