(* ===== verification/Spec2Isabelle.thy ===== *)
theory Spec2Isabelle
  imports Bpf Bitmap Hashmap Skb Llist Llist_Queue Klibc_Mem Klibc_Str Klibc_Sort Spinlock Vma_Spec Buddy_Spec Sched_Spec
begin

text \<open>
  \<^bold>\<open>Core components of na-kernel.\<close>  na-kernel is a monolithic kernel in C for several 64-bit
  architectures.  This development models the components that the rest of the kernel stands on and
  proves that they do what their callers rely on.  Paths below are relative to
  \<^verbatim>\<open>src/kernel/src/\<close>.

  \<^bold>\<open>The parts and how they interact.\<close>
  The C library of the kernel (\<^verbatim>\<open>libs/klibc.c\<close>, \<^verbatim>\<open>libs/klibc.h\<close>) gives memory and string functions, sorting,
  spin locks, semaphores and reference counts.  The containers of \<^verbatim>\<open>libs/\<close> are used everywhere: intrusive
  lists, a doubly linked queue, red-black trees and a hash map.  Physical memory is a bitmap of usable
  frames, page metadata and a buddy allocator with per-CPU caches in \<^verbatim>\<open>mm/\<close>; virtual memory areas are kept
  in a red-black tree.  The scheduler of \<^verbatim>\<open>task/\<close> keeps the runnable tasks of a CPU in a red-black tree whose
  nodes cache a minimum.  Sockets queue their data as \<^verbatim>\<open>skb_buff\<close>s and run BPF filters on it.

  \<^bold>\<open>Conventions.\<close>
  Integers have their C width (\<^typ>\<open>u8\<close> to \<^typ>\<open>u64\<close> words) wherever wrap-around can matter;
  \<^verbatim>\<open>size_t\<close> loop counters that are bounded by a \<^verbatim>\<open>size_t\<close> are natural numbers.  A function whose C body can
  run into undefined behaviour (a read outside an object, a dereference of \<^verbatim>\<open>NULL\<close>), can stop the kernel
  by a failed assertion, or can loop forever returns an option, and \<^term>\<open>None\<close> stands for that; a
  theorem that says \<^term>\<open>Some\<close> therefore says that the code returns and stays inside its memory.
  Loops that are not visibly bounded are partial functions whose termination is proved.  State is passed
  explicitly: a heap is a partial map from addresses, 0 is \<^verbatim>\<open>NULL\<close>, and intrusive structures have the
  address of the node they contain, so that \<^verbatim>\<open>container_of\<close> is the identity.  Allocators, callbacks and
  other code outside a component are arguments.  A function that runs under a lock is one step; the
  locks themselves are modelled instruction by instruction in the theory of spin locks.  Null
  checks of the object a function is a method of are left out where no caller passes \<^verbatim>\<open>NULL\<close>.
  Log output is left out.

  \<^bold>\<open>The theories.\<close>
  \<^item> \<^verbatim>\<open>Prelude\<close>: machine types, checked array accesses, words as numbers, linked paths.
  \<^item> \<^verbatim>\<open>Bpf\<close>: \<^verbatim>\<open>bpf/socket_filter.c\<close>.  \<^verbatim>\<open>bpf_validate\<close> and the interpreter \<^verbatim>\<open>bpf_run\<close>, with the budget of one
    million instructions as the fuel of its loop, as in the code.  An accepted filter never leaves the
    program; well-behaved filters return; two accepted filters that the check should have refused.
  \<^item> \<^verbatim>\<open>Bitmap\<close>: \<^verbatim>\<open>mm/bitmap.c\<close>.  Ranges are set exactly; the search finds the least run.
  \<^item> \<^verbatim>\<open>Hashmap\<close>: \<^verbatim>\<open>libs/hashmap.c\<close>.  Open addressing with tombstones refines a finite map, rehashing and
    allocation failure included.
  \<^item> \<^verbatim>\<open>Skb\<close>: \<^verbatim>\<open>libs/skb_buff.c\<close>.  The byte accounting is exact and the queue is first-in first-out.
  \<^item> \<^verbatim>\<open>Llist\<close>, \<^verbatim>\<open>Llist_Queue\<close>: \<^verbatim>\<open>libs/llist.h\<close>, \<^verbatim>\<open>libs/llist_queue.c\<close>.  Pointer structures refine lists.
  \<^item> \<^verbatim>\<open>Klibc_Mem\<close>, \<^verbatim>\<open>Klibc_Str\<close>, \<^verbatim>\<open>Klibc_Sort\<close>: the memory, string and sorting functions of klibc on byte
    memory; the word-wise and unrolled code equals the byte-wise meaning.
  \<^item> \<^verbatim>\<open>Spinlock\<close>: spin locks as an interleaving of atomic instructions on any number of CPUs, with
    mutual exclusion, restored interrupt state and possible progress; semaphores, counters.
  \<^item> \<^verbatim>\<open>Rbtree\<close> (model), \<^verbatim>\<open>Rbtree_Rep\<close>, \<^verbatim>\<open>Rbtree_Aug\<close>, \<^verbatim>\<open>Rbtree_Rotate\<close>, \<^verbatim>\<open>Rbtree_Insert\<close>, \<^verbatim>\<open>Rbtree_Erase\<close>, \<^verbatim>\<open>Rbtree_Spec\<close>:
    \<^verbatim>\<open>libs/rbtree.c\<close> on a heap of nodes with packed parent and colour.  Insertion and removal keep the
    red-black conditions and the order of the nodes and touch nothing else; traversal; over every history
    of insertions and removals the operations return and the tree stays balanced.  The values
    that an augmentation callback keeps in the nodes stay right through both, for every callback that obeys
    the laws of the locale \<^verbatim>\<open>augmentation\<close>.
  \<^item> \<^verbatim>\<open>Vma\<close> (model), \<^verbatim>\<open>Vma_Spec\<close>: \<^verbatim>\<open>mm/vma.c\<close> on top of the trees.  Areas stay disjoint and sorted; splitting
    and merging keep flags, kind, object and file offset of every address, but not the position in a shared
    memory object, which a fault (\<^verbatim>\<open>mm/fault.c\<close>) counts from the start of the area: the properties say which
    addresses get other pages.  Unmapping clears exactly a range and ends.
  \<^item> \<^verbatim>\<open>Page\<close>, \<^verbatim>\<open>Buddy\<close> (models), \<^verbatim>\<open>Buddy_Lists\<close>, \<^verbatim>\<open>Buddy_Spec\<close>: \<^verbatim>\<open>mm/page.c\<close> and \<^verbatim>\<open>mm/buddy.c\<close>, page
    metadata, reference counts, and the frame allocator with its per-CPU caches.  The free lists are
    abstracted to a list of block addresses for every order.  Allocation hands out a block that was free and
    splits exactly as far as needed, freeing merges buddies as far as possible, and freeing what was
    allocated restores the lists.
  \<^item> \<^verbatim>\<open>Sched\<close> (model), \<^verbatim>\<open>Sched_Min\<close>, \<^verbatim>\<open>Sched_Queue\<close>, \<^verbatim>\<open>Sched_Pick\<close>, \<^verbatim>\<open>Sched_Spec\<close>: \<^verbatim>\<open>task/sched.c\<close>.  The callback of the
    run tree obeys the laws of an augmentation, so that every node caches the least virtual runtime of its
    subtree; entering and leaving a queue keep it ordered and counted; the pruned search for the next entity
    finds what a search of the whole queue would find, and dead entities leave the queue.

  \<^bold>\<open>Interfaces.\<close>  What a client may rely on is stated as a locale and interpreted on the model: sets of
  frames (bitmap), maps (hash map), queues (buffers), ordered collections of nodes (trees), augmentation
  callbacks (trees; provided by the scheduler).

  \<^bold>\<open>Not modelled.\<close>  Page tables, the slab allocator, page faults (but for the page of a shared
  memory area) and the memory system calls; tasks,
  context switches and signals; the file systems; sockets and netlink above their queues; drivers, interrupts,
  the block layer; boot code; the architecture directories; ACPI, the vendored libraries and the loadable
  modules.  They consist mainly of device access, assembly, callbacks through operation tables, or third
  party code, and need the state of the whole kernel.  \<^verbatim>\<open>strdup\<close> and the other allocating helpers of
  klibc, and the formatted output, are not modelled either.
\<close>

end
